(* ===== verification/Git_Prelude.thy ===== *)
theory Git_Prelude
  imports Main "HOL-Library.Word"
begin

unbundle bit_operations_syntax

section \<open>Shared vocabulary of the development\<close>

text \<open>
  Types, error values and generic lemmas every component uses.

  A C buffer is a \<open>list\<close> of bytes; a pointer that only moves forward over a buffer is the
  list of the bytes it has not passed yet, any other pointer is an index.  An operation of C
  that has no defined result is a \<open>fault\<close>: a read or write outside of an object, a shift by
  at least the width of its operand, a signed sum that does not fit into an \<^verbatim>\<open>int\<close>, a failed \<^verbatim>\<open>assert\<close>, a call to \<^verbatim>\<open>BUG()\<close>; and
  so is \<^verbatim>\<open>die()\<close>, which ends the process.  Operations that can fault return
  \<open>fault + 'a\<close>, and \<open>rbind\<close> sequences them.  A loop that the model runs with a bound on its
  iterations ends in \<open>No_fuel\<close> when the bound is too small; that it never is belongs to what the
  component proves.
\<close>

type_synonym byte = "8 word"
type_synonym u32 = "32 word"
type_synonym u64 = "64 word"

datatype fault = Oob | Undef_shift | Int_overflow | Assert_failed | Bug_called | Died | No_fuel

type_synonym 'a result = "fault + 'a"

named_theorems unat_simps \<open>unat of the word operations, as div, mod and + of naturals\<close>

subsection \<open>Sizes and ints\<close>

text \<open>The value of a \<^verbatim>\<open>size_t\<close> expression whose exact value is \<open>n\<close>, the difference of two such values, and the
  value an \<^verbatim>\<open>int\<close> has after the size \<open>n\<close> was assigned to it.\<close>

definition size_t :: "nat \<Rightarrow> nat" where
  "size_t n = n mod 2 ^ 64"

definition size_sub :: "nat \<Rightarrow> nat \<Rightarrow> nat" where
  "size_sub m n = size_t (m + 2 ^ 64 - n)"

definition c_int :: "nat \<Rightarrow> int" where
  "c_int n = sint (word_of_nat n :: u32)"

text \<open>The value \<open>x\<close> of an \<^verbatim>\<open>int\<close> expression, which is undefined when it is out of range.\<close>

definition int_val :: "int \<Rightarrow> int result" where
  "int_val x = (if - (2 ^ 31) \<le> x \<and> x < 2 ^ 31 then Inr x else Inl Int_overflow)"

lemma int_val_in [simp]: "- (2 ^ 31) \<le> x \<Longrightarrow> x < 2 ^ 31 \<Longrightarrow> int_val x = Inr x"
  by (simp add: int_val_def)

lemma size_t_small: "n < 2 ^ 64 \<Longrightarrow> size_t n = n"
  by (simp add: size_t_def)

lemma size_t_wrap [simp]:
  "size_t (size_t m + n) = size_t (m + n)" "size_t (m + size_t n) = size_t (m + n)" "size_t (size_t n) = size_t n"
  by (simp_all add: size_t_def mod_simps)

lemma size_sub_small:
  assumes "n \<le> m" and "m < 2 ^ 64"
  shows "size_sub m n = m - n"
proof -
  have "m + 2 ^ 64 - n = (m - n) + 2 ^ 64" using assms(1) by simp
  then have "size_sub m n = (m - n) mod 2 ^ 64" by (simp only: size_sub_def size_t_def mod_add_self2)
  then show ?thesis using assms(2) by simp
qed

lemma c_int_le: "c_int n \<le> int n"
  by (simp add: c_int_def signed_of_nat signed_take_bit_int_less_eq_self_iff)

lemma c_int_small: "n < 2 ^ 31 \<Longrightarrow> c_int n = int n"
  by (simp add: c_int_def signed_of_nat signed_take_bit_int_eq_self)

subsection \<open>Sequencing of operations that can fault\<close>

definition rbind :: "'a result \<Rightarrow> ('a \<Rightarrow> 'b result) \<Rightarrow> 'b result" where
  "rbind m f = (case m of Inl e \<Rightarrow> Inl e | Inr x \<Rightarrow> f x)"

lemma rbind_simps [simp]: "rbind (Inl e) f = Inl e" "rbind (Inr x) f = f x"
  by (simp_all add: rbind_def)

lemma rbind_eq_Inr: "rbind m f = Inr y \<longleftrightarrow> (\<exists>x. m = Inr x \<and> f x = Inr y)"
  by (cases m) simp_all

lemma rbind_assoc: "rbind (rbind m f) g = rbind m (\<lambda>x. rbind (f x) g)"
  by (cases m) simp_all

lemma rbind_cong [fundef_cong]:
  "m = m' \<Longrightarrow> (\<And>x. m' = Inr x \<Longrightarrow> f x = f' x) \<Longrightarrow> rbind m f = rbind m' f'"
  by (cases m') simp_all

subsection \<open>Bounds-checked access to an array\<close>

definition rd :: "'a list \<Rightarrow> nat \<Rightarrow> 'a result" where
  "rd xs i = (if i < length xs then Inr (xs ! i) else Inl Oob)"

definition wr :: "'a list \<Rightarrow> nat \<Rightarrow> 'a \<Rightarrow> 'a list result" where
  "wr xs i x = (if i < length xs then Inr (xs[i := x]) else Inl Oob)"

lemma rd_in [simp]: "i < length xs \<Longrightarrow> rd xs i = Inr (xs ! i)"
  by (simp add: rd_def)

lemma wr_in [simp]: "i < length xs \<Longrightarrow> wr xs i x = Inr (xs[i := x])"
  by (simp add: wr_def)

lemma wr_length: "wr mem i c = Inr mem' \<Longrightarrow> length mem' = length mem"
  by (auto simp: wr_def split: if_splits)

lemma rd_bound: "rd mem i = Inr c \<Longrightarrow> i < length mem"
  by (auto simp: rd_def split: if_splits)

text \<open>\<^verbatim>\<open>memcpy\<close> of a block out of an array, and onto the end of what has been written to a
  buffer of \<open>cap\<close> elements.\<close>

definition slice :: "'a list \<Rightarrow> nat \<Rightarrow> nat \<Rightarrow> 'a list result" where
  "slice xs off n = (if off + n \<le> length xs then Inr (take n (drop off xs)) else Inl Oob)"

definition push_cap :: "nat \<Rightarrow> 'a list \<Rightarrow> 'a list \<Rightarrow> 'a list result" where
  "push_cap cap out bs = (if length out + length bs \<le> cap then Inr (out @ bs) else Inl Oob)"

lemma slice_in [simp]: "off + n \<le> length xs \<Longrightarrow> slice xs off n = Inr (take n (drop off xs))"
  by (simp add: slice_def)

lemma push_cap_in [simp]: "length out + length bs \<le> cap \<Longrightarrow> push_cap cap out bs = Inr (out @ bs)"
  by (simp add: push_cap_def)

subsection \<open>Words as naturals\<close>

lemma unat_less: "unat (w :: 'a::len word) < 2 ^ LENGTH('a)"
  by (rule unsigned_less)

lemma unat_drop_bit_div [unat_simps]: "unat (drop_bit n w) = unat w div 2 ^ n"
  unfolding unat_drop_bit_eq by (rule drop_bit_eq_div)

lemma unat_and_mask [unat_simps]: "unat (w AND mask n) = unat w mod 2 ^ n"
  by (metis take_bit_eq_mask take_bit_eq_mod unsigned_take_bit_eq)

lemma unat_ucast_mod [unat_simps]:
  "unat (ucast w :: 'b::len word) = unat (w :: 'a::len word) mod 2 ^ LENGTH('b)"
  by (simp add: unsigned_ucast_eq take_bit_eq_mod)

lemma unat_push_bit_mod [unat_simps]:
  "unat (push_bit n w) = unat (w :: 'a::len word) * 2 ^ n mod 2 ^ LENGTH('a)"
  unfolding unsigned_push_bit_eq by (simp only: push_bit_eq_mult take_bit_eq_mod)

lemma nat_and_disjoint:
  assumes "(x::nat) < 2 ^ n" and "2 ^ n dvd y"
  shows "x AND y = 0"
proof -
  obtain k where y: "y = push_bit n k"
    using assms(2) by (auto simp: push_bit_eq_mult dvd_def mult.commute)
  have "x = take_bit n x" using assms(1) by (simp add: take_bit_nat_eq_self)
  then have "x AND y = take_bit n x AND push_bit n k" using y by simp
  also have "\<dots> = 0" by (rule bit_eqI) (simp add: bit_simps)
  finally show ?thesis .
qed

lemma unat_or_add:
  assumes "unat x < 2 ^ n" and "2 ^ n dvd unat y"
  shows "unat (x OR y) = unat x + unat y"
  by (simp add: unsigned_or_eq nat_and_disjoint [OF assms] disjunctive_add_eq_or)

lemma unat_or_add':
  assumes "unat x < 2 ^ n" and "2 ^ n dvd unat y"
  shows "unat (y OR x) = unat x + unat y"
  using unat_or_add [OF assms] by (simp add: or.commute)

lemma mask_numerals [unat_simps]:
  "(15 :: 'a::len word) = mask 4" "(127 :: 'a::len word) = mask 7" "(255 :: 'a::len word) = mask 8"
  by (simp_all add: mask_eq_exp_minus_1)

lemma word_and_exp: "(w :: 'a::len word) AND 2 ^ n = 0 \<longleftrightarrow> even (unat w div 2 ^ n)"
proof -
  have "bit w n = bit (unat w) n" by (simp add: bit_unsigned_iff)
  then show ?thesis by (simp add: and_exp_eq_0_iff_not_bit bit_nat_def)
qed

lemma byte_and_128: "(c :: byte) AND 128 = 0 \<longleftrightarrow> unat c < 128"
proof -
  have and_128: "(c AND 128 = 0) = even (unat c div 128)"
    using word_and_exp [of c 7] by simp
  have "unat c div 128 < 2" using unat_less [of c] by (simp add: less_mult_imp_div_less)
  then have "even (unat c div 128) \<longleftrightarrow> unat c div 128 = 0"
    by (cases "unat c div 128" rule: nat.exhaust) auto
  then show ?thesis by (simp add: and_128 div_eq_0_iff)
qed

lemma unat_byte_or_128: "unat ((b :: byte) OR 128) = unat b mod 128 + 128"
proof -
  have b127: "bit (127 :: byte) n = (n < 7)" for n by (simp add: mask_numerals bit_mask_iff) linarith
  have b128: "bit (128 :: byte) n = (n = 7)" for n
    using bit_exp_iff [of 7 n, where 'a = byte] by (auto simp: possible_bit_word)
  have "b OR 128 = (b AND 127) OR 128"
  proof (rule bit_eqI)
    fix n assume "possible_bit TYPE(byte) n"
    then have "n < 7 \<or> n = 7" by (simp add: possible_bit_word) linarith
    then show "bit (b OR 128) n = bit (b AND 127 OR 128) n"
      unfolding bit_or_iff bit_and_iff b127 b128 by blast
  qed
  then show ?thesis
    using unat_or_add [of "b AND 127" 7 128] by (simp add: unat_simps)
qed

lemma word_eq_0_unat: "w = 0 \<longleftrightarrow> unat w = 0"
  by (simp add: unat_eq_0)

subsection \<open>Encoders and decoders\<close>

text \<open>
  Several on-disk formats are an encoder, which turns a value into bytes, and a decoder, which
  takes the value off the front of a buffer and returns what follows it.  The law of the
  interface is the round trip with any bytes after the value.  What a client needs follows from
  it: no two values share an encoding, no encoding is a proper prefix of another one, and a
  sequence of values written back to back is read back.
\<close>

fun encode_seq :: "('a \<Rightarrow> byte list) \<Rightarrow> 'a list \<Rightarrow> byte list" where
  "encode_seq enc [] = []"
| "encode_seq enc (x # xs) = enc x @ encode_seq enc xs"

fun decode_seq ::
  "(byte list \<Rightarrow> ('a \<times> byte list) result) \<Rightarrow> nat \<Rightarrow> byte list \<Rightarrow> ('a list \<times> byte list) result"
where
  "decode_seq dec 0 buf = Inr ([], buf)"
| "decode_seq dec (Suc n) buf =
     rbind (dec buf) (\<lambda>(x, buf). rbind (decode_seq dec n buf) (\<lambda>(xs, buf). Inr (x # xs, buf)))"

locale codec =
  fixes enc :: "'a \<Rightarrow> byte list"
    and dec :: "byte list \<Rightarrow> ('a \<times> byte list) result"
    and dom_ok :: "'a \<Rightarrow> bool"
  assumes dec_enc: "dom_ok x \<Longrightarrow> dec (enc x @ rest) = Inr (x, rest)"
begin

lemma enc_prefix_free:
  assumes "dom_ok x" and "dom_ok y" and "enc x @ r = enc y @ s"
  shows "x = y \<and> r = s"
proof -
  have "Inr (x, r) = dec (enc y @ s)" unfolding assms(3) [symmetric] by (simp only: dec_enc [OF assms(1)])
  also have "\<dots> = Inr (y, s)" by (rule dec_enc [OF assms(2)])
  finally show ?thesis by simp
qed

lemma enc_inj: "dom_ok x \<Longrightarrow> dom_ok y \<Longrightarrow> enc x = enc y \<Longrightarrow> x = y"
  using enc_prefix_free [of x y "[]" "[]"] by simp

lemma dec_enc_seq:
  "list_all dom_ok xs \<Longrightarrow> decode_seq dec (length xs) (encode_seq enc xs @ rest) = Inr (xs, rest)"
  by (induction xs) (simp_all add: dec_enc)

end

end
