(* ===== verification/Git_Compat.thy ===== *)
theory Git_Compat
  imports Git_Prelude
begin

unbundle bit_operations_syntax

section \<open>Integer helpers of git-compat-util.h\<close>

text \<open>
  The overflow checks and the checked \<^verbatim>\<open>size_t\<close> arithmetic every component relies on, on the
  64-bit \<^verbatim>\<open>size_t\<close> and \<^verbatim>\<open>unsigned long\<close> of an LP64 platform, and the growth policy of
  \<^verbatim>\<open>ALLOC_GROW\<close>.  A left shift by 64 bits or more has no defined result in C:
  \<open>st_left_shift\<close> reports it as \<open>Undef_shift\<close>, because the overflow check in front of it
  lets such a shift through.
\<close>

definition MSB :: "u64 \<Rightarrow> nat \<Rightarrow> u64" where
  "MSB x bits = x AND push_bit (64 - bits) (- 1)"

definition unsigned_add_overflows :: "u64 \<Rightarrow> u64 \<Rightarrow> bool" where
  "unsigned_add_overflows a b \<longleftrightarrow> b > (- 1) - a"

definition unsigned_left_shift_overflows :: "u64 \<Rightarrow> nat \<Rightarrow> bool" where
  "unsigned_left_shift_overflows a shift \<longleftrightarrow> shift < 64 \<and> a > drop_bit shift (- 1)"

definition st_add :: "u64 \<Rightarrow> u64 \<Rightarrow> u64 result" where
  "st_add a b = (if unsigned_add_overflows a b then Inl Died else Inr (a + b))"

definition st_left_shift :: "u64 \<Rightarrow> nat \<Rightarrow> u64 result" where
  "st_left_shift a shift =
     (if unsigned_left_shift_overflows a shift then Inl Died
      else if 64 \<le> shift then Inl Undef_shift
      else Inr (push_bit shift a))"

definition alloc_nr :: "nat \<Rightarrow> nat" where
  "alloc_nr x = (x + 16) * 3 div 2"

text \<open>The new allocation of \<^verbatim>\<open>ALLOC_GROW(x, nr, alloc)\<close>; the reallocated array keeps its
  contents.\<close>

definition ALLOC_GROW :: "nat \<Rightarrow> nat \<Rightarrow> nat" where
  "ALLOC_GROW nr alloc =
     (if nr > alloc then (if alloc_nr alloc < nr then nr else alloc_nr alloc) else alloc)"

subsection \<open>Facts\<close>

lemma MSB7: "MSB val 7 = 0 \<longleftrightarrow> unat val < 2 ^ 57"
proof -
  have *: "MSB val 7 = push_bit 57 (drop_bit 57 val)"
    unfolding MSB_def by (rule bit_eqI) (auto simp: bit_simps)
  have "unat (MSB val 7) = unat val div 2 ^ 57 * 2 ^ 57"
    unfolding * unat_push_bit_mod unat_drop_bit_div using unat_less [of val] by simp
  then have "unat (MSB val 7) = 0 \<longleftrightarrow> unat val < 2 ^ 57" by (simp add: div_eq_0_iff)
  then show ?thesis by (simp add: unat_eq_0)
qed

lemma unat_max_word: "unat (- 1 :: u64) = 2 ^ 64 - 1"
  by (simp add: unsigned_minus_1_eq_mask mask_eq_exp_minus_1)

lemma unsigned_add_overflows_unat: "unsigned_add_overflows a b \<longleftrightarrow> 2 ^ 64 \<le> unat a + unat b"
proof -
  have "unat ((- 1) - a) = 2 ^ 64 - 1 - unat a"
    by (subst unat_sub) (simp_all add: unat_max_word)
  then show ?thesis
    using unat_less [of a] by (simp add: unsigned_add_overflows_def word_less_nat_alt) linarith
qed

lemma st_add_unat: "unat a + unat b < 2 ^ 64 \<Longrightarrow> st_add a b = Inr (a + b) \<and> unat (a + b) = unat a + unat b"
  by (simp add: st_add_def unsigned_add_overflows_unat unat_word_ariths)

lemma st_left_shift_unat:
  assumes "shift < 64" and "unat a * 2 ^ shift < 2 ^ 64"
  shows "st_left_shift a shift = Inr (push_bit shift a) \<and> unat (push_bit shift a) = unat a * 2 ^ shift"
proof -
  have "unat (drop_bit shift (- 1 :: u64)) = (2 ^ 64 - 1) div 2 ^ shift"
    unfolding unat_drop_bit_div unat_max_word by simp
  moreover have "unat a \<le> (2 ^ 64 - 1) div 2 ^ shift"
    using assms(2) by (simp add: less_eq_div_iff_mult_less_eq)
  ultimately have "\<not> unsigned_left_shift_overflows a shift"
    by (simp add: unsigned_left_shift_overflows_def word_less_nat_alt not_less)
  with assms show ?thesis by (simp add: st_left_shift_def unat_push_bit_mod)
qed

lemma ALLOC_GROW_ge: "nr \<le> ALLOC_GROW nr alloc" "alloc \<le> ALLOC_GROW nr alloc"
  by (auto simp: ALLOC_GROW_def alloc_nr_def)

end
