(* ===== verification/Git_Varint.thy ===== *)
theory Git_Varint
  imports Git_Compat
begin

unbundle bit_operations_syntax

section \<open>Variable-length integers: varint.c\<close>

text \<open>
  \<^verbatim>\<open>encode_varint\<close> and \<^verbatim>\<open>decode_varint\<close> store a 64-bit value in bytes of seven
  bits, most significant first; every continuation byte also adds one, so that no value has two
  encodings.  The index (version 4), the untracked cache and the offsets of \<^verbatim>\<open>OFS_DELTA\<close>
  objects use the format.

  The encoder fills a 16-byte array from its end: the model builds the bytes from the last one
  to the first one, and \<open>length_encode_varint\<close> shows that the array is large enough.  The
  decoder reads through an unchecked pointer: running off the end of the buffer is \<open>Oob\<close>.
\<close>

fun decode_varint_loop :: "u64 \<Rightarrow> byte \<Rightarrow> byte list \<Rightarrow> (u64 \<times> byte list) option result" where
  "decode_varint_loop val c buf =
     (if c AND 128 = 0 then Inr (Some (val, buf))
      else let val = val + 1 in
        if val = 0 \<or> MSB val 7 \<noteq> 0 then Inr None
        else (case buf of
                [] \<Rightarrow> Inl Oob
              | c # buf \<Rightarrow> decode_varint_loop (push_bit 7 val + (ucast c AND 127)) c buf))"

text \<open>On overflow the C function returns 0 and leaves the caller's pointer where it was.\<close>

definition decode_varint :: "byte list \<Rightarrow> (u64 \<times> byte list) result" where
  "decode_varint bufp =
     (case bufp of
        [] \<Rightarrow> Inl Oob
      | c # buf \<Rightarrow>
          rbind (decode_varint_loop (ucast c AND 127) c buf)
            (\<lambda>r. Inr (case r of None \<Rightarrow> (0, bufp) | Some (val, buf) \<Rightarrow> (val, buf))))"

function encode_varint_loop :: "u64 \<Rightarrow> byte list \<Rightarrow> byte list" where
  "encode_varint_loop val acc =
     (let v = drop_bit 7 val in
      if v = 0 then acc
      else encode_varint_loop (v - 1) ((128 OR ucast ((v - 1) AND 127)) # acc))"
  by pat_completeness auto
termination
proof (relation "measure (\<lambda>(v, _). unat v)", goal_cases)
  case (2 val acc v)
  then have "unat (v - 1) < unat v" by (simp add: measure_unat)
  also have "unat v \<le> unat val" using "2"(1) by (simp add: unat_drop_bit_div)
  finally show ?case by simp
qed simp

definition encode_varint :: "u64 \<Rightarrow> byte list" where
  "encode_varint val = encode_varint_loop val [ucast (val AND 127)]"

declare encode_varint_loop.simps [simp del] decode_varint_loop.simps [simp del]

subsection \<open>Bit operations of the two loops\<close>

lemma unat_drop7: "unat (drop_bit 7 (v::u64)) = unat v div 128"
  by (simp add: unat_drop_bit_div)

lemma unat_low7: "unat (ucast (v AND 127 :: u64) :: byte) = unat v mod 128"
  by (simp add: unat_simps)

lemma unat_low7_byte: "unat (ucast (c :: byte) AND 127 :: u64) = unat c mod 128"
  using unat_less [of c] by (simp add: unat_simps)

lemma unat_cont7: "unat (128 OR ucast (v AND 127 :: u64) :: byte) = 128 + unat v mod 128"
  using unat_or_add' [of "ucast (v AND 127 :: u64) :: byte" 7 128] by (simp add: unat_low7)

lemma drop7_eq_0: "drop_bit 7 (v::u64) = 0 \<longleftrightarrow> unat v < 128"
proof -
  have "drop_bit 7 v = 0 \<longleftrightarrow> unat v div 128 = 0" by (metis unat_drop7 unat_eq_0)
  then show ?thesis by (simp add: div_eq_0_iff)
qed

lemma unat_shift7_add:
  assumes "unat (v::u64) < 2 ^ 57"
  shows "unat (push_bit 7 v + (ucast (c :: byte) AND 127)) = unat v * 128 + unat c mod 128"
proof -
  have "unat (push_bit 7 v) = unat v * 128" using assms by (simp add: unat_push_bit_mod)
  then show ?thesis using assms by (simp add: unat_word_ariths unat_low7_byte)
qed

subsection \<open>Decoding what was encoded\<close>

lemma decode_encode_varint_loop:
  assumes "unat a mod 128 = unat val mod 128"
  shows "(case encode_varint_loop val (a # buf) of
            [] \<Rightarrow> Inl Oob
          | c # buf' \<Rightarrow> decode_varint_loop (ucast c AND 127) c buf') = decode_varint_loop val a buf"
  using assms
proof (induction val "a # buf" arbitrary: a buf rule: encode_varint_loop.induct)
  case (1 val)
  let ?v = "drop_bit 7 val"
  show ?case
  proof (cases "?v = 0")
    case True
    then have "unat val < 128" by (simp only: drop7_eq_0)
    then have "ucast a AND 127 = val" using "1.prems"
      by (simp add: word_unat_eq_iff unat_low7_byte)
    with True show ?thesis by (simp add: encode_varint_loop.simps [of val])
  next
    case False
    let ?b = "128 OR ucast ((?v - 1) AND 127) :: byte"
    have v57: "unat ?v < 2 ^ 57" using unat_less [of val] by (simp add: unat_drop7)
    have "push_bit 7 ?v + (ucast a AND 127) = val"
      unfolding word_unat_eq_iff unat_shift7_add [OF v57] by (simp add: unat_drop7 "1.prems")
    moreover have "?b AND 128 \<noteq> 0" by (simp add: byte_and_128 unat_cont7)
    ultimately have "decode_varint_loop (?v - 1) ?b (a # buf) = decode_varint_loop val a buf"
      using False v57 by (simp add: decode_varint_loop.simps [of "?v - 1"] MSB7)
    moreover have "unat ?b mod 128 = unat (?v - 1) mod 128" by (simp add: unat_cont7)
    ultimately show ?thesis
      using "1.hyps" [OF refl False] False by (simp add: encode_varint_loop.simps [of val] Let_def)
  qed
qed

lemma encode_varint_loop_append:
  "encode_varint_loop val (acc @ rest) = encode_varint_loop val acc @ rest"
proof (induction val acc rule: encode_varint_loop.induct)
  case (1 val acc)
  then show ?case
    by (simp add: encode_varint_loop.simps [of val "acc @ rest"] encode_varint_loop.simps [of val acc] Let_def)
qed

lemma decode_encode_varint: "decode_varint (encode_varint val @ rest) = Inr (val, rest)"
proof -
  let ?a = "ucast (val AND 127) :: byte"
  have a: "unat ?a = unat val mod 128" by (rule unat_low7)
  then have "?a AND 128 = 0" by (simp add: byte_and_128)
  then have *: "decode_varint_loop val ?a rest = Inr (Some (val, rest))"
    by (simp add: decode_varint_loop.simps)
  have enc: "encode_varint val @ rest = encode_varint_loop val (?a # rest)"
    using encode_varint_loop_append [of val "[?a]" rest] by (simp add: encode_varint_def)
  have "(case encode_varint_loop val (?a # rest) of
            [] \<Rightarrow> Inl Oob
          | c # buf' \<Rightarrow> decode_varint_loop (ucast c AND 127) c buf') = Inr (Some (val, rest))"
    using decode_encode_varint_loop [of ?a val rest] a unfolding * by simp
  then show ?thesis
    unfolding decode_varint_def enc by (cases "encode_varint_loop val (?a # rest)") simp_all
qed


subsection \<open>Encodings are unique and short\<close>

lemma encode_decode_varint_loop:
  assumes "decode_varint_loop val c buf = Inr (Some (v, rest))"
    and "unat c mod 128 = unat val mod 128"
  shows "encode_varint v @ rest = encode_varint_loop val (c # buf)"
  using assms
proof (induction val c buf rule: decode_varint_loop.induct)
  case (1 val c buf)
  show ?case
  proof (cases "c AND 128 = 0")
    case True
    then have "v = val" "rest = buf" using "1.prems"(1) by (simp_all add: decode_varint_loop.simps)
    moreover have "ucast (val AND 127) = c"
      unfolding word_unat_eq_iff unat_low7 using True "1.prems"(2) by (simp add: byte_and_128)
    ultimately show ?thesis
      using encode_varint_loop_append [of val "[c]" buf] by (simp add: encode_varint_def)
  next
    case False
    have ok: "val + 1 \<noteq> 0" "unat (val + 1) < 2 ^ 57"
      using False "1.prems"(1)
      by (auto simp: decode_varint_loop.simps [of val] Let_def MSB7 split: if_splits)
    then obtain c' buf' where buf: "buf = c' # buf'"
      using False "1.prems"(1)
      by (cases buf) (auto simp: decode_varint_loop.simps [of val] Let_def MSB7)
    let ?val = "push_bit 7 (val + 1) + (ucast c' AND 127)"
    have uv: "unat ?val = unat (val + 1) * 128 + unat c' mod 128"
      by (rule unat_shift7_add [OF ok(2)])
    have "decode_varint_loop ?val c' buf' = Inr (Some (v, rest))"
      using False ok "1.prems"(1) buf
      by (simp add: decode_varint_loop.simps [of val] Let_def MSB7)
    then have "encode_varint v @ rest = encode_varint_loop ?val (c' # buf')"
      using "1.IH" [OF False refl _ buf] ok MSB7 uv by simp
    moreover have "drop_bit 7 ?val = val + 1"
      unfolding word_unat_eq_iff unat_drop7 uv by simp
    moreover have "128 OR ucast (val AND 127) = c"
      unfolding word_unat_eq_iff unat_cont7
      using False "1.prems"(2) unat_less [of c] by (simp add: byte_and_128 mod_if [of "unat c"])
    ultimately show ?thesis
      using ok(1) buf by (simp add: encode_varint_loop.simps [of ?val] Let_def)
  qed
qed

lemma length_encode_varint_loop:
  "unat val < 128 ^ Suc k \<Longrightarrow> length (encode_varint_loop val acc) \<le> length acc + k"
proof (induction k arbitrary: val acc)
  case 0
  then show ?case by (simp add: encode_varint_loop.simps [of val] drop7_eq_0)
next
  case (Suc k)
  let ?v = "drop_bit 7 val"
  have "unat ?v < 128 ^ Suc k" using Suc.prems by (simp add: unat_drop7 div_less_iff_less_mult mult.commute)
  then have "unat (?v - 1) < 128 ^ Suc k" if "?v \<noteq> 0" using that by (simp add: unat_minus_one)
  then show ?case
    using Suc.IH [of "?v - 1" "(128 OR ucast (?v - 1 AND 127)) # acc"]
    by (simp add: encode_varint_loop.simps [of val] Let_def)
qed

lemma length_encode_varint: "length (encode_varint val) \<le> 10"
  using length_encode_varint_loop [of val 9 "[ucast (val AND 127)]"] unat_less [of val]
  by (simp add: encode_varint_def)

interpretation varint: codec encode_varint decode_varint "\<lambda>_. True"
  by unfold_locales (rule decode_encode_varint)

subsection \<open>Properties\<close>

text \<open>C10: for every 64-bit value and whatever bytes follow it, decoding its encoding gives the value
  back and leaves the pointer right behind the encoding, and the encoding fits the 16-byte array
  the encoder builds it in (it takes at most ten bytes).\<close>

theorem varint_roundtrip:
  "decode_varint (encode_varint val @ rest) = Inr (val, rest) \<and> length (encode_varint val) \<le> 10"
  using decode_encode_varint length_encode_varint by blast

text \<open>C11: a buffer the decoder accepts without reporting an overflow starts with exactly the bytes the
  encoder writes for the decoded value, so no value has a second encoding.\<close>

theorem varint_canonical:
  assumes "decode_varint buf = Inr (v, rest)" and "rest \<noteq> buf"
  shows "buf = encode_varint v @ rest"
proof -
  obtain c bs where buf: "buf = c # bs"
    using assms(1) by (cases buf) (simp_all add: decode_varint_def)
  then have "decode_varint_loop (ucast c AND 127) c bs = Inr (Some (v, rest))"
    using assms by (auto simp: decode_varint_def rbind_eq_Inr split: option.splits)
  then have "encode_varint v @ rest = encode_varint_loop (ucast c AND 127) (c # bs)"
    by (rule encode_decode_varint_loop) (simp add: unat_low7_byte)
  also have "\<dots> = buf"
    using buf by (simp add: encode_varint_loop.simps [of "ucast c AND 127"] drop7_eq_0 unat_low7_byte)
  finally show ?thesis by simp
qed

theorem varint_canonical_witness:
  "decode_varint [0x81, 0x2c, 7] = Inr (300, [7]) \<and> [7] \<noteq> [0x81, 0x2c, 7 :: byte] \<and>
   [0x81, 0x2c, 7] = encode_varint 300 @ [7]"
proof -
  have "decode_varint [0x81, 0x2c, 7] = Inr (300, [7])" by code_simp
  from this varint_canonical [OF this] show ?thesis by simp
qed

end
