(* ===== verification/Git_Patch_Delta.thy ===== *)
theory Git_Patch_Delta
  imports Git_Compat
begin

unbundle bit_operations_syntax

section \<open>Applying a delta: patch-delta.c and delta.h\<close>

text \<open>
  A delta rebuilds a target buffer from a source buffer.  It starts with the sizes of the two
  buffers, seven bits a byte, least significant first (\<^verbatim>\<open>get_delta_hdr_size\<close>), and goes on with
  instructions: a byte with its top bit set copies a range of the source, whose offset and size
  are given by those of seven following bytes the low bits of the instruction announce; a byte
  from 1 to 127 copies that many bytes out of the delta; 0 is reserved.

  \<open>patch_delta\<close> is the whole of \<^verbatim>\<open>patch_delta()\<close>: \<open>Inr None\<close> is the returned NULL.  The
  pointer \<^verbatim>\<open>data\<close> is the list of the bytes in front of \<^verbatim>\<open>top\<close>; the target is a buffer of
  \<open>cap\<close> bytes of which \<open>out\<close> has been written.
\<close>

fun get_delta_hdr_size_loop :: "nat \<Rightarrow> u64 \<Rightarrow> byte list \<Rightarrow> (u64 \<times> byte list) result" where
  "get_delta_hdr_size_loop i sz [] = Inl Oob"
| "get_delta_hdr_size_loop i sz (cmd # data) =
     rbind (st_left_shift (ucast cmd AND 0x7f) i) (\<lambda>s.
       let sz = sz OR s in
       if cmd AND 0x80 \<noteq> 0 \<and> data \<noteq> [] then get_delta_hdr_size_loop (i + 7) sz data
       else Inr (sz, data))"

definition get_delta_hdr_size :: "byte list \<Rightarrow> (u64 \<times> byte list) result" where
  "get_delta_hdr_size data = get_delta_hdr_size_loop 0 0 data"

definition DELTA_SIZE_MIN :: nat where
  "DELTA_SIZE_MIN = 4"

text \<open>\<^verbatim>\<open>PARSE_CP_PARAM(bit, var, shift)\<close>; \<open>None\<close> is the jump to \<^verbatim>\<open>bad_length\<close>.\<close>

definition PARSE_CP_PARAM ::
  "byte \<Rightarrow> byte \<Rightarrow> nat \<Rightarrow> u64 \<times> byte list \<Rightarrow> (u64 \<times> byte list) option"
where
  "PARSE_CP_PARAM cmd b shift = (\<lambda>(var, data).
     if cmd AND b \<noteq> 0 then
       (case data of
          [] \<Rightarrow> None
        | x # data \<Rightarrow> Some (var OR ucast (push_bit shift (ucast x :: u32)), data))
     else Some (var, data))"

definition parse_copy :: "byte \<Rightarrow> byte list \<Rightarrow> (u64 \<times> u64 \<times> byte list) option" where
  "parse_copy cmd data =
     Option.bind (PARSE_CP_PARAM cmd 0x01 0 (0, data)) (\<lambda>p.
     Option.bind (PARSE_CP_PARAM cmd 0x02 8 p) (\<lambda>p.
     Option.bind (PARSE_CP_PARAM cmd 0x04 16 p) (\<lambda>p.
     Option.bind (PARSE_CP_PARAM cmd 0x08 24 p) (\<lambda>(cp_off, data).
     Option.bind (PARSE_CP_PARAM cmd 0x10 0 (0, data)) (\<lambda>p.
     Option.bind (PARSE_CP_PARAM cmd 0x20 8 p) (\<lambda>p.
     Option.bind (PARSE_CP_PARAM cmd 0x40 16 p) (\<lambda>(cp_size, data).
       Some (cp_off, cp_size, data))))))))"

lemma PARSE_CP_PARAM_length:
  "PARSE_CP_PARAM cmd b sh (v, data) = Some (v', data') \<Longrightarrow> length data' \<le> length data"
  by (auto simp: PARSE_CP_PARAM_def split: if_splits list.splits)

lemma parse_copy_length:
  assumes "parse_copy cmd data = Some (off, n, data')"
  shows "length data' \<le> length data"
  using assms unfolding parse_copy_def
  by (auto simp: Option.bind_eq_Some_conv dest!: PARSE_CP_PARAM_length)

function patch_delta_loop ::
  "nat \<Rightarrow> byte list \<Rightarrow> byte list \<Rightarrow> u64 \<Rightarrow> byte list \<Rightarrow> byte list option result"
where
  "patch_delta_loop cap src [] sz out = Inr (if sz \<noteq> 0 then None else Some out)"
| "patch_delta_loop cap src (cmd # data) sz out =
     (if cmd AND 0x80 \<noteq> 0 then
        (case parse_copy cmd data of
           None \<Rightarrow> Inr None
         | Some (cp_off, cp_size, data) \<Rightarrow>
             let cp_size = (if cp_size = 0 then 0x10000 else cp_size) in
             if unsigned_add_overflows cp_off cp_size
                \<or> length src < unat (cp_off + cp_size) \<or> cp_size > sz
             then Inr None
             else rbind (slice src (unat cp_off) (unat cp_size)) (\<lambda>bs.
                  rbind (push_cap cap out bs) (\<lambda>out.
                  patch_delta_loop cap src data (sz - cp_size) out)))
      else if cmd \<noteq> 0 then
        (if ucast cmd > sz \<or> length data < unat cmd then Inr None
         else rbind (slice data 0 (unat cmd)) (\<lambda>bs.
              rbind (push_cap cap out bs) (\<lambda>out.
              patch_delta_loop cap src (drop (unat cmd) data) (sz - ucast cmd) out)))
      else Inr None)"
  by pat_completeness auto
termination
  by (relation "measure (\<lambda>(_, _, data, _, _). length data)") (auto dest: parse_copy_length)

text \<open>\<^verbatim>\<open>xmallocz(size)\<close> dies when \<^verbatim>\<open>size + 1\<close> overflows.\<close>

definition patch_delta :: "byte list \<Rightarrow> byte list \<Rightarrow> byte list option result" where
  "patch_delta src delta =
     (if length delta < DELTA_SIZE_MIN then Inr None
      else rbind (get_delta_hdr_size delta) (\<lambda>(sz, data).
        if unat sz \<noteq> length src then Inr None
        else rbind (get_delta_hdr_size data) (\<lambda>(sz, data).
          if unsigned_add_overflows sz 1 then Inl Died
          else patch_delta_loop (unat sz) src data sz [])))"

subsection \<open>Every delta is applied within bounds\<close>

lemma patch_delta_loop_safe:
  assumes "length out + unat sz = cap"
  shows "\<exists>r. patch_delta_loop cap src data sz out = Inr r \<and>
    (\<forall>dst. r = Some dst \<longrightarrow> length dst = cap)"
  using assms
proof (induction cap src data sz out rule: patch_delta_loop.induct)
  case (1 cap src sz out)
  then show ?case by (simp add: word_eq_0_unat)
next
  case (2 cap src cmd data sz out)
  show ?case
  proof (cases "cmd AND 0x80 \<noteq> 0")
    case copy: True
    show ?thesis
    proof (cases "parse_copy cmd data")
      case None
      with copy show ?thesis by simp
    next
      case (Some p)
      obtain off n0 data' where p: "p = (off, n0, data')" by (cases p) auto
      define n where "n = (if n0 = 0 then 0x10000 else n0)"
      show ?thesis
      proof (cases "unsigned_add_overflows off n \<or> length src < unat (off + n) \<or> n > sz")
        case True
        with copy Some p show ?thesis by (simp add: n_def Let_def)
      next
        case False
        then have sum: "unat (off + n) = unat off + unat n" and le: "unat n \<le> unat sz"
          by (simp_all add: unsigned_add_overflows_unat unat_word_ariths word_less_nat_alt)
        let ?bs = "take (unat n) (drop (unat off) src)"
        have slice: "slice src (unat off) (unat n) = Inr ?bs" using False sum by simp
        have len: "length ?bs = unat n" using False sum by auto
        have push: "push_cap cap out ?bs = Inr (out @ ?bs)"
          using len le "2.prems" by simp
        have "unat (sz - n) = unat sz - unat n"
          using le by (simp add: unat_sub word_le_nat_alt)
        then have "length (out @ ?bs) + unat (sz - n) = cap" using len le "2.prems" by simp
        with "2.IH"(1) [OF copy Some p [symmetric] refl n_def False slice push this]
        show ?thesis using copy Some p False slice push by (simp add: n_def Let_def)
      qed
    qed
  next
    case lit: False
    show ?thesis
    proof (cases "cmd = 0 \<or> ucast cmd > sz \<or> length data < unat cmd")
      case True
      with lit show ?thesis by auto
    next
      case False
      have uc: "unat (ucast cmd :: u64) = unat cmd" using unat_less [of cmd] by (simp add: unat_ucast_mod)
      then have le: "unat cmd \<le> unat sz" using False by (simp add: word_less_nat_alt)
      let ?bs = "take (unat cmd) data"
      have slice: "slice data 0 (unat cmd) = Inr ?bs" using False by simp
      have len: "length ?bs = unat cmd" using False by simp
      have push: "push_cap cap out ?bs = Inr (out @ ?bs)" using len le "2.prems" by simp
      have "unat (sz - ucast cmd) = unat sz - unat cmd"
        using le uc by (simp add: unat_sub word_le_nat_alt)
      then have "length (out @ ?bs) + unat (sz - ucast cmd) = cap" using len le "2.prems" by simp
      with "2.IH"(2) [OF lit _ _ slice push this]
      show ?thesis using lit False slice push by auto
    qed
  qed
qed

lemma get_delta_hdr_size_loop_suffix:
  "get_delta_hdr_size_loop i sz data = Inr (sz', rest) \<Longrightarrow> \<exists>hdr. data = hdr @ rest \<and> hdr \<noteq> []"
proof (induction i sz data rule: get_delta_hdr_size_loop.induct)
  case (2 i sz cmd data)
  obtain s where s: "st_left_shift (ucast cmd AND 0x7f) i = Inr s"
    using "2.prems" by (auto simp: rbind_eq_Inr)
  show ?case
  proof (cases "cmd AND 0x80 \<noteq> 0 \<and> data \<noteq> []")
    case True
    then obtain hdr where "data = hdr @ rest"
      using "2.IH" [OF s refl True] "2.prems" s by auto
    then show ?thesis by (intro exI [of _ "cmd # hdr"]) simp
  next
    case False
    then have "data = rest" using "2.prems" s by (auto simp: Let_def)
    then show ?thesis by (intro exI [of _ "[cmd]"]) simp
  qed
qed simp

lemma get_delta_hdr_size_not_Oob: "data \<noteq> [] \<Longrightarrow> get_delta_hdr_size_loop i sz data \<noteq> Inl Oob"
proof (induction i sz data rule: get_delta_hdr_size_loop.induct)
  case (2 i sz cmd data)
  show ?case
  proof (cases "st_left_shift (ucast cmd AND 0x7f) i")
    case (Inl f)
    then have "f \<noteq> Oob" by (auto simp: st_left_shift_def split: if_splits)
    with Inl show ?thesis by simp
  next
    case (Inr s)
    with "2.IH" [OF Inr refl] show ?thesis by (auto simp: Let_def)
  qed
qed simp

subsection \<open>What the instructions mean\<close>

text \<open>
  The abstract view of a delta is a list of instructions over the source.  \<open>encode_op\<close> writes
  an instruction with as few bytes as possible: only the non-zero bytes of an offset and a size
  are stored, and size \<open>0x10000\<close> is stored as 0.
\<close>

datatype delta_op = Copy nat nat | Insert "byte list"

fun apply_op :: "byte list \<Rightarrow> delta_op \<Rightarrow> byte list" where
  "apply_op src (Copy off n) = take n (drop off src)"
| "apply_op src (Insert bs) = bs"

fun op_ok :: "byte list \<Rightarrow> delta_op \<Rightarrow> bool" where
  "op_ok src (Copy off n) = (off < 2 ^ 32 \<and> 0 < n \<and> n \<le> 0x10000 \<and> off + n \<le> length src)"
| "op_ok src (Insert bs) = (0 < length bs \<and> length bs < 128)"

definition byte_of :: "nat \<Rightarrow> nat \<Rightarrow> byte" where
  "byte_of k n = of_nat (n div 2 ^ (8 * k))"

definition param :: "byte \<Rightarrow> byte list" where
  "param b = (if b \<noteq> 0 then [b] else [])"

definition flag :: "byte \<Rightarrow> byte \<Rightarrow> byte" where
  "flag m b = (if b \<noteq> 0 then m else 0)"

fun encode_op :: "delta_op \<Rightarrow> byte list" where
  "encode_op (Copy off n) =
     (0x80 OR flag 0x01 (byte_of 0 off) OR flag 0x02 (byte_of 1 off)
           OR flag 0x04 (byte_of 2 off) OR flag 0x08 (byte_of 3 off)
           OR flag 0x10 (byte_of 0 n) OR flag 0x20 (byte_of 1 n))
     # param (byte_of 0 off) @ param (byte_of 1 off) @ param (byte_of 2 off) @ param (byte_of 3 off)
     @ param (byte_of 0 n) @ param (byte_of 1 n)"
| "encode_op (Insert bs) = of_nat (length bs) # bs"

lemma PARSE_CP_PARAM_param:
  assumes "cmd AND m \<noteq> 0 \<longleftrightarrow> b \<noteq> 0"
  shows "PARSE_CP_PARAM cmd m sh (v, param b @ rest) =
    Some (v OR ucast (push_bit sh (ucast b :: u32)), rest)"
  using assms by (auto simp: PARSE_CP_PARAM_def param_def)

lemma PARSE_CP_PARAM_none: "cmd AND m = 0 \<Longrightarrow> PARSE_CP_PARAM cmd m sh p = Some p"
  by (simp add: PARSE_CP_PARAM_def split: prod.splits)

lemma flags_test:
  fixes a b c d e f :: byte
  defines "cmd \<equiv> 0x80 OR flag 0x01 a OR flag 0x02 b OR flag 0x04 c OR flag 0x08 d OR flag 0x10 e OR flag 0x20 f"
  shows "cmd AND 0x80 \<noteq> 0" "cmd AND 0x01 \<noteq> 0 \<longleftrightarrow> a \<noteq> 0" "cmd AND 0x02 \<noteq> 0 \<longleftrightarrow> b \<noteq> 0"
    "cmd AND 0x04 \<noteq> 0 \<longleftrightarrow> c \<noteq> 0" "cmd AND 0x08 \<noteq> 0 \<longleftrightarrow> d \<noteq> 0" "cmd AND 0x10 \<noteq> 0 \<longleftrightarrow> e \<noteq> 0"
    "cmd AND 0x20 \<noteq> 0 \<longleftrightarrow> f \<noteq> 0" "cmd AND 0x40 = 0"
  unfolding cmd_def flag_def
  by (cases "a = 0"; cases "b = 0"; cases "c = 0"; cases "d = 0"; cases "e = 0"; cases "f = 0"; simp)+

lemma unat_byte_of: "unat (byte_of k n) = n div 2 ^ (8 * k) mod 256"
  by (simp add: byte_of_def unat_of_nat)

lemma unat_param:
  assumes "sh \<le> 24"
  shows "unat (ucast (push_bit sh (ucast (b :: byte) :: u32)) :: u64) = unat b * 2 ^ sh"
proof -
  have "unat b * 2 ^ sh < 2 ^ 8 * 2 ^ 24"
    using unat_less [of b] power_increasing [OF assms, of "2 :: nat"] by (intro mult_less_le_imp_less) simp_all
  then show ?thesis using unat_less [of b] by (simp add: unat_ucast_mod unat_push_bit_mod)
qed

lemma unat_or_param:
  assumes "unat v < 2 ^ sh" and "sh \<le> 24"
  shows "unat ((v :: u64) OR ucast (push_bit sh (ucast (b :: byte) :: u32))) = unat v + unat b * 2 ^ sh"
  using unat_or_add [of v sh "ucast (push_bit sh (ucast b :: u32))"] assms by (simp add: unat_param)


abbreviation param_word :: "nat \<Rightarrow> byte \<Rightarrow> u64" where
  "param_word sh b \<equiv> ucast (push_bit sh (ucast b :: u32))"

lemma unat_params4:
  "unat (param_word 0 (byte_of 0 off) OR param_word 8 (byte_of 1 off)) = off mod 65536" (is ?two)
  "off < 2 ^ 32 \<Longrightarrow> unat (param_word 0 (byte_of 0 off) OR param_word 8 (byte_of 1 off)
     OR param_word 16 (byte_of 2 off) OR param_word 24 (byte_of 3 off)) = off" (is "_ \<Longrightarrow> ?four")
proof -
  note ub = unat_byte_of
  have b0: "unat (param_word 0 (byte_of 0 off)) = off mod 256"
    by (simp only: unat_param ub) simp
  have b1: "unat (param_word 0 (byte_of 0 off) OR param_word 8 (byte_of 1 off))
    = off mod 256 + off div 256 mod 256 * 256"
    by (subst unat_or_param) (simp_all add: b0 ub del: push_bit_0_id)
  also have "\<dots> = off mod 65536"
    using mod_mult2_eq [of off 256 256] by simp
  finally show ?two .
  have b2: "unat (param_word 0 (byte_of 0 off) OR param_word 8 (byte_of 1 off) OR param_word 16 (byte_of 2 off))
    = off mod 65536 + off div 65536 mod 256 * 65536"
    by (subst or.assoc [symmetric], subst unat_or_param) (simp_all add: \<open>?two\<close> ub del: push_bit_0_id One_nat_def)
  have "off mod 65536 + off div 65536 mod 256 * 65536 = off mod 16777216"
    using mod_mult2_eq [of off 65536 256] by simp
  note b2' = b2 [unfolded this]
  assume "off < 2 ^ 32"
  then have "off div 16777216 < 256" by (simp add: less_mult_imp_div_less)
  then show ?four
    by (subst or.assoc [symmetric], subst or.assoc [symmetric], subst unat_or_param)
      (simp_all add: or.assoc b2' ub del: push_bit_0_id One_nat_def)
qed

lemma parse_copy_encode:
  assumes "off < 2 ^ 32"
  obtains cmd ps cp_off cp_size where "encode_op (Copy off n) = cmd # ps" and "cmd AND 0x80 \<noteq> 0"
    and "parse_copy cmd (ps @ rest) = Some (cp_off, cp_size, rest)"
    and "unat cp_off = off" and "unat cp_size = n mod 0x10000"
proof -
  let ?b = byte_of
  let ?cmd = "0x80 OR flag 0x01 (?b 0 off) OR flag 0x02 (?b 1 off) OR flag 0x04 (?b 2 off)
    OR flag 0x08 (?b 3 off) OR flag 0x10 (?b 0 n) OR flag 0x20 (?b 1 n)"
  let ?ps = "param (?b 0 off) @ param (?b 1 off) @ param (?b 2 off) @ param (?b 3 off)
    @ param (?b 0 n) @ param (?b 1 n)"
  let ?p = param_word
  note ft = flags_test [where a = "?b 0 off" and b = "?b 1 off" and c = "?b 2 off" and d = "?b 3 off"
      and e = "?b 0 n" and f = "?b 1 n"]
  have "parse_copy ?cmd (?ps @ rest) = Some ((((0 OR ?p 0 (?b 0 off)) OR ?p 8 (?b 1 off)) OR ?p 16 (?b 2 off))
      OR ?p 24 (?b 3 off), (0 OR ?p 0 (?b 0 n)) OR ?p 8 (?b 1 n), rest)"
    unfolding parse_copy_def append_assoc
    by (simp only: PARSE_CP_PARAM_param ft PARSE_CP_PARAM_none Option.bind.bind_lunit prod.case)
  then have "parse_copy ?cmd (?ps @ rest) = Some (?p 0 (?b 0 off) OR ?p 8 (?b 1 off) OR ?p 16 (?b 2 off)
      OR ?p 24 (?b 3 off), ?p 0 (?b 0 n) OR ?p 8 (?b 1 n), rest)"
    by (simp only: or.assoc or_numerals or.left_neutral)
  then show ?thesis
    using that [of ?cmd ?ps] ft(1) unat_params4(2) [OF assms] unat_params4(1) [of n]
    by (simp only: encode_op.simps) simp
qed

lemma patch_delta_loop_op:
  assumes ok: "op_ok src op" and len: "length src < 2 ^ 64"
    and fits: "length (apply_op src op) \<le> unat sz" and cap: "length out + unat sz = cap"
  shows "patch_delta_loop cap src (encode_op op @ data) sz out =
    patch_delta_loop cap src data (sz - of_nat (length (apply_op src op))) (out @ apply_op src op)"
proof (cases op)
  case (Copy off n)
  then have n: "off < 2 ^ 32" "0 < n" "n \<le> 0x10000" "off + n \<le> length src" using ok by simp_all
  obtain cmd ps o' n' where e: "encode_op (Copy off n) = cmd # ps" "cmd AND 0x80 \<noteq> 0"
    and p: "parse_copy cmd (ps @ data) = Some (o', n', data)"
    and u: "unat o' = off" "unat n' = n mod 0x10000"
    by (rule parse_copy_encode [OF n(1)])
  define cp where "cp = (if n' = 0 then 0x10000 else n')"
  have ucp: "unat cp = n"
    using u(2) n(2,3) by (cases "n = 0x10000") (auto simp: cp_def word_eq_0_unat)
  have ap: "length (apply_op src op) = n" using Copy n(4) by simp
  have "\<not> unsigned_add_overflows o' cp"
    using n(4) len by (simp add: unsigned_add_overflows_unat u ucp)
  moreover have "unat (o' + cp) = off + n" using n(4) len by (simp add: unat_word_ariths u ucp)
  moreover have "\<not> cp > sz" using fits ap by (simp add: word_less_nat_alt ucp)
  moreover have "of_nat n = cp" by (simp add: ucp [symmetric])
  ultimately show ?thesis
    using e p n(4) fits cap ap unfolding Copy
    by (simp add: Let_def cp_def [symmetric] u ucp del: encode_op.simps)
next
  case (Insert bs)
  let ?c = "of_nat (length bs) :: byte"
  have uc: "unat ?c = length bs" using ok Insert by (simp add: unat_of_nat)
  then have "?c AND 0x80 = 0" using ok Insert by (simp add: byte_and_128)
  moreover have "?c \<noteq> 0" using uc ok Insert by (auto simp: word_eq_0_unat)
  moreover have "ucast ?c = (of_nat (length bs) :: u64)"
    using ok Insert by (simp add: word_unat_eq_iff unat_ucast_mod unat_of_nat uc)
  moreover have "\<not> of_nat (length bs) > sz"
    using fits Insert unat_less [of sz] by (simp add: word_less_nat_alt unat_of_nat)
  ultimately show ?thesis
    using uc fits cap unfolding Insert by simp
qed

lemma patch_delta_loop_ops:
  assumes "list_all (op_ok src) ops" and "length src < 2 ^ 64"
    and "length (concat (map (apply_op src) ops)) = unat sz" and "length out + unat sz = cap"
  shows "patch_delta_loop cap src (concat (map encode_op ops)) sz out =
    Inr (Some (out @ concat (map (apply_op src) ops)))"
  using assms
proof (induction ops arbitrary: sz out)
  case Nil
  then show ?case by (simp add: word_eq_0_unat)
next
  case (Cons op ops)
  let ?n = "length (apply_op src op)"
  have n: "?n \<le> unat sz" using Cons.prems(3) by simp
  then have "unat (sz - of_nat ?n) = unat sz - ?n"
    using unat_less [of sz] by (simp add: unat_sub word_le_nat_alt unat_of_nat)
  then show ?case
    using Cons.prems n patch_delta_loop_op [of src op sz out cap "concat (map encode_op ops)"]
      Cons.IH [of "sz - of_nat ?n" "out @ apply_op src op"]
    by simp
qed

subsection \<open>The size header\<close>

text \<open>The two loops of \<^verbatim>\<open>create_delta()\<close> that store a size write exactly these bytes.\<close>

fun encode_hdr_size :: "nat \<Rightarrow> byte list" where
  "encode_hdr_size l = (if 0x80 \<le> l then (of_nat l OR 0x80) # encode_hdr_size (l div 128) else [of_nat l])"

declare encode_hdr_size.simps [simp del]

lemma encode_hdr_size_not_Nil: "encode_hdr_size l \<noteq> []"
  by (simp add: encode_hdr_size.simps [of l])

lemma get_delta_hdr_size_loop_encode:
  assumes "unat sz < 2 ^ i" and "l * 2 ^ i < 2 ^ 64" and "i < 64"
  shows "\<exists>sz'. get_delta_hdr_size_loop i sz (encode_hdr_size l @ rest) = Inr (sz', rest) \<and>
    unat sz' = unat sz + l * 2 ^ i"
  using assms
proof (induction l arbitrary: i sz rule: encode_hdr_size.induct)
  case (1 l)
  define c where "c = ((if 0x80 \<le> l then of_nat l OR 0x80 else of_nat l) :: byte)"
  define s where "s = (ucast c AND 0x7f :: u64)"
  have uc: "unat c = (if 0x80 \<le> l then l mod 128 + 128 else l)"
    by (simp add: c_def unat_byte_or_128 unat_of_nat mod_mod_cancel)
  then have top: "c AND 0x80 \<noteq> 0 \<longleftrightarrow> 0x80 \<le> l" by (auto simp: byte_and_128)
  have low: "unat s = l mod 128"
    using unat_less [of c] by (simp add: s_def unat_simps uc)
  have "l mod 128 * 2 ^ i \<le> l * 2 ^ i" by simp
  then have "l mod 128 * 2 ^ i < 2 ^ 64" using "1.prems"(2) by (rule le_less_trans)
  then have sh: "st_left_shift s i = Inr (push_bit i s)" "unat (push_bit i s) = l mod 128 * 2 ^ i"
    using st_left_shift_unat [of i s] "1.prems"(3) low by simp_all
  have or: "unat (sz OR push_bit i s) = unat sz + l mod 128 * 2 ^ i"
    using unat_or_add [of sz i "push_bit i s"] "1.prems"(1) sh(2) by simp
  show ?case
  proof (cases "0x80 \<le> l")
    case False
    then have "encode_hdr_size l = [c]" by (simp add: encode_hdr_size.simps [of l] c_def)
    with False sh or top show ?thesis by (simp add: s_def [symmetric])
  next
    case True
    then have enc: "encode_hdr_size l = c # encode_hdr_size (l div 128)"
      by (simp add: encode_hdr_size.simps [of l] c_def)
    have "128 * 2 ^ i < (2 ^ 64 :: nat)" using True "1.prems"(2) by (meson le_less_trans mult_le_mono1)
    then have i: "i < 57" using power_strict_increasing_iff [of "2::nat" "7 + i" 64] by (simp add: power_add)
    have "l div 128 * 2 ^ (i + 7) \<le> l * 2 ^ i" by (simp add: power_add)
    then have "l div 128 * 2 ^ (i + 7) < 2 ^ 64" using "1.prems"(2) by linarith
    moreover have "unat (sz OR push_bit i s) < 2 ^ (i + 7)"
    proof -
      have "l mod 128 * 2 ^ i \<le> 127 * 2 ^ i" by simp
      then have "unat sz + l mod 128 * 2 ^ i < 128 * 2 ^ i" using "1.prems"(1) by linarith
      then show ?thesis by (simp add: or power_add mult.commute)
    qed
    ultimately obtain sz' where "get_delta_hdr_size_loop (i + 7) (sz OR push_bit i s) (encode_hdr_size (l div 128) @ rest)
        = Inr (sz', rest)" and "unat sz' = unat sz + l mod 128 * 2 ^ i + l div 128 * 2 ^ (i + 7)"
      using "1.IH" [OF True, of "sz OR push_bit i s" "i + 7"] i or by auto
    moreover have "l mod 128 * 2 ^ i + l div 128 * 2 ^ (i + 7) = l * 2 ^ i"
    proof -
      have "l mod 128 * 2 ^ i + l div 128 * 2 ^ (i + 7) = (l div 128 * 128 + l mod 128) * 2 ^ i"
        by (simp only: power_add add_mult_distrib) simp
      then show ?thesis by (simp only: div_mult_mod_eq)
    qed
    ultimately show ?thesis using sh top True unfolding enc by (simp add: s_def [symmetric] encode_hdr_size_not_Nil)
  qed
qed

lemma get_delta_hdr_size_encode:
  assumes "l < 2 ^ 64"
  shows "get_delta_hdr_size (encode_hdr_size l @ rest) = Inr (of_nat l, rest)"
proof -
  obtain sz where sz: "get_delta_hdr_size_loop 0 0 (encode_hdr_size l @ rest) = Inr (sz, rest)"
    and "unat sz = l"
    using get_delta_hdr_size_loop_encode [of 0 0 l rest] assms by auto
  then have "sz = of_nat l" by auto
  with sz show ?thesis by (simp add: get_delta_hdr_size_def)
qed

interpretation hdr_size: codec "\<lambda>l. encode_hdr_size (unat l)" get_delta_hdr_size "\<lambda>_. True"
proof unfold_locales
  fix x :: u64 and rest
  show "get_delta_hdr_size (encode_hdr_size (unat x) @ rest) = Inr (x, rest)"
    using get_delta_hdr_size_encode [of "unat x" rest] unat_less [of x] by simp
qed

lemma patch_delta_ops:
  assumes "list_all (op_ok src) ops" and "length src < 2 ^ 64" and "trg = concat (map (apply_op src) ops)"
    and "length trg < 2 ^ 64 - 1"
    and "delta = encode_hdr_size (length src) @ encode_hdr_size (length trg) @ concat (map encode_op ops)"
    and "4 \<le> length delta"
  shows "patch_delta src delta = Inr (Some trg)"
proof -
  have ut: "unat (of_nat (length trg) :: u64) = length trg" using assms(4) by (simp add: unat_of_nat)
  have us: "unat (of_nat (length src) :: u64) = length src" using assms(2) by (simp add: unat_of_nat)
  have "get_delta_hdr_size delta
      = Inr (of_nat (length src), encode_hdr_size (length trg) @ concat (map encode_op ops))"
    using assms(2,5) get_delta_hdr_size_encode by simp
  moreover have "get_delta_hdr_size (encode_hdr_size (length trg) @ concat (map encode_op ops))
      = Inr (of_nat (length trg), concat (map encode_op ops))"
    by (rule get_delta_hdr_size_encode) (use assms(4) in simp)
  moreover have "\<not> unsigned_add_overflows (of_nat (length trg)) 1"
    using assms(4) ut by (simp add: unsigned_add_overflows_unat)
  moreover have "patch_delta_loop (length trg) src (concat (map encode_op ops)) (of_nat (length trg)) []
      = Inr (Some trg)"
    using patch_delta_loop_ops [OF assms(1,2), of "of_nat (length trg)" "[]" "length trg"] ut assms(3) by simp
  ultimately show ?thesis using assms(6) us ut by (simp add: patch_delta_def DELTA_SIZE_MIN_def)
qed

subsection \<open>Properties\<close>

text \<open>C2: whatever bytes a delta consists of, applying it reads the source and the delta and writes the
  target within bounds: a fault can come from the two size headers only (a size too large for
  64 bits, a shift by 64 bits or more, a target size of \<open>2^64 - 1\<close>, or a second header that is
  missing because the first one runs up to the end of the delta), and a rebuilt target has exactly
  the size the delta announces.\<close>

theorem patch_delta_bounds:
  "(case patch_delta src delta of
      Inl f \<Rightarrow> f = Died \<or> f = Undef_shift \<or> f = Oob \<and> (\<exists>sz. get_delta_hdr_size delta = Inr (sz, []))
    | Inr None \<Rightarrow> True
    | Inr (Some dst) \<Rightarrow>
        (\<exists>sz1 data1 sz2 data2. get_delta_hdr_size delta = Inr (sz1, data1) \<and> unat sz1 = length src \<and>
           get_delta_hdr_size data1 = Inr (sz2, data2) \<and> length dst = unat sz2))"
proof (cases "length delta < DELTA_SIZE_MIN")
  case True
  then show ?thesis by (simp add: patch_delta_def)
next
  case False
  then have ne: "delta \<noteq> []" by (auto simp: DELTA_SIZE_MIN_def)
  have fault: "f \<in> {Died, Undef_shift, Oob}" if "get_delta_hdr_size_loop i sz data = Inl f" for f i sz data
    using that
    by (induction i sz data rule: get_delta_hdr_size_loop.induct)
      (auto simp: st_left_shift_def Let_def split: if_splits)
  show ?thesis
  proof (cases "get_delta_hdr_size delta")
    case (Inl f)
    then have "f = Died \<or> f = Undef_shift"
      using fault [of 0 0 delta f] get_delta_hdr_size_not_Oob [OF ne, of 0 0] by (auto simp: get_delta_hdr_size_def)
    with False Inl show ?thesis by (auto simp: patch_delta_def)
  next
    case h1: (Inr r)
    obtain sz1 data1 where r: "r = (sz1, data1)" by (cases r)
    show ?thesis
    proof (cases "get_delta_hdr_size data1")
      case (Inl f)
      then have "f = Died \<or> f = Undef_shift \<or> f = Oob \<and> data1 = []"
        using fault [of 0 0 data1 f] get_delta_hdr_size_not_Oob [of data1 0 0] by (auto simp: get_delta_hdr_size_def)
      with False Inl h1 r show ?thesis by (auto simp: patch_delta_def)
    next
      case (Inr r2)
      obtain sz2 data2 where "r2 = (sz2, data2)" by (cases r2)
      with Inr False h1 r patch_delta_loop_safe [of "[]" sz2 "unat sz2" src data2] show ?thesis
        by (auto simp: patch_delta_def split: option.splits)
    qed
  qed
qed

text \<open>C6: the header reader gives back every size the delta writer stores, but its shift check lets shifts
  by 64 bits or more through: a header of eleven bytes reaches a shift whose result C leaves
  undefined, and a first header that fills the whole delta makes \<^verbatim>\<open>patch_delta()\<close> read the second
  size one byte behind the delta.\<close>

theorem delta_hdr_size_limits:
  "get_delta_hdr_size (encode_hdr_size (unat l) @ rest) = Inr (l, rest) \<and>
   get_delta_hdr_size (replicate 10 0x80 @ [1]) = Inl Undef_shift \<and>
   patch_delta [] [0x80, 0x80, 0x80, 0x80] = Inl Oob"
proof (intro conjI)
  show "get_delta_hdr_size (encode_hdr_size (unat l) @ rest) = Inr (l, rest)"
    by (rule hdr_size.dec_enc) simp
  show "get_delta_hdr_size (replicate 10 0x80 @ [1]) = Inl Undef_shift" by code_simp
  show "patch_delta [] [0x80, 0x80, 0x80, 0x80] = Inl Oob" by code_simp
qed

end
