(* ===== verification/Git_Rabin.thy ===== *)
theory Git_Rabin
  imports Git_Prelude
begin

unbundle bit_operations_syntax

section \<open>The Rabin fingerprint of diff-delta.c\<close>

text \<open>
  The delta generator looks blocks of 16 bytes up by a fingerprint of 31 bits that it updates one
  byte at a time: \<open>rabin_step\<close> shifts a byte in, with the table \<^verbatim>\<open>T\<close> reducing the bits that
  leave the top, and xor with the table \<^verbatim>\<open>U\<close> takes the oldest byte of the window out.  A table
  lookup is bounds-checked; \<open>rabin_ok\<close> is the bound on the fingerprint that keeps it in range.
\<close>

definition RABIN_SHIFT :: nat where
  "RABIN_SHIFT = 23"

definition RABIN_WINDOW :: nat where
  "RABIN_WINDOW = 16"

definition rabin_T :: "u32 list" where
  "rabin_T =
    [0x00000000, 0xab59b4d1, 0x56b369a2, 0xfdeadd73, 0x063f6795, 0xad66d344,
     0x508c0e37, 0xfbd5bae6, 0x0c7ecf2a, 0xa7277bfb, 0x5acda688, 0xf1941259,
     0x0a41a8bf, 0xa1181c6e, 0x5cf2c11d, 0xf7ab75cc, 0x18fd9e54, 0xb3a42a85,
     0x4e4ef7f6, 0xe5174327, 0x1ec2f9c1, 0xb59b4d10, 0x48719063, 0xe32824b2,
     0x1483517e, 0xbfdae5af, 0x423038dc, 0xe9698c0d, 0x12bc36eb, 0xb9e5823a,
     0x440f5f49, 0xef56eb98, 0x31fb3ca8, 0x9aa28879, 0x6748550a, 0xcc11e1db,
     0x37c45b3d, 0x9c9defec, 0x6177329f, 0xca2e864e, 0x3d85f382, 0x96dc4753,
     0x6b369a20, 0xc06f2ef1, 0x3bba9417, 0x90e320c6, 0x6d09fdb5, 0xc6504964,
     0x2906a2fc, 0x825f162d, 0x7fb5cb5e, 0xd4ec7f8f, 0x2f39c569, 0x846071b8,
     0x798aaccb, 0xd2d3181a, 0x25786dd6, 0x8e21d907, 0x73cb0474, 0xd892b0a5,
     0x23470a43, 0x881ebe92, 0x75f463e1, 0xdeadd730, 0x63f67950, 0xc8afcd81,
     0x354510f2, 0x9e1ca423, 0x65c91ec5, 0xce90aa14, 0x337a7767, 0x9823c3b6,
     0x6f88b67a, 0xc4d102ab, 0x393bdfd8, 0x92626b09, 0x69b7d1ef, 0xc2ee653e,
     0x3f04b84d, 0x945d0c9c, 0x7b0be704, 0xd05253d5, 0x2db88ea6, 0x86e13a77,
     0x7d348091, 0xd66d3440, 0x2b87e933, 0x80de5de2, 0x7775282e, 0xdc2c9cff,
     0x21c6418c, 0x8a9ff55d, 0x714a4fbb, 0xda13fb6a, 0x27f92619, 0x8ca092c8,
     0x520d45f8, 0xf954f129, 0x04be2c5a, 0xafe7988b, 0x5432226d, 0xff6b96bc,
     0x02814bcf, 0xa9d8ff1e, 0x5e738ad2, 0xf52a3e03, 0x08c0e370, 0xa39957a1,
     0x584ced47, 0xf3155996, 0x0eff84e5, 0xa5a63034, 0x4af0dbac, 0xe1a96f7d,
     0x1c43b20e, 0xb71a06df, 0x4ccfbc39, 0xe79608e8, 0x1a7cd59b, 0xb125614a,
     0x468e1486, 0xedd7a057, 0x103d7d24, 0xbb64c9f5, 0x40b17313, 0xebe8c7c2,
     0x16021ab1, 0xbd5bae60, 0x6cb54671, 0xc7ecf2a0, 0x3a062fd3, 0x915f9b02,
     0x6a8a21e4, 0xc1d39535, 0x3c394846, 0x9760fc97, 0x60cb895b, 0xcb923d8a,
     0x3678e0f9, 0x9d215428, 0x66f4eece, 0xcdad5a1f, 0x3047876c, 0x9b1e33bd,
     0x7448d825, 0xdf116cf4, 0x22fbb187, 0x89a20556, 0x7277bfb0, 0xd92e0b61,
     0x24c4d612, 0x8f9d62c3, 0x7836170f, 0xd36fa3de, 0x2e857ead, 0x85dcca7c,
     0x7e09709a, 0xd550c44b, 0x28ba1938, 0x83e3ade9, 0x5d4e7ad9, 0xf617ce08,
     0x0bfd137b, 0xa0a4a7aa, 0x5b711d4c, 0xf028a99d, 0x0dc274ee, 0xa69bc03f,
     0x5130b5f3, 0xfa690122, 0x0783dc51, 0xacda6880, 0x570fd266, 0xfc5666b7,
     0x01bcbbc4, 0xaae50f15, 0x45b3e48d, 0xeeea505c, 0x13008d2f, 0xb85939fe,
     0x438c8318, 0xe8d537c9, 0x153feaba, 0xbe665e6b, 0x49cd2ba7, 0xe2949f76,
     0x1f7e4205, 0xb427f6d4, 0x4ff24c32, 0xe4abf8e3, 0x19412590, 0xb2189141,
     0x0f433f21, 0xa41a8bf0, 0x59f05683, 0xf2a9e252, 0x097c58b4, 0xa225ec65,
     0x5fcf3116, 0xf49685c7, 0x033df00b, 0xa86444da, 0x558e99a9, 0xfed72d78,
     0x0502979e, 0xae5b234f, 0x53b1fe3c, 0xf8e84aed, 0x17bea175, 0xbce715a4,
     0x410dc8d7, 0xea547c06, 0x1181c6e0, 0xbad87231, 0x4732af42, 0xec6b1b93,
     0x1bc06e5f, 0xb099da8e, 0x4d7307fd, 0xe62ab32c, 0x1dff09ca, 0xb6a6bd1b,
     0x4b4c6068, 0xe015d4b9, 0x3eb80389, 0x95e1b758, 0x680b6a2b, 0xc352defa,
     0x3887641c, 0x93ded0cd, 0x6e340dbe, 0xc56db96f, 0x32c6cca3, 0x999f7872,
     0x6475a501, 0xcf2c11d0, 0x34f9ab36, 0x9fa01fe7, 0x624ac294, 0xc9137645,
     0x26459ddd, 0x8d1c290c, 0x70f6f47f, 0xdbaf40ae, 0x207afa48, 0x8b234e99,
     0x76c993ea, 0xdd90273b, 0x2a3b52f7, 0x8162e626, 0x7c883b55, 0xd7d18f84,
     0x2c043562, 0x875d81b3, 0x7ab75cc0, 0xd1eee811]"

definition rabin_U :: "u32 list" where
  "rabin_U =
    [0x00000000, 0x7eb5200d, 0x5633f4cb, 0x2886d4c6, 0x073e5d47, 0x798b7d4a,
     0x510da98c, 0x2fb88981, 0x0e7cba8e, 0x70c99a83, 0x584f4e45, 0x26fa6e48,
     0x0942e7c9, 0x77f7c7c4, 0x5f711302, 0x21c4330f, 0x1cf9751c, 0x624c5511,
     0x4aca81d7, 0x347fa1da, 0x1bc7285b, 0x65720856, 0x4df4dc90, 0x3341fc9d,
     0x1285cf92, 0x6c30ef9f, 0x44b63b59, 0x3a031b54, 0x15bb92d5, 0x6b0eb2d8,
     0x4388661e, 0x3d3d4613, 0x39f2ea38, 0x4747ca35, 0x6fc11ef3, 0x11743efe,
     0x3eccb77f, 0x40799772, 0x68ff43b4, 0x164a63b9, 0x378e50b6, 0x493b70bb,
     0x61bda47d, 0x1f088470, 0x30b00df1, 0x4e052dfc, 0x6683f93a, 0x1836d937,
     0x250b9f24, 0x5bbebf29, 0x73386bef, 0x0d8d4be2, 0x2235c263, 0x5c80e26e,
     0x740636a8, 0x0ab316a5, 0x2b7725aa, 0x55c205a7, 0x7d44d161, 0x03f1f16c,
     0x2c4978ed, 0x52fc58e0, 0x7a7a8c26, 0x04cfac2b, 0x73e5d470, 0x0d50f47d,
     0x25d620bb, 0x5b6300b6, 0x74db8937, 0x0a6ea93a, 0x22e87dfc, 0x5c5d5df1,
     0x7d996efe, 0x032c4ef3, 0x2baa9a35, 0x551fba38, 0x7aa733b9, 0x041213b4,
     0x2c94c772, 0x5221e77f, 0x6f1ca16c, 0x11a98161, 0x392f55a7, 0x479a75aa,
     0x6822fc2b, 0x1697dc26, 0x3e1108e0, 0x40a428ed, 0x61601be2, 0x1fd53bef,
     0x3753ef29, 0x49e6cf24, 0x665e46a5, 0x18eb66a8, 0x306db26e, 0x4ed89263,
     0x4a173e48, 0x34a21e45, 0x1c24ca83, 0x6291ea8e, 0x4d29630f, 0x339c4302,
     0x1b1a97c4, 0x65afb7c9, 0x446b84c6, 0x3adea4cb, 0x1258700d, 0x6ced5000,
     0x4355d981, 0x3de0f98c, 0x15662d4a, 0x6bd30d47, 0x56ee4b54, 0x285b6b59,
     0x00ddbf9f, 0x7e689f92, 0x51d01613, 0x2f65361e, 0x07e3e2d8, 0x7956c2d5,
     0x5892f1da, 0x2627d1d7, 0x0ea10511, 0x7014251c, 0x5facac9d, 0x21198c90,
     0x099f5856, 0x772a785b, 0x4c921c31, 0x32273c3c, 0x1aa1e8fa, 0x6414c8f7,
     0x4bac4176, 0x3519617b, 0x1d9fb5bd, 0x632a95b0, 0x42eea6bf, 0x3c5b86b2,
     0x14dd5274, 0x6a687279, 0x45d0fbf8, 0x3b65dbf5, 0x13e30f33, 0x6d562f3e,
     0x506b692d, 0x2ede4920, 0x06589de6, 0x78edbdeb, 0x5755346a, 0x29e01467,
     0x0166c0a1, 0x7fd3e0ac, 0x5e17d3a3, 0x20a2f3ae, 0x08242768, 0x76910765,
     0x59298ee4, 0x279caee9, 0x0f1a7a2f, 0x71af5a22, 0x7560f609, 0x0bd5d604,
     0x235302c2, 0x5de622cf, 0x725eab4e, 0x0ceb8b43, 0x246d5f85, 0x5ad87f88,
     0x7b1c4c87, 0x05a96c8a, 0x2d2fb84c, 0x539a9841, 0x7c2211c0, 0x029731cd,
     0x2a11e50b, 0x54a4c506, 0x69998315, 0x172ca318, 0x3faa77de, 0x411f57d3,
     0x6ea7de52, 0x1012fe5f, 0x38942a99, 0x46210a94, 0x67e5399b, 0x19501996,
     0x31d6cd50, 0x4f63ed5d, 0x60db64dc, 0x1e6e44d1, 0x36e89017, 0x485db01a,
     0x3f77c841, 0x41c2e84c, 0x69443c8a, 0x17f11c87, 0x38499506, 0x46fcb50b,
     0x6e7a61cd, 0x10cf41c0, 0x310b72cf, 0x4fbe52c2, 0x67388604, 0x198da609,
     0x36352f88, 0x48800f85, 0x6006db43, 0x1eb3fb4e, 0x238ebd5d, 0x5d3b9d50,
     0x75bd4996, 0x0b08699b, 0x24b0e01a, 0x5a05c017, 0x728314d1, 0x0c3634dc,
     0x2df207d3, 0x534727de, 0x7bc1f318, 0x0574d315, 0x2acc5a94, 0x54797a99,
     0x7cffae5f, 0x024a8e52, 0x06852279, 0x78300274, 0x50b6d6b2, 0x2e03f6bf,
     0x01bb7f3e, 0x7f0e5f33, 0x57888bf5, 0x293dabf8, 0x08f998f7, 0x764cb8fa,
     0x5eca6c3c, 0x207f4c31, 0x0fc7c5b0, 0x7172e5bd, 0x59f4317b, 0x27411176,
     0x1a7c5765, 0x64c97768, 0x4c4fa3ae, 0x32fa83a3, 0x1d420a22, 0x63f72a2f,
     0x4b71fee9, 0x35c4dee4, 0x1400edeb, 0x6ab5cde6, 0x42331920, 0x3c86392d,
     0x133eb0ac, 0x6d8b90a1, 0x450d4467, 0x3bb8646a]"

definition rabin_step :: "u32 \<Rightarrow> byte \<Rightarrow> u32 result" where
  "rabin_step val c =
     rbind (rd rabin_T (unat (drop_bit RABIN_SHIFT val))) (\<lambda>t.
       Inr ((push_bit 8 val OR ucast c) XOR t))"

definition rabin_out :: "u32 \<Rightarrow> byte \<Rightarrow> u32" where
  "rabin_out val c = val XOR rabin_U ! unat c"

fun rabin_window :: "u32 \<Rightarrow> byte list \<Rightarrow> u32 result" where
  "rabin_window val [] = Inr val"
| "rabin_window val (c # cs) = rbind (rabin_step val c) (\<lambda>val. rabin_window val cs)"

definition rabin_ok :: "u32 \<Rightarrow> bool" where
  "rabin_ok val \<longleftrightarrow> unat val < 2 ^ 31"

subsection \<open>The tables are linear\<close>

text \<open>Each table is determined by its entries at the powers of two: entry \<open>i\<close> is the exclusive or
  of those at the bits of \<open>i\<close>.\<close>

fun table_of :: "u32 list \<Rightarrow> u32 list" where
  "table_of [] = [0]"
| "table_of (t # ts) = concat (map (\<lambda>x. [x, x XOR t]) (table_of ts))"

fun lin :: "u32 list \<Rightarrow> nat \<Rightarrow> u32" where
  "lin [] i = 0"
| "lin (t # ts) i = lin ts (i div 2) XOR (if odd i then t else 0)"

definition basis_T :: "u32 list" where
  "basis_T = [0xab59b4d1, 0x56b369a2, 0x063f6795, 0x0c7ecf2a, 0x18fd9e54, 0x31fb3ca8, 0x63f67950, 0x6cb54671]"

definition basis_U :: "u32 list" where
  "basis_U = [0x7eb5200d, 0x5633f4cb, 0x073e5d47, 0x0e7cba8e, 0x1cf9751c, 0x39f2ea38, 0x73e5d470, 0x4c921c31]"

lemma length_basis [simp]: "length basis_T = 8" "length basis_U = 8"
  by (simp_all add: basis_T_def basis_U_def)

lemma rabin_T_table: "rabin_T = table_of basis_T"
  by (simp add: rabin_T_def basis_T_def)

lemma rabin_U_table: "rabin_U = table_of basis_U"
  by (simp add: rabin_U_def basis_U_def)

lemma length_table_of: "length (table_of ts) = 2 ^ length ts"
  by (induction ts) (simp_all add: length_concat comp_def sum_list_triv)

lemma nth_concat_pairs:
  "i < 2 * length xs \<Longrightarrow>
   concat (map (\<lambda>x. [x, f x]) xs) ! i = (if even i then xs ! (i div 2) else f (xs ! (i div 2)))"
proof (induction xs arbitrary: i)
  case (Cons x xs)
  show ?case
  proof (cases "i < 2")
    case True
    then have "i = 0 \<or> i = 1" by auto
    then show ?thesis by auto
  next
    case False
    then obtain j where i: "i = j + 2" by (metis add.commute le_add_diff_inverse not_less)
    with Cons.IH [of j] Cons.prems show ?thesis by simp
  qed
qed simp

lemma nth_table_of: "i < 2 ^ length ts \<Longrightarrow> table_of ts ! i = lin ts i"
proof (induction ts arbitrary: i)
  case (Cons t ts)
  then have "i div 2 < 2 ^ length ts" by simp
  with Cons show ?case by (simp add: nth_concat_pairs length_table_of)
qed simp

lemma lin_xor: "lin ts (a XOR b) = lin ts a XOR lin ts b"
proof (induction ts arbitrary: a b)
  case (Cons t ts)
  have "(a XOR b) div 2 = a div 2 XOR b div 2"
    using drop_bit_xor [of 1 a b] by (simp add: drop_bit_eq_div)
  moreover have "odd (a XOR b) \<longleftrightarrow> odd a \<noteq> odd b" by (simp add: even_xor_iff)
  ultimately show ?case by (simp add: Cons.IH xor.assoc xor.left_commute)
qed simp

lemma lin_of_additive:
  assumes "\<And>a b :: nat. f (a XOR b) = f a XOR f b" and "i < 2 ^ n"
  shows "f i = lin (map (\<lambda>k. f (2 ^ k)) [0..<n]) i"
  using assms
proof (induction n arbitrary: f i)
  case 0
  have "f 0 = f 0 XOR f 0" using 0(1) [of 0 0] by simp
  with 0 show ?case by simp
next
  case (Suc n)
  let ?g = "\<lambda>x. f (2 * x)"
  have add: "?g (a XOR b) = ?g a XOR ?g b" for a b
    using Suc.prems(1) [of "2 * a" "2 * b"] push_bit_xor [of 1 a b] by (simp add: push_bit_eq_mult mult.commute)
  have "2 * (i div 2) AND of_bool (odd i) = 0" by (cases "odd i") (simp_all add: and_one_eq)
  then have "i = 2 * (i div 2) XOR of_bool (odd i)"
    by (simp only: disjunctive_add_eq_xor [symmetric]) (cases "odd i"; simp)
  then have "f i = f (2 * (i div 2) XOR of_bool (odd i))" by (rule arg_cong)
  then have "f i = ?g (i div 2) XOR f (of_bool (odd i))" by (simp only: Suc.prems(1))
  moreover have "f 0 = 0" using Suc.prems(1) [of 0 0] by simp
  moreover have "?g (i div 2) = lin (map (\<lambda>k. ?g (2 ^ k)) [0..<n]) (i div 2)"
    using Suc.prems(2) by (intro Suc.IH add) simp
  moreover have "map (\<lambda>k. f (2 ^ k)) [0..<Suc n] = f 1 # map (\<lambda>k. ?g (2 ^ k)) [0..<n]"
    by (simp add: upt_conv_Cons map_Suc_upt [symmetric] comp_def del: upt_Suc)
  ultimately show ?case by simp
qed

subsection \<open>A step keeps the fingerprint in range\<close>

lemma rabin_ok_bit: "rabin_ok val \<longleftrightarrow> \<not> bit val 31"
proof -
  have "unat val div 2 ^ 31 < 2" using unat_less [of val] by (simp add: less_mult_imp_div_less)
  then have "odd (unat val div 2 ^ 31) \<longleftrightarrow> unat val div 2 ^ 31 \<noteq> 0"
    by (cases "unat val div 2 ^ 31" rule: nat.exhaust) auto
  moreover have "bit val 31 = odd (unat val div 2 ^ 31)"
    using word_and_exp [of val 31] and_exp_eq_0_iff_not_bit [of val 31] by simp
  ultimately show ?thesis by (simp add: rabin_ok_def div_eq_0_iff)
qed

definition rstep :: "u32 \<Rightarrow> byte \<Rightarrow> u32" where
  "rstep val c = push_bit 8 val XOR ucast c XOR lin basis_T (unat (drop_bit 23 val))"

lemma bit_lin: "bit (lin ts i) n \<Longrightarrow> \<exists>t \<in> set ts. bit t n"
  by (induction ts arbitrary: i) (auto simp: bit_xor_iff split: if_splits)

lemma bit_lin_basis_T: "bit (lin basis_T i) 31 \<longleftrightarrow> odd i"
proof -
  have "lin basis_T i = lin (tl basis_T) (i div 2) XOR (if odd i then hd basis_T else 0)"
    by (simp add: basis_T_def)
  moreover have "\<forall>t \<in> set (tl basis_T). \<not> bit t 31" and "bit (hd basis_T) 31"
    by (simp_all add: basis_T_def)
  ultimately show ?thesis using bit_lin [of "tl basis_T" "i div 2" 31] by (auto simp: bit_xor_iff)
qed

lemma length_rabin_tables [simp]: "length rabin_T = 256" "length rabin_U = 256"
  by (simp_all add: rabin_T_table rabin_U_table length_table_of)

lemma nth_rabin_T: "i < 256 \<Longrightarrow> rabin_T ! i = lin basis_T i"
  by (simp add: rabin_T_table nth_table_of)

lemma nth_rabin_U: "i < 256 \<Longrightarrow> rabin_U ! i = lin basis_U i"
  by (simp add: rabin_U_table nth_table_of)

lemma rabin_step_ok:
  assumes "rabin_ok val"
  shows "rabin_step val c = Inr (rstep val c)" and "rabin_ok (rstep val c)"
proof -
  have "unat (drop_bit 23 val) < 256"
    using assms by (simp add: rabin_ok_def unat_drop_bit_div less_mult_imp_div_less)
  moreover have "push_bit 8 val AND ucast c = 0"
    by (rule bit_eqI) (auto simp: bit_simps dest: bit_imp_le_length)
  ultimately show "rabin_step val c = Inr (rstep val c)"
    by (simp add: rabin_step_def rstep_def RABIN_SHIFT_def disjunctive_xor_eq_or [symmetric] xor.assoc nth_rabin_T)
  have "bit (push_bit 8 val) 31 \<longleftrightarrow> bit val 23" by (simp add: bit_push_bit_iff)
  moreover have "odd (unat (drop_bit 23 val)) \<longleftrightarrow> bit val 23"
    using word_and_exp [of val 23] and_exp_eq_0_iff_not_bit [of val 23] by (simp add: unat_drop_bit_div)
  moreover have "\<not> bit (ucast c :: u32) 31" by (simp add: bit_simps) (auto dest: bit_imp_le_length)
  ultimately show "rabin_ok (rstep val c)"
    by (simp add: rabin_ok_bit rstep_def bit_xor_iff bit_lin_basis_T)
qed

lemma rabin_window_ok:
  "rabin_ok val \<Longrightarrow> rabin_window val cs = Inr (foldl rstep val cs) \<and> rabin_ok (foldl rstep val cs)"
  by (induction cs arbitrary: val) (simp_all add: rabin_step_ok)

lemma rabin_ok_0 [simp]: "rabin_ok 0"
  by (simp add: rabin_ok_def)

lemma rabin_out_ok: "rabin_ok val \<Longrightarrow> rabin_ok (rabin_out val c)"
proof -
  assume "rabin_ok val"
  moreover have "\<forall>t \<in> set basis_U. \<not> bit t 31" by (simp add: basis_U_def)
  then have "\<not> bit (lin basis_U i) 31" for i using bit_lin [of basis_U i 31] by blast
  moreover have "unat c < 256" using unat_less [of c] by simp
  ultimately show ?thesis by (simp add: rabin_ok_bit rabin_out_def bit_xor_iff nth_rabin_U)
qed

subsection \<open>The rolling update is the fingerprint of the window\<close>

lemma rstep_xor: "rstep (v XOR w) (c XOR d) = rstep v c XOR rstep w d"
  by (simp add: rstep_def unsigned_xor_eq lin_xor xor.assoc xor.left_commute)

lemma foldl_rstep_xor:
  "length cs = length ds \<Longrightarrow>
   foldl rstep (v XOR w) (map2 (XOR) cs ds) = foldl rstep v cs XOR foldl rstep w ds"
  by (induction cs ds arbitrary: v w rule: list_induct2) (simp_all add: rstep_xor)

definition shifted :: "nat \<Rightarrow> u32" where
  "shifted b = foldl rstep 0 (of_nat b # replicate 15 0)"

lemma map2_xor_zeros: "map2 (XOR) cs (replicate (length cs) (0 :: byte)) = cs"
  by (induction cs) simp_all

lemma of_nat_xor_byte: "(of_nat (a XOR b) :: byte) = of_nat a XOR of_nat b"
  by (rule bit_eqI) (simp add: bit_simps)

lemma shifted_xor: "shifted (a XOR b) = shifted a XOR shifted b"
proof -
  have "map2 (XOR) (replicate 15 (0 :: byte)) (replicate 15 0) = replicate 15 0"
    using map2_xor_zeros [of "replicate 15 0"] by simp
  then show ?thesis
    using foldl_rstep_xor [of "of_nat a # replicate 15 0" "of_nat b # replicate 15 0" 0 0]
    by (simp add: shifted_def of_nat_xor_byte)
qed

lemma rstep_numeral:
  "rstep (numeral n) 0
    = push_bit 8 (numeral n) XOR lin basis_T (unat (drop_bit 23 (numeral n) :: u32))"
  by (simp add: rstep_def)

lemma rstep_zero: "rstep 0 b = ucast b"
  by (simp add: rstep_def basis_T_def)

lemma rstep_one: "rstep 1 0 = 256"
  by (simp add: rstep_def basis_T_def)

lemma shifted_basis: "map (\<lambda>k. shifted (2 ^ k)) [0..<8] = basis_U"
proof -
  have "replicate 15 (0 :: byte) = [0, 0, 0, 0, 0, 0, 0, 0, 0, 0, 0, 0, 0, 0, 0]"
    by (simp add: numeral_eq_Suc)
  then show ?thesis
    by (simp add: shifted_def basis_U_def upt_rec rstep_zero rstep_numeral rstep_one basis_T_def)
qed

lemma foldl_rstep_drop_first:
  assumes "length w = 15"
  shows "rabin_out (foldl rstep 0 (b # w)) b = foldl rstep 0 w"
proof -
  have ub: "unat b < 256" using unat_less [of b] by simp
  have "rabin_U ! unat b = shifted (unat b)"
    using lin_of_additive [of shifted "unat b" 8] shifted_xor ub by (simp add: shifted_basis nth_rabin_U)
  then have "rabin_U ! unat b = foldl rstep 0 (b # replicate (length w) 0)"
    by (simp add: shifted_def assms)
  then have "rabin_out (foldl rstep 0 (b # w)) b
      = foldl rstep (0 XOR 0) (map2 (XOR) (b # w) (b # replicate (length w) 0))"
    by (subst foldl_rstep_xor) (simp_all add: rabin_out_def)
  also have "\<dots> = foldl rstep (rstep 0 0) w" by (simp add: map2_xor_zeros)
  also have "rstep 0 0 = 0" by (simp add: rstep_def basis_T_def)
  finally show ?thesis .
qed

subsection \<open>Properties\<close>

text \<open>C5: moving the window of 16 bytes forward by one byte (xor with \<^verbatim>\<open>U\<close>, then a step with
  \<^verbatim>\<open>T\<close>), as the delta generator does at every byte of the target, gives exactly the fingerprint
  that hashing the new window from scratch gives, so positions of the target and indexed blocks of
  the source with equal contents have equal fingerprints.  No step leaves the range of the
  256-entry tables.\<close>

theorem rabin_rolling:
  assumes "length w = 15" and "rabin_window 0 (b # w) = Inr val"
  shows "\<exists>val'. rabin_step (rabin_out val b) c = Inr val' \<and> rabin_window 0 (w @ [c]) = Inr val'"
proof -
  have val: "val = foldl rstep 0 (b # w)"
    using assms(2) rabin_window_ok [of 0 "b # w"] by (simp del: rabin_window.simps)
  then have out: "rabin_out val b = foldl rstep 0 w" by (simp only: foldl_rstep_drop_first [OF assms(1)])
  then have "rabin_step (rabin_out val b) c = Inr (foldl rstep 0 (w @ [c]))"
    using rabin_step_ok(1) [of "foldl rstep 0 w" c] rabin_window_ok [of 0 w] by simp
  then show ?thesis using rabin_window_ok [of 0 "w @ [c]"] by simp
qed

theorem rabin_rolling_witness:
  "length [2, 3, 4, 5, 6, 7, 8, 9, 10, 11, 12, 13, 14, 15, 16 :: byte] = 15 \<and>
   (\<exists>val. rabin_window 0 [1, 2, 3, 4, 5, 6, 7, 8, 9, 10, 11, 12, 13, 14, 15, 16] = Inr val \<and>
    (\<exists>val'. rabin_step (rabin_out val 1) 17 = Inr val' \<and>
      rabin_window 0 [2, 3, 4, 5, 6, 7, 8, 9, 10, 11, 12, 13, 14, 15, 16, 17] = Inr val'))"
proof -
  let ?w = "[2, 3, 4, 5, 6, 7, 8, 9, 10, 11, 12, 13, 14, 15, 16] :: byte list"
  obtain val where val: "rabin_window 0 (1 # ?w) = Inr val"
    using rabin_window_ok [OF rabin_ok_0, of "1 # ?w"] by blast
  have "length ?w = 15" by simp
  from rabin_rolling [OF this val, of 17] val show ?thesis by (simp del: rabin_window.simps)
qed

end
