(* ===== verification/Git_Delta_Index.thy ===== *)
theory Git_Delta_Index
  imports Git_Rabin "HOL-Library.Sublist"
begin

unbundle bit_operations_syntax

section \<open>The index of a source buffer: diff-delta.c\<close>

text \<open>
  \<open>create_delta_index\<close> files the blocks of 16 bytes of a source buffer under their fingerprints.
  It builds a chained hash table, culls the chains that grew too long and packs the table into
  one array.

  The argument \<open>alloc\<close> says which sizes \<^verbatim>\<open>malloc\<close> and \<^verbatim>\<open>calloc\<close> can serve.  A pointer into the
  buffer is an index.  A chain of \<^verbatim>\<open>struct unpacked_index_entry\<close> is the list of its entries, head
  first; \<^verbatim>\<open>entry[-1]\<close>, the entry made last, is the head of the chain it was put on.
\<close>

record index_entry =
  ie_ptr :: nat
  ie_val :: u32

record delta_index =
  di_memsize :: nat
  di_src_buf :: "byte list"
  di_src_size :: nat
  di_hash_mask :: u32
  di_hash :: "nat list"
  di_entries :: "index_entry list"

definition HASH_LIMIT :: nat where
  "HASH_LIMIT = 64"

subsection \<open>Building the index\<close>

text \<open>\<^verbatim>\<open>for (i = 4; (1u << i) < hsize; i++);\<close>\<close>

function hsize_shift :: "nat \<Rightarrow> nat \<Rightarrow> nat result" where
  "hsize_shift i hsize =
     (if 32 \<le> i then Inl Undef_shift
      else if 2 ^ i < hsize then hsize_shift (i + 1) hsize
      else Inr i)"
  by auto
termination
  by (relation "measure (\<lambda>(i, _). 32 - i)") auto

declare hsize_shift.simps [simp del]

text \<open>The loop that populates the index, with \<open>k\<close> blocks left: \<^verbatim>\<open>data\<close> points at block \<open>k\<close>.\<close>

record population =
  po_chains :: "index_entry list list"
  po_hash_count :: "nat list"
  po_last :: "nat option"
  po_prev_val :: u32
  po_entries :: nat

definition add_block :: "u32 \<Rightarrow> byte list \<Rightarrow> nat \<Rightarrow> population \<Rightarrow> population result" where
  "add_block hmask buffer data p =
     rbind (slice buffer (data + 1) RABIN_WINDOW) (\<lambda>window.
     rbind (rabin_window 0 window) (\<lambda>v.
       if v = po_prev_val p then
         (case po_last p of
            None \<Rightarrow> Inl Oob
          | Some i \<Rightarrow>
              rbind (rd (po_chains p) i) (\<lambda>chain.
                case chain of
                  [] \<Rightarrow> Inl Oob
                | e # es \<Rightarrow>
                    Inr (p\<lparr>po_chains := (po_chains p)[i := e\<lparr>ie_ptr := data + RABIN_WINDOW\<rparr> # es],
                           po_entries := po_entries p - 1\<rparr>)))
       else
         let i = unat (v AND hmask) in
         rbind (rd (po_chains p) i) (\<lambda>chain.
         rbind (wr (po_chains p) i (\<lparr>ie_ptr = data + RABIN_WINDOW, ie_val = v\<rparr> # chain)) (\<lambda>bs'.
         rbind (rd (po_hash_count p) i) (\<lambda>c.
         rbind (wr (po_hash_count p) i (c + 1)) (\<lambda>count'.
           Inr (p\<lparr>po_chains := bs', po_hash_count := count', po_last := Some i, po_prev_val := v\<rparr>)))))))"

fun populate :: "u32 \<Rightarrow> byte list \<Rightarrow> nat \<Rightarrow> population \<Rightarrow> population result" where
  "populate hmask buffer 0 p = Inr p"
| "populate hmask buffer (Suc k) p =
     rbind (add_block hmask buffer (k * RABIN_WINDOW) p) (populate hmask buffer k)"

text \<open>Culling a chain: \<open>cull_skip\<close> is the inner loop, which steps over entries while the accumulator
  is positive, and \<open>cull_chain\<close> the outer one.  Following the \<^verbatim>\<open>next\<close> of a NULL entry is a fault.\<close>

fun cull_skip :: "int \<Rightarrow> index_entry list \<Rightarrow> (int \<times> index_entry list) result" where
  "cull_skip acc [] = Inl Oob"
| "cull_skip acc (e # es) =
     (let acc = acc - int HASH_LIMIT in
      if acc > 0 then cull_skip acc es else Inr (acc, es))"

lemma cull_skip_length: "cull_skip acc es = Inr (acc', es') \<Longrightarrow> length es' < length es"
  by (induction acc es rule: cull_skip.induct) (auto simp: Let_def split: if_splits)

function cull_chain :: "nat \<Rightarrow> int \<Rightarrow> index_entry list \<Rightarrow> index_entry list result" where
  "cull_chain count acc [] = Inl Oob"
| "cull_chain count acc (e # es) =
     (let acc = acc + (int count - int HASH_LIMIT) in
      if acc > 0 then
        rbind (cull_skip acc (e # es)) (\<lambda>(acc, entry).
          case entry of
            [] \<Rightarrow> Inl Oob
          | _ # rest \<Rightarrow>
              if rest = [] then Inr [e]
              else rbind (cull_chain count acc rest) (\<lambda>es. Inr (e # es)))
      else if es = [] then Inr [e]
      else rbind (cull_chain count acc es) (\<lambda>es. Inr (e # es)))"
  by pat_completeness auto
termination
  by (relation "measure (\<lambda>(_, _, es). length es)") (auto dest: cull_skip_length simp del: cull_skip.simps)

fun cull_chains ::
  "index_entry list list \<Rightarrow> nat list \<Rightarrow> nat \<Rightarrow> (index_entry list list \<times> nat) result"
where
  "cull_chains (chain # bs) (count # counts) n =
     (if count \<le> HASH_LIMIT then
        rbind (cull_chains bs counts n) (\<lambda>(bs, n). Inr (chain # bs, n))
      else
        rbind (cull_chain count 0 chain) (\<lambda>chain.
        rbind (cull_chains bs counts (n - (count - HASH_LIMIT))) (\<lambda>(bs, n).
          Inr (chain # bs, n))))"
| "cull_chains bs counts n = Inr (bs, n)"

text \<open>The packed form: where each chain starts, with the sentinel, and the entries one after the
  other.\<close>

fun pack_hash :: "nat \<Rightarrow> index_entry list list \<Rightarrow> nat list" where
  "pack_hash packed_entry [] = [packed_entry]"
| "pack_hash packed_entry (chain # bs) =
     packed_entry # pack_hash (packed_entry + length chain) bs"

definition create_delta_index :: "(nat \<Rightarrow> bool) \<Rightarrow> byte list \<Rightarrow> delta_index option result" where
  "create_delta_index alloc buf =
     (let bufsize = length buf in
      if bufsize = 0 then Inr None
      else
        let n = (if bufsize \<ge> 0xffffffff then 0xfffffffe div RABIN_WINDOW
                 else (bufsize - 1) div RABIN_WINDOW) in
        rbind (hsize_shift 4 (n div 4)) (\<lambda>i.
          let hsize = 2 ^ i; hmask = of_nat (hsize - 1) in
          if \<not> alloc (8 * hsize + 24 * n) then Inr None
          else if \<not> alloc (4 * hsize) then Inr None
          else
            rbind (populate hmask buf n
                     \<lparr>po_chains = replicate hsize [], po_hash_count = replicate hsize 0,
                      po_last = None, po_prev_val = NOT 0, po_entries = n\<rparr>) (\<lambda>p.
            rbind (cull_chains (po_chains p) (po_hash_count p) (po_entries p)) (\<lambda>(bs, n).
              let memsize = 32 + 8 * (hsize + 1) + 16 * n in
              if \<not> alloc memsize then Inr None
              else if length (concat bs) \<noteq> n then Inl Assert_failed
              else Inr (Some \<lparr>di_memsize = memsize, di_src_buf = buf, di_src_size = bufsize,
                              di_hash_mask = hmask, di_hash = pack_hash 0 bs,
                              di_entries = concat bs\<rparr>)))))"

definition sizeof_delta_index :: "delta_index option \<Rightarrow> nat" where
  "sizeof_delta_index index = (case index of Some index \<Rightarrow> di_memsize index | None \<Rightarrow> 0)"

subsection \<open>The index is well formed\<close>

lemma hsize_shift_ok:
  assumes "hsize \<le> 2 ^ 31" and "i \<le> 31"
  shows "\<exists>j. hsize_shift i hsize = Inr j \<and> i \<le> j \<and> j \<le> 31"
  using assms
proof (induction i hsize rule: hsize_shift.induct)
  case (1 i hsize)
  show ?case
  proof (cases "2 ^ i < hsize")
    case True
    then have "i \<noteq> 31" using "1.prems"(1) by auto
    then obtain j where "hsize_shift (i + 1) hsize = Inr j" "i + 1 \<le> j" "j \<le> 31"
      using "1.IH" True "1.prems" by auto
    with True "1.prems" show ?thesis by (auto simp: hsize_shift.simps [of i])
  next
    case False
    with "1.prems" show ?thesis by (auto simp: hsize_shift.simps [of i])
  qed
qed

definition entry_ok :: "u32 \<Rightarrow> byte list \<Rightarrow> nat \<Rightarrow> index_entry \<Rightarrow> bool" where
  "entry_ok hmask buf i e \<longleftrightarrow>
     RABIN_WINDOW \<le> ie_ptr e \<and> ie_ptr e < length buf \<and> ie_ptr e < 2 ^ 32 \<and>
     rabin_window 0 (take RABIN_WINDOW (drop (ie_ptr e + 1 - RABIN_WINDOW) buf)) = Inr (ie_val e) \<and>
     unat (ie_val e AND hmask) = i"

definition chains_ok :: "u32 \<Rightarrow> byte list \<Rightarrow> index_entry list list \<Rightarrow> bool" where
  "chains_ok hmask buf bs \<longleftrightarrow>
     length bs = unat hmask + 1 \<and> (\<forall>i < length bs. \<forall>e \<in> set (bs ! i). entry_ok hmask buf i e)"

definition pop_ok :: "u32 \<Rightarrow> byte list \<Rightarrow> nat \<Rightarrow> population \<Rightarrow> bool" where
  "pop_ok hmask buf k p \<longleftrightarrow>
     chains_ok hmask buf (po_chains p) \<and> po_hash_count p = map length (po_chains p) \<and>
     po_entries p = k + length (concat (po_chains p)) \<and>
     (case po_last p of
        None \<Rightarrow> po_prev_val p = NOT 0
      | Some i \<Rightarrow> i < length (po_chains p) \<and>
          (\<exists>e es. po_chains p ! i = e # es \<and> ie_val e = po_prev_val p))"

lemma chains_okD:
  "chains_ok hmask buf bs \<Longrightarrow> i < length bs \<Longrightarrow> e \<in> set (bs ! i) \<Longrightarrow> entry_ok hmask buf i e"
  unfolding chains_ok_def by blast

lemma chains_ok_update:
  assumes "chains_ok hmask buf bs" and "\<forall>e \<in> set chain. entry_ok hmask buf i e"
  shows "chains_ok hmask buf (bs[i := chain])"
  unfolding chains_ok_def
proof (intro conjI allI impI ballI)
  show "length (bs[i := chain]) = unat hmask + 1" using assms(1) by (simp add: chains_ok_def)
  fix j e assume "j < length (bs[i := chain])" and "e \<in> set (bs[i := chain] ! j)"
  with assms show "entry_ok hmask buf j e"
    by (cases "j = i") (auto simp: chains_ok_def)
qed

lemma length_concat_update:
  "i < length bs \<Longrightarrow> length (concat (bs[i := chain])) + length (bs ! i) = length (concat bs) + length chain"
proof (induction bs arbitrary: i)
  case (Cons b bs)
  then show ?case by (cases i) auto
qed simp

lemma add_block_ok:
  assumes ok: "pop_ok hmask buf (Suc k) p" and data: "data + RABIN_WINDOW < length buf"
    and small: "data + RABIN_WINDOW < 2 ^ 32"
  shows "\<exists>p'. add_block hmask buf data p = Inr p' \<and> pop_ok hmask buf k p'"
proof -
  let ?w = "take RABIN_WINDOW (drop (data + 1) buf)"
  have bs: "chains_ok hmask buf (po_chains p)" and cnt: "po_hash_count p = map length (po_chains p)"
    and n: "po_entries p = Suc k + length (concat (po_chains p))"
    using ok by (simp_all add: pop_ok_def)
  obtain v where v: "rabin_window 0 ?w = Inr v" and rv: "rabin_ok v"
    using rabin_window_ok [of 0 ?w] by auto
  have sl: "slice buf (data + 1) RABIN_WINDOW = Inr ?w" using data by simp
  have new: "entry_ok hmask buf (unat (v AND hmask)) \<lparr>ie_ptr = data + RABIN_WINDOW, ie_val = v\<rparr>"
    using data small v by (simp add: entry_ok_def)
  show ?thesis
  proof (cases "v = po_prev_val p")
    case True
    have "v \<noteq> NOT 0" using rv by (auto simp: rabin_ok_bit bit_simps)
    then obtain i e es where l: "po_last p = Some i" "i < length (po_chains p)"
      and e: "po_chains p ! i = e # es" "ie_val e = v"
      using ok True by (auto simp: pop_ok_def split: option.splits)
    have "entry_ok hmask buf i e" and es: "\<forall>e \<in> set es. entry_ok hmask buf i e"
      using chains_okD [OF bs l(2)] e(1) by simp_all
    then have "entry_ok hmask buf i (e\<lparr>ie_ptr := data + RABIN_WINDOW\<rparr>)"
      using new e(2) by (simp add: entry_ok_def)
    then have "chains_ok hmask buf ((po_chains p)[i := e\<lparr>ie_ptr := data + RABIN_WINDOW\<rparr> # es])"
      by (intro chains_ok_update [OF bs]) (simp add: es)
    moreover have "map length ((po_chains p)[i := e\<lparr>ie_ptr := data + RABIN_WINDOW\<rparr> # es]) = po_hash_count p"
      using cnt e(1) l(2) by (simp add: map_update list_update_same_conv)
    ultimately show ?thesis
      using sl v True l e n length_concat_update [OF l(2), of "e\<lparr>ie_ptr := data + RABIN_WINDOW\<rparr> # es"]
      by (simp add: add_block_def pop_ok_def)
  next
    case False
    define i where "i = unat (v AND hmask)"
    let ?new = "\<lparr>ie_ptr = data + RABIN_WINDOW, ie_val = v\<rparr>"
    have "unat (v AND hmask) \<le> unat hmask" by (simp add: word_le_nat_alt [symmetric] word_and_le1)
    then have i: "i < length (po_chains p)" using bs by (simp add: chains_ok_def i_def)
    have "chains_ok hmask buf ((po_chains p)[i := ?new # po_chains p ! i])"
      using chains_okD [OF bs i] new by (intro chains_ok_update [OF bs]) (simp add: i_def)
    then show ?thesis
      using sl v False i cnt n length_concat_update [OF i, of "?new # po_chains p ! i"]
      by (simp add: add_block_def pop_ok_def i_def [symmetric] Let_def map_update)
  qed
qed

lemma populate_ok:
  assumes "pop_ok hmask buf k p" and "k * RABIN_WINDOW < length buf" and "k * RABIN_WINDOW < 2 ^ 32"
  shows "\<exists>p'. populate hmask buf k p = Inr p' \<and> pop_ok hmask buf 0 p'"
  using assms
proof (induction k arbitrary: p)
  case (Suc k)
  obtain p' where "add_block hmask buf (k * RABIN_WINDOW) p = Inr p'" "pop_ok hmask buf k p'"
    using add_block_ok [OF Suc.prems(1), of "k * RABIN_WINDOW"] Suc.prems(2,3) by auto
  with Suc.IH [of p'] Suc.prems(2,3) show ?case by auto
qed simp

subsection \<open>Culling leaves 64 entries in a bucket\<close>

lemma cull_skip_ok:
  assumes "0 < acc" and "acc \<le> 64 * int r" and "r < length es"
  shows "\<exists>acc' n. cull_skip acc es = Inr (acc', drop n es) \<and> 0 < n \<and> n \<le> r \<and>
    acc' = acc - 64 * int n \<and> -64 < acc' \<and> acc' \<le> 0"
  using assms
proof (induction acc es arbitrary: r rule: cull_skip.induct)
  case (2 acc e es)
  show ?case
  proof (cases "acc - 64 > 0")
    case True
    then obtain r' where r: "r = Suc r'" using "2.prems"(2) by (cases r) auto
    have "acc - 64 \<le> 64 * int r'" and "r' < length es" using "2.prems"(2,3) r by simp_all
    then obtain acc' n where "cull_skip (acc - 64) es = Inr (acc', drop n es)" "0 < n" "n \<le> r'"
      "acc' = acc - 64 - 64 * int n" "-64 < acc'" "acc' \<le> 0"
      using "2.IH" [of "acc - 64" r'] True by (auto simp: HASH_LIMIT_def)
    with True r show ?thesis
      by (intro exI [of _ acc'] exI [of _ "Suc n"]) (simp add: HASH_LIMIT_def)
  next
    case False
    with "2.prems" show ?thesis
      by (intro exI [of _ "acc - 64"] exI [of _ "Suc 0"]) (simp add: HASH_LIMIT_def)
  qed
qed simp

text \<open>With \<open>m\<close> entries still to keep and \<open>r\<close> still to remove, the accumulator and what the remaining
  \<open>m\<close> rounds add to it pay for exactly \<open>r\<close> removals.\<close>

lemma cull_chain_ok:
  assumes "length es = m + r" and "0 < m" and "acc + int m * (int count - 64) = 64 * int r"
    and "-64 < acc" and "acc \<le> 0" and "64 \<le> count"
  shows "\<exists>es'. cull_chain count acc es = Inr es' \<and> length es' = m \<and> subseq es' es"
  using assms
proof (induction count acc es arbitrary: m r rule: cull_chain.induct)
  case (2 count acc e es)
  define acc1 where "acc1 = acc + (int count - int HASH_LIMIT)"
  have acc1: "acc1 + int (m - 1) * (int count - 64) = 64 * int r"
  proof -
    have "int m * (int count - 64) = (int count - 64) + int (m - 1) * (int count - 64)"
      using "2.prems"(2) by (cases m) (simp_all add: algebra_simps)
    then show ?thesis using "2.prems"(3) by (simp add: acc1_def HASH_LIMIT_def)
  qed
  have nonneg: "0 \<le> int (m - 1) * (int count - 64)" using "2.prems"(6) by simp
  show ?case
  proof (cases "acc1 > 0")
    case True
    have "acc1 \<le> 64 * int r" using acc1 nonneg by linarith
    moreover have "r < length (e # es)" using "2.prems"(1,2) by simp
    ultimately obtain acc' n where sk: "cull_skip acc1 (e # es) = Inr (acc', drop n (e # es))"
      and n: "0 < n" "n \<le> r" "acc' = acc1 - 64 * int n" "-64 < acc'" "acc' \<le> 0"
      using cull_skip_ok [OF True] by blast
    have nlen: "n < length (e # es)" using n(2) "2.prems"(1,2) by simp
    obtain x rest where dr: "drop n (e # es) = x # rest" using nlen by (cases "drop n (e # es)") auto
    have lrest: "length rest = (m - 1) + (r - n)"
      using arg_cong [OF dr, of length] "2.prems"(1,2) n(2) by simp
    have inv: "acc' + int (m - 1) * (int count - 64) = 64 * int (r - n)"
      using acc1 n(2,3) by simp
    have "drop (Suc n) (e # es) = rest" using dr by (metis drop_Suc drop_tl list.sel(3))
    then have sub: "subseq rest es" by (metis drop_Suc_Cons suffix_drop suffix_imp_subseq)
    show ?thesis
    proof (cases "rest = []")
      case rest: True
      then have "m = 1" using lrest "2.prems"(2) by simp
      then show ?thesis using sk dr rest True by (simp add: acc1_def [symmetric] del: cull_skip.simps)
    next
      case False
      have "0 < m - 1"
      proof (rule ccontr)
        assume "\<not> 0 < m - 1"
        then have "64 * int (r - n) = acc'" using inv by simp
        then have "r - n = 0" using n(5) by linarith
        then show False using lrest False \<open>\<not> 0 < m - 1\<close> by simp
      qed
      then obtain es' where "cull_chain count acc' rest = Inr es'" "length es' = m - 1" "subseq es' rest"
        using "2.IH"(1) [OF acc1_def True sk refl dr False lrest _ inv n(4,5) "2.prems"(6)] by blast
      then show ?thesis using sk dr False True sub "2.prems"(2)
        by (auto simp: acc1_def [symmetric] simp del: cull_skip.simps intro: subseq_order.trans)
    qed
  next
    case False
    show ?thesis
    proof (cases "es = []")
      case True
      then have "m = 1" using "2.prems"(1,2) by simp
      then show ?thesis using False True by (simp add: acc1_def [symmetric])
    next
      case ne: False
      have "0 < m - 1"
      proof (rule ccontr)
        assume m: "\<not> 0 < m - 1"
        then have "64 * int r = acc1" using acc1 by simp
        then have "r = 0" using False by linarith
        then have "length (e # es) \<le> 1" using m "2.prems"(1) by linarith
        then show False using ne by (cases es) simp_all
      qed
      moreover have "length es = (m - 1) + r" using "2.prems"(1,2) by simp
      moreover have "-64 < acc1" using "2.prems"(4,6) by (simp add: acc1_def HASH_LIMIT_def)
      ultimately obtain es' where "cull_chain count acc1 es = Inr es'" "length es' = m - 1" "subseq es' es"
        using "2.IH"(2) [OF acc1_def False ne, of "m - 1" r] acc1 False "2.prems"(6) by auto
      then show ?thesis using False ne "2.prems"(2) by (auto simp: acc1_def [symmetric])
    qed
  qed
qed simp

lemma cull_chain_limit:
  assumes "HASH_LIMIT < length es"
  shows "\<exists>es'. cull_chain (length es) 0 es = Inr es' \<and> length es' = HASH_LIMIT \<and> subseq es' es"
  using cull_chain_ok [of es 64 "length es - 64" 0 "length es"] assms by (simp add: HASH_LIMIT_def)

definition culled :: "index_entry list \<Rightarrow> index_entry list \<Rightarrow> bool" where
  "culled es' es \<longleftrightarrow> subseq es' es \<and> length es' = min HASH_LIMIT (length es)"

lemma cull_chains_ok:
  assumes "n = extra + length (concat bs)"
  shows "\<exists>bs' n'. cull_chains bs (map length bs) n = Inr (bs', n') \<and>
    n' = extra + length (concat bs') \<and> list_all2 culled bs' bs"
  using assms
proof (induction bs arbitrary: n extra)
  case (Cons es bs)
  show ?case
  proof (cases "length es \<le> HASH_LIMIT")
    case True
    obtain bs' n' where "cull_chains bs (map length bs) n = Inr (bs', n')"
      "n' = (extra + length es) + length (concat bs')" "list_all2 culled bs' bs"
      using Cons.IH [of n "extra + length es"] Cons.prems by auto
    moreover have "culled es es" using True by (simp add: culled_def)
    ultimately show ?thesis using True by auto
  next
    case False
    then obtain es' where es': "cull_chain (length es) 0 es = Inr es'" "length es' = HASH_LIMIT" "subseq es' es"
      using cull_chain_limit [of es] by auto
    have "n - (length es - HASH_LIMIT) = (extra + HASH_LIMIT) + length (concat bs)"
      using Cons.prems False by simp
    then obtain bs' n' where "cull_chains bs (map length bs) (n - (length es - HASH_LIMIT)) = Inr (bs', n')"
      "n' = (extra + HASH_LIMIT) + length (concat bs')" "list_all2 culled bs' bs"
      using Cons.IH by blast
    moreover have "culled es' es" using False es' by (simp add: culled_def)
    ultimately show ?thesis using False es' by auto
  qed
qed simp

lemma chains_ok_culled:
  assumes "chains_ok hmask buf bs" and "list_all2 culled bs' bs"
  shows "chains_ok hmask buf bs'" and "\<forall>es \<in> set bs'. length es \<le> HASH_LIMIT"
proof -
  have len: "length bs' = length bs" and nth: "\<And>i. i < length bs \<Longrightarrow> culled (bs' ! i) (bs ! i)"
    using assms(2) by (auto simp: list_all2_conv_all_nth)
  show "chains_ok hmask buf bs'"
    unfolding chains_ok_def
  proof (intro conjI allI impI ballI)
    show "length bs' = unat hmask + 1" using assms(1) len by (simp add: chains_ok_def)
    fix i e assume i: "i < length bs'" and "e \<in> set (bs' ! i)"
    moreover have "set (bs' ! i) \<subseteq> set (bs ! i)"
      using nth [of i] i len by (auto simp: culled_def dest: list_emb_set)
    ultimately show "entry_ok hmask buf i e" using chains_okD [OF assms(1), of i e] len by auto
  qed
  show "\<forall>es \<in> set bs'. length es \<le> HASH_LIMIT"
    using nth len by (auto simp: in_set_conv_nth culled_def)
qed

subsection \<open>Reading the packed index\<close>

definition bucket :: "delta_index \<Rightarrow> nat \<Rightarrow> index_entry list result" where
  "bucket index i =
     rbind (rd (di_hash index) i) (\<lambda>from.
     rbind (rd (di_hash index) (i + 1)) (\<lambda>to.
       slice (di_entries index) from (to - from)))"

definition index_ok :: "byte list \<Rightarrow> delta_index \<Rightarrow> bool" where
  "index_ok buf index \<longleftrightarrow>
     di_src_buf index = buf \<and> di_src_size index = length buf \<and>
     (\<forall>i \<le> unat (di_hash_mask index). \<exists>es. bucket index i = Inr es \<and> length es \<le> HASH_LIMIT \<and>
        (\<forall>e \<in> set es. entry_ok (di_hash_mask index) buf i e))"

lemma nth_pack_hash:
  "i \<le> length bs \<Longrightarrow> pack_hash b bs ! i = b + length (concat (take i bs))"
proof (induction bs arbitrary: b i)
  case (Cons es bs)
  then show ?case by (cases i) simp_all
qed simp

lemma length_pack_hash [simp]: "length (pack_hash b bs) = length bs + 1"
  by (induction bs arbitrary: b) simp_all

lemma bucket_packed:
  assumes "di_hash index = pack_hash 0 bs" and "di_entries index = concat bs" and "i < length bs"
  shows "bucket index i = Inr (bs ! i)"
proof -
  have split: "concat bs = concat (take i bs) @ bs ! i @ concat (drop (Suc i) bs)"
    by (metis Cons_nth_drop_Suc append_take_drop_id assms(3) concat.simps(2) concat_append)
  have "pack_hash 0 bs ! (i + 1) = length (concat (take i bs)) + length (bs ! i)"
    using assms(3) by (simp add: nth_pack_hash take_Suc_conv_app_nth)
  with assms split show ?thesis by (simp add: bucket_def nth_pack_hash)
qed

lemma index_entries_fit:
  assumes "n = (if length buf \<ge> 0xffffffff then 0xfffffffe div RABIN_WINDOW else (length buf - 1) div RABIN_WINDOW)"
    and "buf \<noteq> []"
  shows "n * RABIN_WINDOW < length buf" and "n * RABIN_WINDOW < 2 ^ 32" and "n div 4 \<le> 2 ^ 31"
proof -
  have "n \<le> (length buf - 1) div RABIN_WINDOW" and "n \<le> 0xfffffffe div RABIN_WINDOW"
    using assms(1) by (auto intro: div_le_mono)
  then have "n * RABIN_WINDOW \<le> length buf - 1" and "n * RABIN_WINDOW \<le> 0xfffffffe"
    by (simp_all add: RABIN_WINDOW_def less_eq_div_iff_mult_less_eq)
  moreover from this show "n * RABIN_WINDOW < 2 ^ 32" "n div 4 \<le> 2 ^ 31"
    by (simp_all add: RABIN_WINDOW_def)
  moreover have "0 < length buf" using assms(2) by simp
  ultimately show "n * RABIN_WINDOW < length buf" by linarith
qed

lemma create_delta_index_ok:
  assumes "buf \<noteq> []"
  shows "(\<exists>index. create_delta_index alloc buf = Inr (Some index) \<and> index_ok buf index) \<or>
    (\<exists>n. \<not> alloc n) \<and> create_delta_index alloc buf = Inr None"
proof -
  define n where "n = (if length buf \<ge> 0xffffffff then 0xfffffffe div RABIN_WINDOW else (length buf - 1) div RABIN_WINDOW)"
  note fit = index_entries_fit [OF n_def assms]
  obtain j where j: "hsize_shift 4 (n div 4) = Inr j" "4 \<le> j" "j \<le> 31"
    using hsize_shift_ok [OF fit(3), of 4] by auto
  define hsize :: nat where "hsize = 2 ^ j"
  define hmask :: u32 where "hmask = of_nat (hsize - 1)"
  have hs: "hsize \<le> 2 ^ 31" "0 < hsize" using power_increasing [OF j(3), of "2 :: nat"] by (simp_all add: hsize_def)
  then have mask: "unat hmask + 1 = hsize" by (simp only: hmask_def unat_of_nat) simp
  define p0 where "p0 = \<lparr>po_chains = replicate hsize [], po_hash_count = replicate hsize 0,
    po_last = None, po_prev_val = NOT 0, po_entries = n\<rparr>"
  have "pop_ok hmask buf n p0" using mask by (simp add: pop_ok_def p0_def chains_ok_def)
  then obtain p where p: "populate hmask buf n p0 = Inr p" "pop_ok hmask buf 0 p"
    using populate_ok [OF _ fit(1,2)] by blast
  then have bs: "chains_ok hmask buf (po_chains p)" and cnt: "po_hash_count p = map length (po_chains p)"
    and ne: "po_entries p = 0 + length (concat (po_chains p))" by (simp_all add: pop_ok_def)
  obtain bs' n' where cull: "cull_chains (po_chains p) (po_hash_count p) (po_entries p) = Inr (bs', n')"
    and n': "n' = length (concat bs')" and all2: "list_all2 culled bs' (po_chains p)"
    using cull_chains_ok [OF ne] cnt by auto
  note ok = chains_ok_culled [OF bs all2]
  define index where "index = \<lparr>di_memsize = 32 + 8 * (hsize + 1) + 16 * n', di_src_buf = buf,
    di_src_size = length buf, di_hash_mask = hmask, di_hash = pack_hash 0 bs', di_entries = concat bs'\<rparr>"
  have "index_ok buf index"
    unfolding index_ok_def
  proof (intro conjI allI impI)
    fix i assume "i \<le> unat (di_hash_mask index)"
    then have i: "i < length bs'" using ok(1) by (simp add: chains_ok_def index_def)
    then have "bucket index i = Inr (bs' ! i)" by (intro bucket_packed) (simp_all add: index_def)
    with i ok chains_okD [OF ok(1) i] show "\<exists>es. bucket index i = Inr es \<and> length es \<le> HASH_LIMIT \<and>
        (\<forall>e \<in> set es. entry_ok (di_hash_mask index) buf i e)"
      by (simp add: index_def)
  qed (simp_all add: index_def)
  moreover have "create_delta_index alloc buf =
    (if alloc (8 * hsize + 24 * n) \<and> alloc (4 * hsize) \<and> alloc (32 + 8 * (hsize + 1) + 16 * n')
     then Inr (Some index) else Inr None)"
    unfolding create_delta_index_def Let_def n_def [symmetric]
    by (simp only: j(1) rbind_simps hsize_def [symmetric] hmask_def [symmetric] p0_def [symmetric] p(1)
        cull prod.case index_def) (use assms n' in simp)
  ultimately show ?thesis by auto
qed

subsection \<open>Properties\<close>

text \<open>C3: the index of any source buffer is well formed.  Building it never faults (no read outside of the
  buffer or of a table, no NULL entry followed while chains are culled, and the final assertion
  on the number of entries holds), it fails only for lack of memory or on an empty buffer, and in
  the result every bucket has at most 64 entries, each of them filed under the fingerprint of the
  16 bytes of the source that end at its pointer, with an offset that fits in 32 bits.\<close>

theorem create_delta_index_wf:
  "case create_delta_index alloc buf of
     Inl f \<Rightarrow> False
   | Inr None \<Rightarrow> buf = [] \<or> (\<exists>n. \<not> alloc n)
   | Inr (Some index) \<Rightarrow> index_ok buf index"
proof (cases "buf = []")
  case True
  then show ?thesis by (simp add: create_delta_index_def)
next
  case False
  from create_delta_index_ok [OF this, of alloc] show ?thesis by auto
qed

text \<open>C4: culling a chain that has more than 64 entries leaves exactly 64 of them, in their order, and
  never follows a NULL entry, as the comment above the loop argues.\<close>

theorem cull_chain_leaves_limit:
  assumes "HASH_LIMIT < length es"
  shows "\<exists>es'. cull_chain (length es) 0 es = Inr es' \<and> length es' = HASH_LIMIT \<and> subseq es' es"
  by (rule cull_chain_limit [OF assms])

theorem cull_chain_leaves_limit_witness:
  "\<exists>es'. cull_chain 100 0 (replicate 100 \<lparr>ie_ptr = 16, ie_val = 0\<rparr>) = Inr es' \<and> length es' = 64"
  using cull_chain_leaves_limit [of "replicate 100 \<lparr>ie_ptr = 16, ie_val = 0\<rparr>"]
  by (auto simp: HASH_LIMIT_def)

end
