(* ===== verification/Git_Diff_Delta.thy ===== *)
theory Git_Diff_Delta
  imports Git_Patch_Delta Git_Delta_Index
begin

unbundle bit_operations_syntax

section \<open>Generating a delta: diff-delta.c\<close>

text \<open>
  \<open>create_delta\<close> walks over a target buffer, looks up the window in front of every byte in the
  index of the source, extends the blocks that are found to matches and writes copy and insert
  instructions; \<open>diff_delta\<close> of delta.h builds the index and the delta.

  The argument \<open>alloc\<close> says which sizes \<^verbatim>\<open>malloc\<close> and \<^verbatim>\<open>realloc\<close> can serve, and \<open>junk\<close> is what
  fresh memory holds.  A pointer into the source, the target or the output is an index.
\<close>

subsection \<open>Writing the delta\<close>

definition MAX_OP_SIZE :: nat where
  "MAX_OP_SIZE = 5 + 5 + 1 + RABIN_WINDOW + 7"

text \<open>The variables of \<^verbatim>\<open>create_delta()\<close> that its main loop changes.  The buffer \<open>ds_out\<close> is as long as
  what is allocated, \<^verbatim>\<open>outsize\<close> bytes.\<close>

record delta_state =
  ds_out :: "byte list"
  ds_outpos :: nat
  ds_data :: nat
  ds_val :: u32
  ds_inscnt :: int
  ds_moff :: nat
  ds_msize :: nat

text \<open>Storing the size of a buffer.\<close>

function store_size :: "nat \<Rightarrow> byte list \<Rightarrow> nat \<Rightarrow> (byte list \<times> nat) result" where
  "store_size l out outpos =
     (if l \<ge> 0x80 then
        rbind (wr out outpos (of_nat l OR 0x80)) (\<lambda>out. store_size (l div 128) out (outpos + 1))
      else
        rbind (wr out outpos (of_nat l)) (\<lambda>out. Inr (out, outpos + 1)))"
  by auto
termination
  by (relation "measure (\<lambda>(l, _, _). l)") auto

declare store_size.simps [simp del]

text \<open>The first bytes of the target, up to 16 of them, are inserted as they are.\<close>

fun first_window ::
  "nat \<Rightarrow> byte list \<Rightarrow> byte list \<Rightarrow> nat \<Rightarrow> nat \<Rightarrow> u32 \<Rightarrow> (byte list \<times> nat \<times> nat \<times> u32) result"
where
  "first_window 0 trg out outpos data v = Inr (out, outpos, data, v)"
| "first_window (Suc n) trg out outpos data v =
     (if data < length trg then
        rbind (wr out outpos (trg ! data)) (\<lambda>out.
        rbind (rabin_step v (trg ! data)) (\<lambda>v.
          first_window n trg out (outpos + 1) (data + 1) v))
      else Inr (out, outpos, data, v))"

text \<open>\<^verbatim>\<open>while (ref_size-- && *src++ == *ref) ref++;\<close>, as the number of steps \<^verbatim>\<open>ref\<close> makes.\<close>

fun match_length :: "nat \<Rightarrow> byte list \<Rightarrow> nat \<Rightarrow> byte list \<Rightarrow> nat \<Rightarrow> nat result" where
  "match_length 0 trg s src r = Inr 0"
| "match_length (Suc ref_size) trg s src r =
     rbind (rd trg s) (\<lambda>a.
     rbind (rd src r) (\<lambda>b.
       if a = b then rbind (match_length ref_size trg (s + 1) src (r + 1)) (\<lambda>n. Inr (n + 1))
       else Inr 0))"

text \<open>The loop over the entries of a bucket; \<^verbatim>\<open>ref_size\<close> is an \<^verbatim>\<open>unsigned int\<close>.\<close>

fun find_match ::
  "byte list \<Rightarrow> byte list \<Rightarrow> nat \<Rightarrow> u32 \<Rightarrow> index_entry list \<Rightarrow> nat \<Rightarrow> nat \<Rightarrow> (nat \<times> nat) result"
where
  "find_match src trg data v [] moff msize = Inr (moff, msize)"
| "find_match src trg data v (entry # es) moff msize =
     (let ref_size = nat ((int (length src) - int (ie_ptr entry)) mod 2 ^ 32) in
      if ie_val entry \<noteq> v then find_match src trg data v es moff msize
      else
        let ref_size = (if ref_size > length trg - data then length trg - data else ref_size) in
        if ref_size \<le> msize then Inr (moff, msize)
        else
          rbind (match_length ref_size trg data src (ie_ptr entry)) (\<lambda>n.
            if msize < n then
              (if n \<ge> 4096 then Inr (ie_ptr entry, n)
               else find_match src trg data v es (ie_ptr entry) n)
            else find_match src trg data v es moff msize))"

definition look_up :: "delta_index \<Rightarrow> byte list \<Rightarrow> delta_state \<Rightarrow> delta_state result" where
  "look_up index trg s =
     (if ds_msize s < 4096 then
        rbind (if ds_data s < RABIN_WINDOW then Inl Oob else rd trg (ds_data s - RABIN_WINDOW)) (\<lambda>old.
        rbind (rd trg (ds_data s)) (\<lambda>new.
        rbind (rabin_step (rabin_out (ds_val s) old) new) (\<lambda>v.
          let i = unat (v AND di_hash_mask index) in
          rbind (rd (di_hash index) i) (\<lambda>from.
          rbind (rd (di_hash index) (i + 1)) (\<lambda>to.
          rbind (slice (di_entries index) from (to - from)) (\<lambda>es.
          rbind (find_match (di_src_buf index) trg (ds_data s) v es (ds_moff s) (ds_msize s)) (\<lambda>(moff, msize).
            Inr (s\<lparr>ds_val := v, ds_moff := moff, ds_msize := msize\<rparr>))))))))
      else Inr s)"

text \<open>A write at a computed position, which a negative one puts outside of the buffer.\<close>

definition wr_int :: "'a list \<Rightarrow> int \<Rightarrow> 'a \<Rightarrow> 'a list result" where
  "wr_int xs i x = (if i < 0 then Inl Oob else wr xs (nat i) x)"

definition insert_byte :: "byte list \<Rightarrow> delta_state \<Rightarrow> delta_state result" where
  "insert_byte trg s =
     (let outpos = (if ds_inscnt s = 0 then ds_outpos s + 1 else ds_outpos s) in
      rbind (rd trg (ds_data s)) (\<lambda>c.
      rbind (wr (ds_out s) outpos c) (\<lambda>out.
        let outpos = outpos + 1; inscnt = ds_inscnt s + 1;
            s = s\<lparr>ds_out := out, ds_outpos := outpos, ds_data := ds_data s + 1, ds_inscnt := inscnt\<rparr> in
        if inscnt = 0x7f then
          rbind (wr_int out (int outpos - inscnt - 1) (of_int inscnt)) (\<lambda>out.
            Inr (s\<lparr>ds_out := out, ds_inscnt := 0, ds_msize := 0\<rparr>))
        else Inr (s\<lparr>ds_msize := 0\<rparr>))))"

text \<open>The loop that moves a match back over bytes already inserted.  It ends when the match starts the
  source, when the bytes differ, or when nothing is left to take back; in the last case the
  count byte goes too and the counter becomes \<open>-1\<close>.\<close>

fun match_back :: "nat \<Rightarrow> byte list \<Rightarrow> byte list \<Rightarrow> delta_state \<Rightarrow> delta_state result" where
  "match_back 0 src trg s = Inr s"
| "match_back (Suc m) src trg s =
     rbind (rd src m) (\<lambda>a.
     rbind (if ds_data s = 0 then Inl Oob else rd trg (ds_data s - 1)) (\<lambda>b.
       if a = b then
         let s = s\<lparr>ds_msize := ds_msize s + 1, ds_moff := m, ds_data := ds_data s - 1,
                   ds_outpos := ds_outpos s - 1, ds_inscnt := ds_inscnt s - 1\<rparr> in
         if ds_inscnt s \<noteq> 0 then match_back m src trg s
         else Inr (s\<lparr>ds_outpos := ds_outpos s - 1, ds_inscnt := -1\<rparr>)
       else Inr s))"

text \<open>\<^verbatim>\<open>if (var & mask) { out[outpos++] = var >> shift; i |= bit; }\<close>\<close>

definition put_param :: "nat \<Rightarrow> nat \<Rightarrow> nat \<Rightarrow> byte \<Rightarrow> byte list \<times> nat \<times> byte \<Rightarrow> (byte list \<times> nat \<times> byte) result" where
  "put_param var m shift b = (\<lambda>(out, outpos, i).
     if var AND m \<noteq> 0 then
       rbind (wr out outpos (of_nat (drop_bit shift var))) (\<lambda>out. Inr (out, outpos + 1, i OR b))
     else Inr (out, outpos, i))"

definition put_copy :: "nat \<Rightarrow> nat \<Rightarrow> byte list \<Rightarrow> nat \<Rightarrow> (byte list \<times> nat) result" where
  "put_copy moff msize out outpos =
     (let op = outpos in
      rbind (put_param moff 0x000000ff 0 0x01 (out, outpos + 1, 0x80)) (\<lambda>p.
      rbind (put_param moff 0x0000ff00 8 0x02 p) (\<lambda>p.
      rbind (put_param moff 0x00ff0000 16 0x04 p) (\<lambda>p.
      rbind (put_param moff 0xff000000 24 0x08 p) (\<lambda>p.
      rbind (put_param msize 0x00ff 0 0x10 p) (\<lambda>p.
      rbind (put_param msize 0xff00 8 0x20 p) (\<lambda>(out, outpos, i).
      rbind (wr out op i) (\<lambda>out. Inr (out, outpos)))))))))"

definition copy_match :: "byte list \<Rightarrow> byte list \<Rightarrow> delta_state \<Rightarrow> delta_state result" where
  "copy_match src trg s =
     rbind (if ds_inscnt s \<noteq> 0 then
              rbind (match_back (ds_moff s) src trg s) (\<lambda>s.
              rbind (wr_int (ds_out s) (int (ds_outpos s) - ds_inscnt s - 1) (of_int (ds_inscnt s))) (\<lambda>out.
                Inr (s\<lparr>ds_out := out, ds_inscnt := 0\<rparr>)))
            else Inr s) (\<lambda>s.
       let left = (if ds_msize s < 0x10000 then 0 else (ds_msize s - 0x10000) mod 2 ^ 32);
           msize = ds_msize s - left in
       rbind (put_copy (ds_moff s) msize (ds_out s) (ds_outpos s)) (\<lambda>(out, outpos).
         let data = ds_data s + msize;
             moff = ds_moff s + msize;
             msize = (if moff > 0xffffffff then 0 else left) in
         rbind (if msize < 4096 then
                  rbind (if data < RABIN_WINDOW then Inl Oob
                         else slice trg (data - RABIN_WINDOW) RABIN_WINDOW) (rabin_window 0)
                else Inr (ds_val s)) (\<lambda>v.
           Inr (s\<lparr>ds_out := out, ds_outpos := outpos, ds_data := data, ds_moff := moff,
                  ds_msize := msize, ds_val := v\<rparr>))))"

text \<open>Growing the output buffer.  \<open>None\<close> is the \<^verbatim>\<open>break\<close> out of the main loop, \<open>Some None\<close> the
  \<^verbatim>\<open>return NULL\<close> after a failed \<^verbatim>\<open>realloc\<close>.\<close>

definition realloc_out :: "byte \<Rightarrow> byte list \<Rightarrow> nat \<Rightarrow> byte list" where
  "realloc_out junk out n = take n out @ replicate (n - length out) junk"

definition grow_out ::
  "(nat \<Rightarrow> bool) \<Rightarrow> byte \<Rightarrow> nat \<Rightarrow> delta_state \<Rightarrow> delta_state option option"
where
  "grow_out alloc junk max_size s =
     (let outsize = length (ds_out s) in
      if ds_outpos s \<ge> outsize - MAX_OP_SIZE then
        let outsize = outsize * 3 div 2;
            outsize = (if max_size \<noteq> 0 \<and> outsize \<ge> max_size then max_size + MAX_OP_SIZE + 1 else outsize) in
        if max_size \<noteq> 0 \<and> ds_outpos s > max_size then None
        else if \<not> alloc outsize then Some None
        else Some (Some (s\<lparr>ds_out := realloc_out junk (ds_out s) outsize\<rparr>))
      else Some (Some s))"

text \<open>The main loop; \<open>Inr None\<close> is a returned NULL.\<close>

fun create_delta_loop ::
  "(nat \<Rightarrow> bool) \<Rightarrow> byte \<Rightarrow> delta_index \<Rightarrow> byte list \<Rightarrow> nat \<Rightarrow> nat \<Rightarrow> delta_state \<Rightarrow> delta_state option result"
where
  "create_delta_loop alloc junk index trg max_size 0 s = Inl No_fuel"
| "create_delta_loop alloc junk index trg max_size (Suc fuel) s =
     (if ds_data s < length trg then
        rbind (look_up index trg s) (\<lambda>s.
        rbind (if ds_msize s < 4 then insert_byte trg s else copy_match (di_src_buf index) trg s) (\<lambda>s.
          case grow_out alloc junk max_size s of
            None \<Rightarrow> Inr (Some s)
          | Some None \<Rightarrow> Inr None
          | Some (Some s) \<Rightarrow> create_delta_loop alloc junk index trg max_size fuel s))
      else Inr (Some s))"

definition create_delta_start :: "delta_index \<Rightarrow> byte list \<Rightarrow> byte list \<Rightarrow> delta_state result" where
  "create_delta_start index trg out =
     rbind (store_size (di_src_size index) out 0) (\<lambda>(out, outpos).
     rbind (store_size (length trg) out outpos) (\<lambda>(out, outpos).
     rbind (first_window RABIN_WINDOW trg out (outpos + 1) 0 0) (\<lambda>(out, outpos, data, v).
       Inr \<lparr>ds_out = out, ds_outpos = outpos, ds_data = data, ds_val = v, ds_inscnt = int data,
            ds_moff = 0, ds_msize = 0\<rparr>)))"

definition create_delta_finish :: "nat \<Rightarrow> delta_state \<Rightarrow> byte list option result" where
  "create_delta_finish max_size s =
     rbind (if ds_inscnt s \<noteq> 0
            then wr_int (ds_out s) (int (ds_outpos s) - ds_inscnt s - 1) (of_int (ds_inscnt s))
            else Inr (ds_out s)) (\<lambda>out.
       if max_size \<noteq> 0 \<and> ds_outpos s > max_size then Inr None
       else Inr (Some (take (ds_outpos s) out)))"

definition create_delta ::
  "(nat \<Rightarrow> bool) \<Rightarrow> byte \<Rightarrow> delta_index \<Rightarrow> byte list \<Rightarrow> nat \<Rightarrow> byte list option result"
where
  "create_delta alloc junk index trg max_size =
     (if trg = [] then Inr None
      else
        let outsize = 8192;
            outsize = (if max_size \<noteq> 0 \<and> outsize \<ge> max_size then max_size + MAX_OP_SIZE + 1 else outsize) in
        if \<not> alloc outsize then Inr None
        else
          rbind (create_delta_start index trg (replicate outsize junk)) (\<lambda>s.
          rbind (create_delta_loop alloc junk index trg max_size (length trg + 1) s) (\<lambda>r.
            case r of None \<Rightarrow> Inr None | Some s \<Rightarrow> create_delta_finish max_size s)))"

definition diff_delta ::
  "(nat \<Rightarrow> bool) \<Rightarrow> byte \<Rightarrow> byte list \<Rightarrow> byte list \<Rightarrow> nat \<Rightarrow> byte list option result"
where
  "diff_delta alloc junk src trg max_size =
     rbind (create_delta_index alloc src) (\<lambda>index.
       case index of
         None \<Rightarrow> Inr None
       | Some index \<Rightarrow> create_delta alloc junk index trg max_size)"

subsection \<open>Writing at the end of what has been written\<close>

lemma wr_prefix:
  assumes "prefix bs out" and "length bs < length out"
  shows "\<exists>out'. wr out (length bs) x = Inr out' \<and> length out' = length out \<and> prefix (bs @ [x]) out'"
proof -
  obtain y rest where "out = bs @ y # rest"
    using assms by (cases "drop (length bs) out") (auto simp: prefix_def)
  then show ?thesis by (simp add: prefix_def)
qed

lemma skip_prefix:
  assumes "prefix bs out" and "length bs < length out"
  shows "\<exists>x. prefix (bs @ [x]) out"
  using assms by (cases "drop (length bs) out") (auto simp: prefix_def)

lemma wr_prefix_inside:
  assumes "prefix (bs @ y # cs) out"
  shows "\<exists>out'. wr out (length bs) x = Inr out' \<and> length out' = length out \<and> prefix (bs @ x # cs) out'"
  using assms by (auto simp: prefix_def)

lemma wr_int_nat [simp]: "wr_int xs (int i) x = wr xs i x"
  by (simp add: wr_int_def)

lemma store_size_ok:
  assumes "prefix bs out" and "length bs + length (encode_hdr_size l) \<le> length out"
  shows "\<exists>out'. store_size l out (length bs) = Inr (out', length bs + length (encode_hdr_size l)) \<and>
    length out' = length out \<and> prefix (bs @ encode_hdr_size l) out'"
  using assms
proof (induction l arbitrary: bs out rule: encode_hdr_size.induct)
  case (1 l)
  let ?c = "(if 0x80 \<le> l then of_nat l OR 0x80 else of_nat l) :: byte"
  have "length bs < length out"
    using "1.prems"(2) encode_hdr_size_not_Nil [of l] by (cases "encode_hdr_size l") simp_all
  then obtain out' where out': "wr out (length bs) ?c = Inr out'" "length out' = length out" "prefix (bs @ [?c]) out'"
    using wr_prefix [OF "1.prems"(1)] by blast
  show ?case
  proof (cases "0x80 \<le> l")
    case True
    then have enc: "encode_hdr_size l = ?c # encode_hdr_size (l div 128)"
      by (simp add: encode_hdr_size.simps [of l])
    from "1.IH" [OF True out'(3)] "1.prems"(2) out'(1,2) True show ?thesis
      by (simp add: enc store_size.simps [of l])
  next
    case False
    then show ?thesis using out' by (simp add: encode_hdr_size.simps [of l] store_size.simps [of l])
  qed
qed

lemma length_encode_hdr_size:
  assumes "l < 128 ^ Suc k"
  shows "length (encode_hdr_size l) \<le> Suc k"
  using assms
proof (induction k arbitrary: l)
  case 0
  then show ?case by (simp add: encode_hdr_size.simps [of l])
next
  case (Suc k)
  then have "l div 128 < 128 ^ Suc k" by (simp add: less_mult_imp_div_less mult.commute)
  from Suc.IH [OF this] show ?case by (simp add: encode_hdr_size.simps [of l])
qed

lemma first_window_ok:
  assumes "prefix bs out" and "length bs + n \<le> length out" and "data \<le> length trg" and "rabin_ok v"
  shows "\<exists>out' v'. first_window n trg out (length bs) data v
      = Inr (out', length bs + min n (length trg - data), min (data + n) (length trg), v') \<and>
    length out' = length out \<and> prefix (bs @ take n (drop data trg)) out' \<and> rabin_ok v'"
  using assms
proof (induction n arbitrary: bs out data v)
  case (Suc n)
  show ?case
  proof (cases "data < length trg")
    case True
    obtain out' where out': "wr out (length bs) (trg ! data) = Inr out'" "length out' = length out"
      "prefix (bs @ [trg ! data]) out'"
      using wr_prefix [OF Suc.prems(1)] Suc.prems(2) by fastforce
    obtain out'' v' where "first_window n trg out' (length bs + 1) (data + 1) (rstep v (trg ! data))
        = Inr (out'', length bs + 1 + min n (length trg - (data + 1)), min (data + 1 + n) (length trg), v')"
      "length out'' = length out'" "prefix (bs @ [trg ! data] @ take n (drop (data + 1) trg)) out''" "rabin_ok v'"
      using Suc.IH [OF out'(3), of "data + 1" "rstep v (trg ! data)"] Suc.prems out'(2) True rabin_step_ok(2) by auto
    moreover have "drop data trg = trg ! data # drop (data + 1) trg" using True by (simp add: Cons_nth_drop_Suc)
    ultimately show ?thesis using True out' rabin_step_ok(1) [OF Suc.prems(4)] by simp
  next
    case False
    with Suc.prems show ?thesis by simp
  qed
qed simp

subsection \<open>A match is a common block of source and target\<close>

definition match_ok :: "byte list \<Rightarrow> byte list \<Rightarrow> nat \<Rightarrow> nat \<Rightarrow> nat \<Rightarrow> bool" where
  "match_ok src trg data moff msize \<longleftrightarrow>
     msize = 0 \<or>
     moff < 2 ^ 32 \<and> msize < 2 ^ 32 \<and> moff + msize \<le> length src \<and> data + msize \<le> length trg \<and>
     take msize (drop moff src) = take msize (drop data trg)"

lemma match_length_ok:
  assumes "s + n \<le> length trg" and "r + n \<le> length src"
  shows "\<exists>k. match_length n trg s src r = Inr k \<and> k \<le> n \<and> take k (drop s trg) = take k (drop r src)"
  using assms
proof (induction n arbitrary: s r)
  case (Suc n)
  have "s + 1 + n \<le> length trg" and "r + 1 + n \<le> length src" using Suc.prems by simp_all
  from Suc.IH [OF this] obtain k where k: "match_length n trg (s + 1) src (r + 1) = Inr k" "k \<le> n"
    "take k (drop (s + 1) trg) = take k (drop (r + 1) src)"
    by blast
  have "drop s trg = trg ! s # drop (s + 1) trg" and "drop r src = src ! r # drop (r + 1) src"
    using Suc.prems by (simp_all add: Cons_nth_drop_Suc)
  with k Suc.prems show ?case by auto
qed simp

lemma find_match_ok:
  assumes "\<forall>e \<in> set es. ie_ptr e < length src \<and> ie_ptr e < 2 ^ 32" and "data < length trg"
    and "match_ok src trg data moff msize"
  shows "\<exists>moff' msize'. find_match src trg data v es moff msize = Inr (moff', msize') \<and>
    match_ok src trg data moff' msize'"
  using assms
proof (induction es arbitrary: moff msize)
  case (Cons e es)
  define rs where "rs = nat ((int (length src) - int (ie_ptr e)) mod 2 ^ 32)"
  define rs' where "rs' = (if rs > length trg - data then length trg - data else rs)"
  have "rs = (length src - ie_ptr e) mod 2 ^ 32"
    using Cons.prems(1) by (simp add: rs_def nat_mod_distrib nat_diff_distrib)
  then have rs: "rs \<le> length src - ie_ptr e" "rs < 2 ^ 32" by simp_all
  then have rs': "data + rs' \<le> length trg" "ie_ptr e + rs' \<le> length src" "rs' < 2 ^ 32"
    using Cons.prems(1,2) by (auto simp: rs'_def)
  obtain n where n: "match_length rs' trg data src (ie_ptr e) = Inr n" "n \<le> rs'"
    "take n (drop data trg) = take n (drop (ie_ptr e) src)"
    using match_length_ok [OF rs'(1,2)] by blast
  have new: "match_ok src trg data (ie_ptr e) n"
    using n(2,3) rs' Cons.prems(1) by (simp add: match_ok_def)
  have IH: "\<exists>moff' msize'. find_match src trg data v es moff msize = Inr (moff', msize') \<and>
    match_ok src trg data moff' msize'" if "match_ok src trg data moff msize" for moff msize
    using Cons.IH Cons.prems(1,2) that by simp
  show ?case
    unfolding find_match.simps Let_def rs_def [symmetric] rs'_def [symmetric] n(1) rbind_simps
    using IH [OF Cons.prems(3)] IH [OF new] new Cons.prems(3) by simp
qed simp

lemma match_back_ok:
  assumes "ds_moff s = m" and "ds_inscnt s = int n" and "0 < n" and "n \<le> ds_data s"
    and "ds_data s \<le> length trg" and "m \<le> length src" and "n < ds_outpos s"
  shows "\<exists>k \<le> n. k \<le> m \<and>
    match_back m src trg s = Inr (s\<lparr>ds_msize := ds_msize s + k, ds_moff := m - k, ds_data := ds_data s - k,
      ds_outpos := ds_outpos s - (if k = n then n + 1 else k),
      ds_inscnt := (if k = n then -1 else int (n - k))\<rparr>) \<and>
    take k (drop (m - k) src) = take k (drop (ds_data s - k) trg)"
  using assms
proof (induction m arbitrary: s n)
  case 0
  then show ?case by (intro exI [of _ 0]) simp
next
  case (Suc m)
  show ?case
  proof (cases "src ! m = trg ! (ds_data s - 1)")
    case False
    then show ?thesis using Suc.prems by (intro exI [of _ 0]) simp
  next
    case eq: True
    have ds: "drop m src = src ! m # drop (Suc m) src" using Suc.prems(6) by (simp add: Cons_nth_drop_Suc)
    show ?thesis
    proof (cases "n = 1")
      case True
      have "drop (ds_data s - 1) trg = trg ! (ds_data s - 1) # drop (ds_data s) trg"
        using Suc.prems(3,4,5) True by (simp add: Cons_nth_drop_Suc [symmetric])
      then show ?thesis using Suc.prems True eq ds by (intro exI [of _ 1]) simp
    next
      case False
      define s' where "s' = s\<lparr>ds_msize := ds_msize s + 1, ds_moff := m, ds_data := ds_data s - 1,
        ds_outpos := ds_outpos s - 1, ds_inscnt := ds_inscnt s - 1\<rparr>"
      have "ds_moff s' = m" and "ds_inscnt s' = int (n - 1)" and "0 < n - 1" and "n - 1 \<le> ds_data s'"
        and "ds_data s' \<le> length trg" and "m \<le> length src" and "n - 1 < ds_outpos s'"
        using Suc.prems False by (simp_all add: s'_def)
      from Suc.IH [OF this] obtain k where k: "k \<le> n - 1" "k \<le> m"
        and run: "match_back m src trg s' = Inr (s'\<lparr>ds_msize := ds_msize s' + k, ds_moff := m - k,
          ds_data := ds_data s' - k, ds_outpos := ds_outpos s' - (if k = n - 1 then n - 1 + 1 else k),
          ds_inscnt := (if k = n - 1 then -1 else int (n - 1 - k))\<rparr>)"
        and same: "take k (drop (m - k) src) = take k (drop (ds_data s' - k) trg)"
        by blast
      have step: "match_back (Suc m) src trg s = match_back m src trg s'"
        using Suc.prems eq False by (simp add: s'_def Let_def)
      have ext: "take (Suc k) (drop i xs) = take k (drop i xs) @ [xs ! (i + k)]" if "i + k < length xs" for i and xs :: "byte list"
        using that by (simp add: take_Suc_conv_app_nth)
      have "take (Suc k) (drop (m - k) src) = take (Suc k) (drop (ds_data s' - k) trg)"
        using ext [of "m - k" src] ext [of "ds_data s' - k" trg] same eq k Suc.prems by (simp add: s'_def)
      then show ?thesis
        using k Suc.prems False unfolding step run by (intro exI [of _ "Suc k"]) (auto simp: s'_def)
    qed
  qed
qed

lemma match_ok_back:
  assumes "match_ok src trg data moff msize" and "0 < msize" and "k \<le> moff" and "k \<le> data"
    and "take k (drop (moff - k) src) = take k (drop (data - k) trg)"
  shows "moff - k < 2 ^ 32 \<and> moff - k + (msize + k) \<le> length src \<and> data - k + (msize + k) \<le> length trg \<and>
    take (msize + k) (drop (moff - k) src) = take (msize + k) (drop (data - k) trg)"
proof -
  have "take (k + msize) (drop (i - k) xs) = take k (drop (i - k) xs) @ take msize (drop i xs)"
    if "k \<le> i" for i and xs :: "byte list"
    using that by (simp add: take_add)
  moreover have "moff - k \<le> moff" by simp
  ultimately show ?thesis using assms by (auto simp: match_ok_def add.commute [of msize k] simp del: diff_le_self)
qed

subsection \<open>Writing a copy instruction\<close>

lemma nat_and_byte_mask: "(n :: nat) AND push_bit sh 255 \<noteq> 0 \<longleftrightarrow> (of_nat (drop_bit sh n) :: byte) \<noteq> 0"
proof -
  have m: "(255 :: nat) = mask 8" by (simp add: mask_eq_exp_minus_1)
  have "n AND push_bit sh 255 = push_bit sh (take_bit 8 (drop_bit sh n))"
    unfolding m by (intro bit_eqI) (auto simp: bit_simps)
  moreover have "(of_nat (drop_bit sh n) :: byte) = 0 \<longleftrightarrow> take_bit 8 (drop_bit sh n) = 0"
    by (simp add: word_eq_0_unat unat_of_nat take_bit_eq_mod)
  ultimately show ?thesis by simp
qed

definition overwrite :: "byte list \<Rightarrow> byte list \<Rightarrow> byte list" where
  "overwrite out bs = bs @ drop (length bs) out"

lemma wr_overwrite:
  "length bs < length out \<Longrightarrow> wr (overwrite out bs) (length bs) x = Inr (overwrite out (bs @ [x]))"
  by (simp add: overwrite_def wr_def Cons_nth_drop_Suc [symmetric])

lemma wr_overwrite_inside:
  "wr (overwrite out (bs @ y # cs)) (length bs) x = Inr (overwrite out (bs @ x # cs))"
  by (simp add: overwrite_def wr_def)

lemma put_param_overwrite:
  assumes "m = push_bit (8 * k) 255" and "length bs < length out"
  shows "put_param var m (8 * k) b (overwrite out bs, length bs, i)
    = Inr (overwrite out (bs @ param (byte_of k var)), length (bs @ param (byte_of k var)), i OR flag b (byte_of k var))"
proof -
  have b: "of_nat (drop_bit (8 * k) var) = byte_of k var" by (simp add: byte_of_def drop_bit_eq_div)
  show ?thesis
    using wr_overwrite [OF assms(2), of "byte_of k var"] nat_and_byte_mask [of var "8 * k"]
    by (auto simp: put_param_def assms(1) b param_def flag_def)
qed

lemma put_params:
  assumes "length bs < length out"
  shows
    "put_param var 0xff 0 b (overwrite out bs, length bs, i)
      = Inr (overwrite out (bs @ param (byte_of 0 var)), length (bs @ param (byte_of 0 var)), i OR flag b (byte_of 0 var))"
    "put_param var 0xff00 8 b (overwrite out bs, length bs, i)
      = Inr (overwrite out (bs @ param (byte_of 1 var)), length (bs @ param (byte_of 1 var)), i OR flag b (byte_of 1 var))"
    "put_param var 0xff0000 16 b (overwrite out bs, length bs, i)
      = Inr (overwrite out (bs @ param (byte_of 2 var)), length (bs @ param (byte_of 2 var)), i OR flag b (byte_of 2 var))"
    "put_param var 0xff000000 24 b (overwrite out bs, length bs, i)
      = Inr (overwrite out (bs @ param (byte_of 3 var)), length (bs @ param (byte_of 3 var)), i OR flag b (byte_of 3 var))"
  using put_param_overwrite [OF _ assms, where k = 0] put_param_overwrite [OF _ assms, where k = 1]
    put_param_overwrite [OF _ assms, where k = 2] put_param_overwrite [OF _ assms, where k = 3]
  by simp_all

lemma length_param: "length (param b) \<le> 1"
  by (simp add: param_def)

lemma length_encode_copy: "length (encode_op (Copy off n)) \<le> 7"
  using length_param [of "byte_of 0 off"] length_param [of "byte_of 1 off"] length_param [of "byte_of 2 off"]
    length_param [of "byte_of 3 off"] length_param [of "byte_of 0 n"] length_param [of "byte_of 1 n"]
  by (simp only: encode_op.simps length_Cons length_append)

lemma put_copy_ok:
  assumes pre: "prefix bs out" and room: "length bs + 7 \<le> length out"
  shows "put_copy moff msize out (length bs)
    = Inr (overwrite out (bs @ encode_op (Copy moff msize)), length (bs @ encode_op (Copy moff msize)))"
proof -
  obtain x where "prefix (bs @ [x]) out" using skip_prefix [OF pre] room by auto
  then have out: "overwrite out (bs @ [x]) = out" by (auto simp: overwrite_def prefix_def)
  let ?p = "\<lambda>k n. param (byte_of k n)"
  let ?w = "bs @ [x]"
  have c: "length ?w < length out" "length (?w @ ?p 0 moff) < length out"
    "length ((?w @ ?p 0 moff) @ ?p 1 moff) < length out"
    "length (((?w @ ?p 0 moff) @ ?p 1 moff) @ ?p 2 moff) < length out"
    "length ((((?w @ ?p 0 moff) @ ?p 1 moff) @ ?p 2 moff) @ ?p 3 moff) < length out"
    "length (((((?w @ ?p 0 moff) @ ?p 1 moff) @ ?p 2 moff) @ ?p 3 moff) @ ?p 0 msize) < length out"
    using room length_param [of "byte_of 0 moff"] length_param [of "byte_of 1 moff"]
      length_param [of "byte_of 2 moff"] length_param [of "byte_of 3 moff"] length_param [of "byte_of 0 msize"]
    by (simp_all only: length_append list.size)
  have "put_copy moff msize (overwrite out ?w) (length bs)
    = Inr (overwrite out (bs @ encode_op (Copy moff msize)), length (bs @ encode_op (Copy moff msize)))"
  proof -
    have len: "length bs + 1 = length ?w" by simp
    show ?thesis
      unfolding put_copy_def Let_def len
      by (simp only: put_params c rbind_simps prod.case)
        (simp only: append_assoc append_Cons append_Nil wr_overwrite_inside encode_op.simps or.assoc
          rbind_simps length_append length_Cons)
  qed
  then show ?thesis by (simp only: out)
qed

lemma overwrite_prefix [simp]: "prefix bs (overwrite out bs)"
  by (simp add: overwrite_def)

lemma length_overwrite [simp]: "length bs \<le> length out \<Longrightarrow> length (overwrite out bs) = length out"
  by (simp add: overwrite_def)

subsection \<open>The invariant of the main loop\<close>

text \<open>What has been written is the two sizes, a list of complete instructions that rebuild the target up
  to the pending insertion, and the pending insertion itself: a byte reserved for its count and
  the last \<open>n\<close> bytes of the target.\<close>

definition delta_hdr :: "byte list \<Rightarrow> byte list \<Rightarrow> byte list" where
  "delta_hdr src trg = encode_hdr_size (length src) @ encode_hdr_size (length trg)"

definition pending :: "byte list \<Rightarrow> nat \<Rightarrow> nat \<Rightarrow> byte \<Rightarrow> byte list" where
  "pending trg data n slot = (if n = 0 then [] else slot # take n (drop (data - n) trg))"

definition written :: "byte list \<Rightarrow> byte list \<Rightarrow> delta_op list \<Rightarrow> delta_state \<Rightarrow> nat \<Rightarrow> byte \<Rightarrow> bool" where
  "written src trg ops s n slot \<longleftrightarrow>
     (let w = delta_hdr src trg @ concat (map encode_op ops) @ pending trg (ds_data s) n slot in
      ds_outpos s = length w \<and> prefix w (ds_out s)) \<and>
     n \<le> ds_data s \<and> ds_data s \<le> length trg \<and>
     list_all (op_ok src) ops \<and> concat (map (apply_op src) ops) = take (ds_data s - n) trg"

definition delta_inv :: "byte list \<Rightarrow> byte list \<Rightarrow> delta_state \<Rightarrow> bool" where
  "delta_inv src trg s \<longleftrightarrow>
     (\<exists>ops n slot. ds_inscnt s = int n \<and> n < 127 \<and> written src trg ops s n slot) \<and>
     match_ok src trg (ds_data s) (ds_moff s) (ds_msize s) \<and>
     rabin_ok (ds_val s) \<and> (RABIN_WINDOW \<le> ds_data s \<or> ds_data s = length trg)"

lemma index_ok_lookup:
  assumes "index_ok src index"
  shows "\<exists>es. rbind (rd (di_hash index) (unat (v AND di_hash_mask index))) (\<lambda>from.
      rbind (rd (di_hash index) (unat (v AND di_hash_mask index) + 1)) (\<lambda>to.
        slice (di_entries index) from (to - from))) = Inr es \<and>
    (\<forall>e \<in> set es. ie_ptr e < length src \<and> ie_ptr e < 2 ^ 32)"
proof -
  have "unat (v AND di_hash_mask index) \<le> unat (di_hash_mask index)"
    by (simp add: word_le_nat_alt [symmetric] word_and_le1)
  then obtain es where "bucket index (unat (v AND di_hash_mask index)) = Inr es"
    "\<forall>e \<in> set es. entry_ok (di_hash_mask index) src (unat (v AND di_hash_mask index)) e"
    using assms unfolding index_ok_def by blast
  then show ?thesis unfolding bucket_def entry_ok_def by blast
qed

lemma look_up_ok:
  assumes index: "index_ok src index" and inv: "delta_inv src trg s" and data: "ds_data s < length trg"
  shows "\<exists>v moff msize. look_up index trg s = Inr (s\<lparr>ds_val := v, ds_moff := moff, ds_msize := msize\<rparr>) \<and>
    delta_inv src trg (s\<lparr>ds_val := v, ds_moff := moff, ds_msize := msize\<rparr>)"
proof (cases "ds_msize s < 4096")
  case False
  then show ?thesis
    using inv by (intro exI [of _ "ds_val s"] exI [of _ "ds_moff s"] exI [of _ "ds_msize s"]) (simp add: look_up_def)
next
  case True
  let ?i = "ds_data s"
  have win: "RABIN_WINDOW \<le> ?i" using inv data by (auto simp: delta_inv_def)
  define v where "v = rstep (rabin_out (ds_val s) (trg ! (?i - RABIN_WINDOW))) (trg ! ?i)"
  have ok: "rabin_ok (rabin_out (ds_val s) (trg ! (?i - RABIN_WINDOW)))"
    using inv by (simp add: delta_inv_def rabin_out_ok)
  obtain es where es: "rbind (rd (di_hash index) (unat (v AND di_hash_mask index))) (\<lambda>from.
      rbind (rd (di_hash index) (unat (v AND di_hash_mask index) + 1)) (\<lambda>to.
        slice (di_entries index) from (to - from))) = Inr es"
    "\<forall>e \<in> set es. ie_ptr e < length src \<and> ie_ptr e < 2 ^ 32"
    using index_ok_lookup [OF index] by blast
  then obtain lo hi where ft: "rd (di_hash index) (unat (v AND di_hash_mask index)) = Inr lo"
    "rd (di_hash index) (unat (v AND di_hash_mask index) + 1) = Inr hi"
    "slice (di_entries index) lo (hi - lo) = Inr es"
    by (auto simp: rbind_eq_Inr)
  obtain moff msize where fm: "find_match src trg ?i v es (ds_moff s) (ds_msize s) = Inr (moff, msize)"
    "match_ok src trg ?i moff msize"
    using find_match_ok [OF es(2) data] inv unfolding delta_inv_def by blast
  have src: "di_src_buf index = src" using index by (simp add: index_ok_def)
  have "look_up index trg s = Inr (s\<lparr>ds_val := v, ds_moff := moff, ds_msize := msize\<rparr>)"
    using True win data rabin_step_ok(1) [OF ok, of "trg ! ?i"] ft fm(1)
    by (simp add: look_up_def v_def [symmetric] src Let_def)
  moreover have "rabin_ok v" using rabin_step_ok(2) [OF ok] by (simp add: v_def)
  ultimately show ?thesis using inv fm(2) by (auto simp: delta_inv_def written_def)
qed

text \<open>Filling in the count of the pending insertion makes it an instruction.\<close>

lemma flush_ok:
  assumes "prefix (w @ slot # ins) out" and "length ins = m"
  shows "\<exists>out'. wr_int out (int (length w + 1 + m) - int m - 1) (of_int (int m)) = Inr out' \<and>
    length out' = length out \<and> prefix (w @ encode_op (Insert ins)) out'"
proof -
  have "int (length w + 1 + m) - int m - 1 = int (length w)" by simp
  then show ?thesis using wr_prefix_inside [OF assms(1)] assms(2) by simp
qed

lemma written_slot:
  assumes "written src trg ops s n slot" and "ds_outpos s < length (ds_out s)"
  defines "w \<equiv> delta_hdr src trg @ concat (map encode_op ops)"
  shows "\<exists>slot'. prefix (w @ slot' # take n (drop (ds_data s - n) trg)) (ds_out s) \<and>
    length (w @ slot' # take n (drop (ds_data s - n) trg)) = (if n = 0 then ds_outpos s + 1 else ds_outpos s)"
proof (cases "n = 0")
  case True
  then have "prefix w (ds_out s)" "ds_outpos s = length w"
    using assms(1) by (simp_all add: written_def pending_def w_def)
  with skip_prefix [of w "ds_out s"] assms(2) True show ?thesis by auto
next
  case False
  then show ?thesis
    using assms(1) by (intro exI [of _ slot]) (simp add: written_def pending_def w_def)
qed

lemma insert_byte_ok:
  assumes inv: "delta_inv src trg s" and data: "ds_data s < length trg"
    and room: "ds_outpos s + 2 \<le> length (ds_out s)"
  shows "\<exists>s'. insert_byte trg s = Inr s' \<and> delta_inv src trg s' \<and> ds_data s' = ds_data s + 1 \<and>
    length (ds_out s') = length (ds_out s) \<and> ds_outpos s' \<le> ds_outpos s + 2"
proof -
  obtain ops n slot where n: "ds_inscnt s = int n" "n < 127" and wr: "written src trg ops s n slot"
    using inv by (auto simp: delta_inv_def)
  let ?i = "ds_data s"
  have ni: "n \<le> ?i" using wr by (simp add: written_def)
  define w where "w = delta_hdr src trg @ concat (map encode_op ops)"
  define ins where "ins = take n (drop (?i - n) trg)"
  obtain slot' where w1: "prefix (w @ slot' # ins) (ds_out s)"
    and l1: "length (w @ slot' # ins) = (if n = 0 then ds_outpos s + 1 else ds_outpos s)"
    using written_slot [OF wr] room unfolding w_def ins_def by auto
  have lins: "length ins = n" using ni data by (simp add: ins_def)
  have ins': "take (n + 1) (drop (?i - n) trg) = ins @ [trg ! ?i]"
    using ni data by (simp add: ins_def take_Suc_conv_app_nth)
  obtain out where out: "wr (ds_out s) (length (w @ slot' # ins)) (trg ! ?i) = Inr out"
    "length out = length (ds_out s)" "prefix (w @ slot' # ins @ [trg ! ?i]) out"
    using wr_prefix [OF w1, of "trg ! ?i"] l1 room by (auto split: if_splits)
  define s1 where "s1 = s\<lparr>ds_out := out, ds_outpos := length (w @ slot' # ins) + 1, ds_data := ?i + 1,
    ds_inscnt := int n + 1\<rparr>"
  have le: "length (w @ slot' # ins) + 1 \<le> ds_outpos s + 2" using l1 by (simp split: if_splits)
  have ops: "list_all (op_ok src) ops" "concat (map (apply_op src) ops) = take (?i - n) trg"
    using wr by (simp_all add: written_def)
  have other: "rabin_ok (ds_val s)" "RABIN_WINDOW \<le> ?i + 1"
    using inv data by (auto simp: delta_inv_def)
  have step: "insert_byte trg s = (if int n + 1 = 0x7f then
      rbind (wr_int out (int (ds_outpos s1) - (int n + 1) - 1) (of_int (int n + 1))) (\<lambda>out.
        Inr (s1\<lparr>ds_out := out, ds_inscnt := 0, ds_msize := 0\<rparr>)) else Inr (s1\<lparr>ds_msize := 0\<rparr>))"
    using out(1) data n(1) l1 unfolding insert_byte_def Let_def s1_def by (simp split: if_splits)
  show ?thesis
  proof (cases "n + 1 = 127")
    case True
    then have n127: "int n + 1 = int 127" by simp
    obtain out' where out': "wr_int out (int (length w + 1 + 127) - int 127 - 1) (of_int (int 127)) = Inr out'"
      "length out' = length out" "prefix (w @ encode_op (Insert (ins @ [trg ! ?i]))) out'"
      using flush_ok [of w slot' "ins @ [trg ! ?i]" out 127] out(3) lins True by auto
    have pos: "int (ds_outpos s1) = int (length w + 1 + 127)" using lins True by (simp add: s1_def)
    define s2 where "s2 = s1\<lparr>ds_out := out', ds_inscnt := 0, ds_msize := 0\<rparr>"
    have run: "insert_byte trg s = Inr s2"
      unfolding step n127 pos out'(1) by (simp add: s2_def)
    have all: "take (?i - n) trg @ ins @ [trg ! ?i] = take (?i + 1) trg"
      using ins' ni take_add [of "?i - n" "n + 1" trg] by simp
    have "written src trg (ops @ [Insert (ins @ [trg ! ?i])]) s2 0 0"
      using out'(3) lins True ops all data
      by (simp add: written_def s2_def s1_def pending_def w_def)
    then have "delta_inv src trg s2"
      using other unfolding delta_inv_def by (auto simp: s2_def s1_def match_ok_def)
    then show ?thesis using run out'(2) out(2) le by (simp add: s2_def s1_def)
  next
    case False
    then have run: "insert_byte trg s = Inr (s1\<lparr>ds_msize := 0\<rparr>)" using n(2) unfolding step by simp
    have "written src trg ops (s1\<lparr>ds_msize := 0\<rparr>) (n + 1) slot'"
      using out(3) ops ins' data ni lins
      by (simp add: written_def s1_def pending_def w_def)
    then have "delta_inv src trg (s1\<lparr>ds_msize := 0\<rparr>)"
      using other False n(2) unfolding delta_inv_def
      by (intro conjI exI [of _ ops] exI [of _ "n + 1"] exI [of _ slot']) (auto simp: s1_def match_ok_def)
    then show ?thesis using run out(2) le by (simp add: s1_def)
  qed
qed

text \<open>The first half of a copy: the match moves back over the pending insertion, what is left of the
  insertion becomes an instruction.\<close>

definition settle :: "byte list \<Rightarrow> byte list \<Rightarrow> delta_state \<Rightarrow> delta_state result" where
  "settle src trg s =
     (if ds_inscnt s \<noteq> 0 then
        rbind (match_back (ds_moff s) src trg s) (\<lambda>s.
        rbind (wr_int (ds_out s) (int (ds_outpos s) - ds_inscnt s - 1) (of_int (ds_inscnt s))) (\<lambda>out.
          Inr (s\<lparr>ds_out := out, ds_inscnt := 0\<rparr>)))
      else Inr s)"

definition settled :: "byte list \<Rightarrow> byte list \<Rightarrow> delta_state \<Rightarrow> delta_state \<Rightarrow> nat \<Rightarrow> bool" where
  "settled src trg s s1 k \<longleftrightarrow>
     (\<exists>ops. written src trg ops s1 0 0) \<and> ds_inscnt s1 = 0 \<and> k < 127 \<and> k \<le> ds_data s \<and>
     ds_data s1 = ds_data s - k \<and> ds_msize s1 = ds_msize s + k \<and> ds_val s1 = ds_val s \<and>
     length (ds_out s1) = length (ds_out s) \<and> ds_outpos s1 \<le> ds_outpos s \<and>
     ds_moff s1 < 2 ^ 32 \<and> ds_moff s1 + ds_msize s1 \<le> length src \<and> ds_data s1 + ds_msize s1 \<le> length trg \<and>
     take (ds_msize s1) (drop (ds_moff s1) src) = take (ds_msize s1) (drop (ds_data s1) trg)"

lemma settle_ok:
  assumes inv: "delta_inv src trg s" and msize: "0 < ds_msize s" and room: "ds_outpos s < length (ds_out s)"
  shows "\<exists>s1 k. settle src trg s = Inr s1 \<and> settled src trg s s1 k"
proof -
  obtain ops n slot where n: "ds_inscnt s = int n" "n < 127" and wr: "written src trg ops s n slot"
    using inv by (auto simp: delta_inv_def)
  have m: "match_ok src trg (ds_data s) (ds_moff s) (ds_msize s)" using inv by (simp add: delta_inv_def)
  define w where "w = delta_hdr src trg @ concat (map encode_op ops)"
  have ni: "n \<le> ds_data s" and dl: "ds_data s \<le> length trg" and ops: "list_all (op_ok src) ops"
    "concat (map (apply_op src) ops) = take (ds_data s - n) trg"
    using wr by (simp_all add: written_def)
  show ?thesis
  proof (cases "n = 0")
    case True
    then have "written src trg ops s 0 0" using wr by (simp add: written_def pending_def)
    then show ?thesis
      using True n m msize by (intro exI [of _ s] exI [of _ 0]) (auto simp: settle_def settled_def match_ok_def)
  next
    case False
    have pre: "prefix (w @ slot # take n (drop (ds_data s - n) trg)) (ds_out s)"
      and pos: "ds_outpos s = length w + 1 + n"
      using wr False ni dl by (simp_all add: written_def pending_def w_def)
    have ml: "ds_moff s \<le> length src" using m msize by (simp add: match_ok_def)
    let ?b = "\<lambda>k. s\<lparr>ds_msize := ds_msize s + k, ds_moff := ds_moff s - k,
      ds_data := ds_data s - k, ds_outpos := ds_outpos s - (if k = n then n + 1 else k),
      ds_inscnt := (if k = n then -1 else int (n - k))\<rparr>"
    obtain k where k: "k \<le> n" "k \<le> ds_moff s"
      and bk: "match_back (ds_moff s) src trg s = Inr (?b k)"
      and same: "take k (drop (ds_moff s - k) src) = take k (drop (ds_data s - k) trg)"
      using match_back_ok [OF refl n(1) _ ni dl ml] False pos by auto
    have kd: "k \<le> ds_data s" using k(1) ni by simp
    note match = match_ok_back [OF m msize k(2) kd same]
    show ?thesis
    proof (cases "k = n")
      case True
      have lw: "length w < length (ds_out s)" using pos room by simp
      define s1 where "s1 = (?b k)\<lparr>ds_out := (ds_out s)[length w := -1], ds_inscnt := 0\<rparr>"
      have "settle src trg s = Inr s1"
        using False n(1) bk True pos lw by (simp add: settle_def s1_def wr_int_def)
      moreover have "prefix w ((ds_out s)[length w := -1])" using pre by (auto simp: prefix_def)
      then have "written src trg ops s1 0 0"
        using True pos ops dl by (simp add: written_def s1_def pending_def w_def)
      ultimately show ?thesis
        using match True n(2) kd by (intro exI [of _ s1] exI [of _ k]) (auto simp: settled_def s1_def)
    next
      case less: False
      define ins where "ins = take (n - k) (drop (ds_data s - n) trg)"
      have li: "length ins = n - k" using ni dl by (simp add: ins_def)
      have "take n (drop (ds_data s - n) trg) = ins @ drop (n - k) (take n (drop (ds_data s - n) trg))"
        using k(1) append_take_drop_id [of "n - k" "take n (drop (ds_data s - n) trg)"]
        by (simp add: ins_def min_def)
      then have "prefix (w @ slot # ins) (ds_out s)" using pre by (metis append_Cons append_assoc append_prefixD)
      then obtain out where out: "wr_int (ds_out s) (int (length w + 1 + (n - k)) - int (n - k) - 1) (of_int (int (n - k))) = Inr out"
        "length out = length (ds_out s)" "prefix (w @ encode_op (Insert ins)) out"
        using flush_ok [OF _ li] by blast
      define s1 where "s1 = (?b k)\<lparr>ds_out := out, ds_inscnt := 0\<rparr>"
      have pos1: "ds_outpos s - k = length w + 1 + (n - k)" using pos k(1) by simp
      have "settle src trg s = Inr s1"
        using False n(1) bk less out(1) unfolding settle_def s1_def by (simp add: pos1 del: of_nat_diff)
      moreover have "take (ds_data s - n) trg @ ins = take (ds_data s - k) trg"
        using take_add [of "ds_data s - n" "n - k" trg] k(1) ni by (simp add: ins_def)
      then have "written src trg (ops @ [Insert ins]) s1 0 0"
        using out(3) li pos1 less k(1) n(2) ops dl by (auto simp: written_def s1_def pending_def w_def)
      ultimately show ?thesis
        using match k(1) n(2) kd less out(2) by (intro exI [of _ s1] exI [of _ k]) (auto simp: settled_def s1_def)
    qed
  qed
qed

lemma copy_match_settle:
  "copy_match src trg s = rbind (settle src trg s) (\<lambda>s.
     let left = (if ds_msize s < 0x10000 then 0 else (ds_msize s - 0x10000) mod 2 ^ 32);
         msize = ds_msize s - left in
     rbind (put_copy (ds_moff s) msize (ds_out s) (ds_outpos s)) (\<lambda>(out, outpos).
       let data = ds_data s + msize;
           moff = ds_moff s + msize;
           msize = (if moff > 0xffffffff then 0 else left) in
       rbind (if msize < 4096 then
                rbind (if data < RABIN_WINDOW then Inl Oob
                       else slice trg (data - RABIN_WINDOW) RABIN_WINDOW) (rabin_window 0)
              else Inr (ds_val s)) (\<lambda>v.
         Inr (s\<lparr>ds_out := out, ds_outpos := outpos, ds_data := data, ds_moff := moff,
                ds_msize := msize, ds_val := v\<rparr>))))"
  by (simp only: copy_match_def settle_def)

lemma copy_match_ok:
  assumes inv: "delta_inv src trg s" and data: "ds_data s < length trg" and msize: "4 \<le> ds_msize s"
    and room: "ds_outpos s + 7 \<le> length (ds_out s)"
  shows "\<exists>s'. copy_match src trg s = Inr s' \<and> delta_inv src trg s' \<and> ds_data s < ds_data s' \<and>
    length (ds_out s') = length (ds_out s) \<and> ds_outpos s' \<le> ds_outpos s + 7"
proof -
  obtain s1 k where st: "settle src trg s = Inr s1" and sd: "settled src trg s s1 k"
    using settle_ok [OF inv] msize room by fastforce
  obtain ops where wr: "written src trg ops s1 0 0" using sd by (auto simp: settled_def)
  define w where "w = delta_hdr src trg @ concat (map encode_op ops)"
  have pre: "prefix w (ds_out s1)" and pos: "ds_outpos s1 = length w"
    and ops: "list_all (op_ok src) ops" "concat (map (apply_op src) ops) = take (ds_data s1) trg"
    using wr by (simp_all add: written_def pending_def w_def)
  have k: "k < 127" "k \<le> ds_data s" "ds_data s1 = ds_data s - k" "ds_msize s1 = ds_msize s + k"
    and same: "ds_inscnt s1 = 0" "ds_val s1 = ds_val s" "length (ds_out s1) = length (ds_out s)" "ds_outpos s1 \<le> ds_outpos s"
    and m: "ds_moff s1 < 2 ^ 32" "ds_moff s1 + ds_msize s1 \<le> length src" "ds_data s1 + ds_msize s1 \<le> length trg"
      "take (ds_msize s1) (drop (ds_moff s1) src) = take (ds_msize s1) (drop (ds_data s1) trg)"
    using sd unfolding settled_def by blast+
  have small: "ds_msize s < 2 ^ 32" using inv msize by (auto simp: delta_inv_def match_ok_def)
  define left where "left = (if ds_msize s1 < 0x10000 then 0 else (ds_msize s1 - 0x10000) mod 2 ^ 32)"
  define n where "n = ds_msize s1 - left"
  have left: "left = ds_msize s1 - n" "n = min (ds_msize s1) 0x10000" "left < 2 ^ 32" "ds_msize s1 = n + left"
    using small k(1,4) by (auto simp: left_def n_def)
  have n0: "0 < n" "n \<le> 0x10000" "n \<le> ds_msize s1" using left(2) msize k(4) by auto
  let ?op = "Copy (ds_moff s1) n"
  define out where "out = overwrite (ds_out s1) (w @ encode_op ?op)"
  have put: "put_copy (ds_moff s1) n (ds_out s1) (ds_outpos s1) = Inr (out, length (w @ encode_op ?op))"
    using put_copy_ok [OF pre] room same(3,4) unfolding out_def pos by simp
  have le7: "length (w @ encode_op ?op) \<le> ds_outpos s + 7"
    using length_encode_copy [of "ds_moff s1" n] same(4) pos by (simp del: encode_op.simps)
  then have lout: "length out = length (ds_out s)"
    using room same(3) unfolding out_def by (subst length_overwrite) simp_all
  define data' where "data' = ds_data s1 + n"
  define msize' where "msize' = (if ds_moff s1 + n > 0xffffffff then 0 else left)"
  have grow: "ds_data s < data'" using k left(2) msize by (auto simp: data'_def)
  have top: "data' \<le> length trg" using m(3) n0(3) by (simp add: data'_def)
  have win: "RABIN_WINDOW \<le> data'" using inv data grow by (auto simp: delta_inv_def)
  obtain v where v: "(if msize' < 4096 then
      rbind (if data' < RABIN_WINDOW then Inl Oob else slice trg (data' - RABIN_WINDOW) RABIN_WINDOW) (rabin_window 0)
      else Inr (ds_val s1)) = Inr v" and rv: "rabin_ok v"
    using win top inv rabin_window_ok [of 0] same(2)
    by (cases "msize' < 4096") (auto simp: delta_inv_def)
  define s' where "s' = s1\<lparr>ds_out := out, ds_outpos := length (w @ encode_op ?op), ds_data := data',
    ds_moff := ds_moff s1 + n, ds_msize := msize', ds_val := v\<rparr>"
  have run: "copy_match src trg s = Inr s'"
    unfolding copy_match_settle st rbind_simps Let_def left_def [symmetric] n_def [symmetric] put prod.case
      data'_def [symmetric] msize'_def [symmetric] v s'_def ..
  have sub: "take n (drop (ds_moff s1) src) = take n (drop (ds_data s1) trg)"
    using arg_cong [OF m(4), of "take n"] n0(3) by (simp add: min_absorb1)
  have rest: "take left (drop (ds_moff s1 + n) src) = take left (drop data' trg)"
    using arg_cong [OF m(4), of "drop n"] by (simp add: left(4) drop_take data'_def add.commute)
  have "take (ds_data s1) trg @ take n (drop (ds_moff s1) src) = take data' trg"
    by (simp add: sub data'_def take_add)
  moreover have "prefix (w @ encode_op ?op) out" by (simp only: out_def overwrite_prefix)
  moreover have "op_ok src ?op" using m(1,2) n0 by simp
  ultimately have "written src trg (ops @ [?op]) s' 0 0"
    using ops top by (simp add: written_def pending_def s'_def w_def del: encode_op.simps)
  moreover have "match_ok src trg data' (ds_moff s1 + n) msize'"
    using rest left(3,4) m(2,3) by (auto simp: match_ok_def msize'_def data'_def)
  ultimately have "delta_inv src trg s'"
    unfolding delta_inv_def using same(1) rv win by (intro conjI exI [of _ "ops @ [?op]"] exI [of _ 0]) (auto simp: s'_def)
  then show ?thesis using run grow lout le7 by (simp add: s'_def)
qed

subsection \<open>The main loop\<close>

definition outsize_ok :: "nat \<Rightarrow> nat \<Rightarrow> bool" where
  "outsize_ok max_size n \<longleftrightarrow>
     (max_size = 0 \<or> n < max_size) \<and> 8192 \<le> n \<or> max_size \<noteq> 0 \<and> n = max_size + MAX_OP_SIZE + 1"

lemma grow_out_ok:
  assumes inv: "delta_inv src trg s" and size: "outsize_ok max_size (length (ds_out s))"
    and room: "ds_outpos s \<le> length (ds_out s)"
  shows "case grow_out alloc junk max_size s of
      None \<Rightarrow> max_size \<noteq> 0 \<and> max_size < ds_outpos s
    | Some None \<Rightarrow> \<exists>n. \<not> alloc n
    | Some (Some s') \<Rightarrow> delta_inv src trg s' \<and> outsize_ok max_size (length (ds_out s')) \<and>
        ds_outpos s' + 7 \<le> length (ds_out s') \<and> ds_data s' = ds_data s"
proof (cases "length (ds_out s) - MAX_OP_SIZE \<le> ds_outpos s")
  case False
  then show ?thesis using inv size by (simp add: grow_out_def MAX_OP_SIZE_def RABIN_WINDOW_def)
next
  case True
  define n where "n = length (ds_out s)"
  define n1 where "n1 = (if max_size \<noteq> 0 \<and> n * 3 div 2 \<ge> max_size then max_size + MAX_OP_SIZE + 1 else n * 3 div 2)"
  have step: "grow_out alloc junk max_size s = (if max_size \<noteq> 0 \<and> max_size < ds_outpos s then None
      else if \<not> alloc n1 then Some None else Some (Some (s\<lparr>ds_out := realloc_out junk (ds_out s) n1\<rparr>)))"
    using True by (simp add: grow_out_def Let_def n_def n1_def)
  have max: "MAX_OP_SIZE = 34" by (simp add: MAX_OP_SIZE_def RABIN_WINDOW_def)
  have n1: "n \<le> n1" "outsize_ok max_size n1"
    using size by (auto simp: outsize_ok_def n1_def n_def [symmetric] max)
  have room1: "ds_outpos s + 7 \<le> n1" if "\<not> (max_size \<noteq> 0 \<and> max_size < ds_outpos s)"
    using that size room by (auto simp: outsize_ok_def n1_def n_def [symmetric] max)
  define out where "out = realloc_out junk (ds_out s) n1"
  have "out = ds_out s @ replicate (n1 - n) junk" using n1(1) by (simp add: out_def realloc_out_def n_def)
  then have pre: "prefix w (ds_out s) \<Longrightarrow> prefix w out" and len: "length out = n1" for w
    using n1(1) by (auto simp: n_def)
  have "delta_inv src trg (s\<lparr>ds_out := out\<rparr>)"
    using inv pre by (auto simp: delta_inv_def written_def Let_def)
  then show ?thesis using n1(2) room1 len unfolding step out_def [symmetric] by auto
qed

lemma create_delta_loop_ok:
  assumes index: "index_ok src index" and "delta_inv src trg s" and "outsize_ok max_size (length (ds_out s))"
    and "ds_outpos s + 7 \<le> length (ds_out s)" and "length trg - ds_data s < fuel"
  shows "case create_delta_loop alloc junk index trg max_size fuel s of
      Inl f \<Rightarrow> False
    | Inr None \<Rightarrow> \<exists>n. \<not> alloc n
    | Inr (Some s') \<Rightarrow> delta_inv src trg s' \<and> ds_outpos s' \<le> length (ds_out s') \<and>
        (ds_data s' = length trg \<or> max_size \<noteq> 0 \<and> max_size < ds_outpos s')"
  using assms(2-5)
proof (induction fuel arbitrary: s)
  case (Suc fuel)
  show ?case
  proof (cases "ds_data s < length trg")
    case False
    moreover have "ds_data s \<le> length trg" using Suc.prems(1) by (auto simp: delta_inv_def written_def)
    ultimately show ?thesis using Suc.prems by simp
  next
    case True
    obtain s1 where look: "look_up index trg s = Inr s1" and inv1: "delta_inv src trg s1"
      and s1: "ds_data s1 = ds_data s" "ds_out s1 = ds_out s" "ds_outpos s1 = ds_outpos s"
      using look_up_ok [OF index Suc.prems(1) True] by force
    obtain s2 where two: "(if ds_msize s1 < 4 then insert_byte trg s1 else copy_match src trg s1) = Inr s2"
      and inv2: "delta_inv src trg s2" and s2: "ds_data s < ds_data s2" "length (ds_out s2) = length (ds_out s)"
        "ds_outpos s2 \<le> ds_outpos s + 7"
    proof (cases "ds_msize s1 < 4")
      case small: True
      then show ?thesis
        using that insert_byte_ok [of src trg s1] inv1 s1 True Suc.prems(3) by fastforce
    next
      case False
      then show ?thesis
        using that copy_match_ok [of src trg s1] inv1 s1 True Suc.prems(3) by fastforce
    qed
    have src: "di_src_buf index = src" using index by (simp add: index_ok_def)
    have step: "create_delta_loop alloc junk index trg max_size (Suc fuel) s =
      (case grow_out alloc junk max_size s2 of
            None \<Rightarrow> Inr (Some s2)
          | Some None \<Rightarrow> Inr None
          | Some (Some s) \<Rightarrow> create_delta_loop alloc junk index trg max_size fuel s)"
      using True by (simp only: create_delta_loop.simps look rbind_simps src if_True two)
    have pos2: "ds_outpos s2 \<le> length (ds_out s2)" using s2 Suc.prems(3) by simp
    have grow: "case grow_out alloc junk max_size s2 of
      None \<Rightarrow> max_size \<noteq> 0 \<and> max_size < ds_outpos s2
    | Some None \<Rightarrow> \<exists>n. \<not> alloc n
    | Some (Some s') \<Rightarrow> delta_inv src trg s' \<and> outsize_ok max_size (length (ds_out s')) \<and>
        ds_outpos s' + 7 \<le> length (ds_out s') \<and> ds_data s' = ds_data s2"
      using grow_out_ok [OF inv2 _ pos2] Suc.prems(2) s2(2) by simp
    show ?thesis
    proof (cases "grow_out alloc junk max_size s2")
      case None
      then show ?thesis using grow inv2 pos2 unfolding step by simp
    next
      case (Some r)
      show ?thesis
      proof (cases r)
        case None
        then show ?thesis using grow Some unfolding step by simp
      next
        case r: (Some s3)
        have s3: "delta_inv src trg s3" "outsize_ok max_size (length (ds_out s3))"
          "ds_outpos s3 + 7 \<le> length (ds_out s3)" "length trg - ds_data s3 < fuel"
          using grow Some r Suc.prems(4) s2(1) True by auto
        show ?thesis using Suc.IH [OF s3] unfolding step Some r by simp
      qed
    qed
  qed
qed simp

subsection \<open>The whole delta\<close>

definition sizes_ok :: "byte list \<Rightarrow> byte list \<Rightarrow> nat \<Rightarrow> bool" where
  "sizes_ok src trg max_size \<longleftrightarrow>
     length src < 2 ^ 64 \<and> length trg < 2 ^ 64 - 1 \<and>
     (max_size = 0 \<or> 9 \<le> max_size \<or> length src < 2 ^ 35 \<and> length trg < 2 ^ 35)"

lemma delta_hdr_fits:
  assumes "sizes_ok src trg max_size" and "outsize_ok max_size n"
  shows "length (delta_hdr src trg) + 24 \<le> n"
proof -
  have ten: "length (encode_hdr_size l) \<le> 10" if "l < 2 ^ 64" for l
    using length_encode_hdr_size [of l 9] that by simp
  have five: "length (encode_hdr_size l) \<le> 5" if "l < 2 ^ 35" for l
    using length_encode_hdr_size [of l 4] that by simp
  have "length (delta_hdr src trg) \<le> 20"
    using ten [of "length src"] ten [of "length trg"] assms(1) by (simp add: sizes_ok_def delta_hdr_def)
  moreover have "length (delta_hdr src trg) \<le> 10" if "max_size \<noteq> 0" "max_size < 9"
    using five [of "length src"] five [of "length trg"] assms(1) that by (simp add: sizes_ok_def delta_hdr_def)
  ultimately show ?thesis
    using assms(2) by (cases "max_size < 9") (auto simp: outsize_ok_def MAX_OP_SIZE_def RABIN_WINDOW_def)
qed

lemma create_delta_start_ok:
  assumes index: "index_ok src index" and ne: "trg \<noteq> []"
    and room: "length (delta_hdr src trg) + 24 \<le> length out"
  shows "\<exists>s. create_delta_start index trg out = Inr s \<and> delta_inv src trg s \<and>
    length (ds_out s) = length out \<and> ds_outpos s + 7 \<le> length out"
proof -
  let ?h1 = "encode_hdr_size (length src)" and ?h2 = "encode_hdr_size (length trg)"
  have sz: "di_src_size index = length src" using index by (simp add: index_ok_def)
  have len: "length ?h1 + length ?h2 + 24 \<le> length out" using room by (simp add: delta_hdr_def)
  obtain o1 where o1: "store_size (length src) out 0 = Inr (o1, length ?h1)" "length o1 = length out" "prefix ?h1 o1"
    using store_size_ok [of "[]" out "length src"] len by auto
  obtain o2 where o2: "store_size (length trg) o1 (length ?h1) = Inr (o2, length (?h1 @ ?h2))"
    "length o2 = length out" "prefix (?h1 @ ?h2) o2"
    using store_size_ok [OF o1(3), of "length trg"] o1(2) len by auto
  obtain x where x: "prefix (delta_hdr src trg @ [x]) o2"
    using skip_prefix [OF o2(3)] o2(2) len by (auto simp: delta_hdr_def)
  let ?w = "delta_hdr src trg @ [x]" and ?n = "min RABIN_WINDOW (length trg)"
  obtain o3 v where o3: "first_window RABIN_WINDOW trg o2 (length ?w) 0 0 = Inr (o3, length ?w + ?n, ?n, v)"
    "length o3 = length out" "prefix (?w @ take RABIN_WINDOW trg) o3" "rabin_ok v"
    using first_window_ok [OF x, of RABIN_WINDOW 0 trg 0] o2(2) room by (auto simp: RABIN_WINDOW_def)
  define s where "s = \<lparr>ds_out = o3, ds_outpos = length ?w + ?n, ds_data = ?n, ds_val = v,
    ds_inscnt = int ?n, ds_moff = 0, ds_msize = 0\<rparr>"
  have "length (?h1 @ ?h2) + 1 = length ?w" by (simp add: delta_hdr_def)
  then have "create_delta_start index trg out = Inr s"
    unfolding create_delta_start_def sz o1(1) rbind_simps prod.case o2(1) by (simp only: o3(1) rbind_simps prod.case s_def)
  moreover have "take ?n trg = take RABIN_WINDOW trg" by (simp add: min_def)
  then have "written src trg [] s ?n x"
    using o3(3) ne by (auto simp: written_def s_def pending_def RABIN_WINDOW_def)
  then have "delta_inv src trg s"
    unfolding delta_inv_def using o3(4) by (auto simp: s_def match_ok_def RABIN_WINDOW_def)
  moreover have "ds_outpos s + 7 \<le> length out" using room by (simp add: s_def RABIN_WINDOW_def)
  ultimately show ?thesis using o3(2) by (simp add: s_def)
qed

lemma create_delta_finish_ok:
  assumes inv: "delta_inv src trg s" and room: "ds_outpos s \<le> length (ds_out s)"
  shows "(max_size \<noteq> 0 \<and> max_size < ds_outpos s \<longrightarrow> create_delta_finish max_size s = Inr None) \<and>
    (\<not> (max_size \<noteq> 0 \<and> max_size < ds_outpos s) \<and> ds_data s = length trg \<longrightarrow>
      (\<exists>ops. create_delta_finish max_size s = Inr (Some (delta_hdr src trg @ concat (map encode_op ops))) \<and>
         ds_outpos s = length (delta_hdr src trg @ concat (map encode_op ops)) \<and>
         list_all (op_ok src) ops \<and> concat (map (apply_op src) ops) = trg))"
proof -
  obtain ops n slot where n: "ds_inscnt s = int n" "n < 127" and wr: "written src trg ops s n slot"
    using inv by (auto simp: delta_inv_def)
  define w where "w = delta_hdr src trg @ concat (map encode_op ops)"
  have ni: "n \<le> ds_data s" and dl: "ds_data s \<le> length trg" and ops: "list_all (op_ok src) ops"
    "concat (map (apply_op src) ops) = take (ds_data s - n) trg"
    using wr by (simp_all add: written_def)
  show ?thesis
  proof (cases "n = 0")
    case True
    then have "prefix w (ds_out s)" "ds_outpos s = length w" using wr by (simp_all add: written_def pending_def w_def)
    then show ?thesis
      using True n(1) ops by (auto simp: create_delta_finish_def prefix_def w_def)
  next
    case False
    define ins where "ins = take n (drop (ds_data s - n) trg)"
    have li: "length ins = n" using ni dl by (simp add: ins_def)
    have pre: "prefix (w @ slot # ins) (ds_out s)" and pos: "ds_outpos s = length w + 1 + n"
      using wr False li by (simp_all add: written_def pending_def w_def ins_def)
    obtain out where out: "wr_int (ds_out s) (int (length w + 1 + n) - int n - 1) (of_int (int n)) = Inr out"
      "prefix (w @ encode_op (Insert ins)) out"
      using flush_ok [OF pre li] by blast
    have fin: "create_delta_finish max_size s =
        (if max_size \<noteq> 0 \<and> ds_outpos s > max_size then Inr None else Inr (Some (take (ds_outpos s) out)))"
      using False out(1) unfolding create_delta_finish_def n(1) pos by simp
    have "take (ds_outpos s) out = w @ encode_op (Insert ins)"
      using out(2) pos li by (auto simp: prefix_def)
    moreover have "concat (map (apply_op src) (ops @ [Insert ins])) = take (ds_data s) trg"
      using ops(2) take_add [of "ds_data s - n" n trg] ni by (simp add: ins_def)
    moreover have "list_all (op_ok src) (ops @ [Insert ins])" using ops(1) li n(2) False by simp
    moreover have "ds_outpos s = length (w @ encode_op (Insert ins))" using pos li by simp
    ultimately show ?thesis
      unfolding fin by (intro conjI impI exI [of _ "ops @ [Insert ins]"]) (auto simp: w_def)
  qed
qed

lemma delta_min_length:
  assumes "list_all (op_ok src) ops" and "concat (map (apply_op src) ops) \<noteq> []"
  shows "4 \<le> length (delta_hdr src trg @ concat (map encode_op ops))"
proof -
  have h: "0 < length (encode_hdr_size l)" for l using encode_hdr_size_not_Nil by simp
  obtain op ops' where o: "ops = op # ops'" using assms(2) by (cases ops) auto
  show ?thesis
  proof (cases op)
    case (Insert bs)
    then show ?thesis
      using assms(1) o h [of "length src"] h [of "length trg"] by (cases bs) (simp_all add: delta_hdr_def del: length_greater_0_conv)
  next
    case (Copy off n)
    then have n: "0 < n" "n \<le> 0x10000" "off + n \<le> length src" using assms(1) o by simp_all
    show ?thesis
    proof (cases "n = 0x10000")
      case True
      then have "128 \<le> length src" using n(3) by simp
      then have "2 \<le> length (encode_hdr_size (length src))"
        using h [of "length src div 128"] by (simp add: encode_hdr_size.simps [of "length src"] del: length_greater_0_conv)
      then show ?thesis using Copy o h [of "length trg"] by (simp add: delta_hdr_def del: length_greater_0_conv)
    next
      case False
      have "byte_of 0 n \<noteq> 0 \<or> byte_of 1 n \<noteq> 0"
      proof (rule ccontr)
        assume "\<not> ?thesis"
        then have "n mod 256 = 0" "n div 256 mod 256 = 0"
          using unat_byte_of [of 0 n] unat_byte_of [of 1 n] by simp_all
        moreover have "n div 256 < 256" using n(2) False by (simp add: less_mult_imp_div_less)
        ultimately show False using n(1) by (metis div_mult_mod_eq mod_less mult_zero_left add_0 less_irrefl)
      qed
      then have "0 < length (param (byte_of 0 n)) + length (param (byte_of 1 n))" by (auto simp: param_def)
      then show ?thesis
        using Copy o h [of "length src"] h [of "length trg"]
        by (simp add: delta_hdr_def del: length_greater_0_conv add_gr_0)
    qed
  qed
qed

lemma create_delta_ok:
  assumes index: "index_ok src index" and ne: "trg \<noteq> []" and sizes: "sizes_ok src trg max_size"
  shows "case create_delta alloc junk index trg max_size of
      Inl f \<Rightarrow> False
    | Inr None \<Rightarrow> max_size \<noteq> 0 \<or> (\<exists>n. \<not> alloc n)
    | Inr (Some delta) \<Rightarrow> patch_delta src delta = Inr (Some trg) \<and> (max_size = 0 \<or> length delta \<le> max_size)"
proof -
  define n where "n = (if max_size \<noteq> 0 \<and> 8192 \<ge> max_size then max_size + MAX_OP_SIZE + 1 else 8192)"
  show ?thesis
  proof (cases "alloc n")
    case False
    then show ?thesis using ne by (auto simp: create_delta_def n_def Let_def)
  next
    case True
    have out: "outsize_ok max_size n" by (auto simp: n_def outsize_ok_def)
    obtain s where start: "create_delta_start index trg (replicate n junk) = Inr s" and inv: "delta_inv src trg s"
      and s: "length (ds_out s) = n" "ds_outpos s + 7 \<le> n"
      using create_delta_start_ok [OF index ne, of "replicate n junk"] delta_hdr_fits [OF sizes out] by auto
    let ?loop = "create_delta_loop alloc junk index trg max_size (length trg + 1) s"
    have run: "create_delta alloc junk index trg max_size = rbind ?loop (\<lambda>r.
        case r of None \<Rightarrow> Inr None | Some s \<Rightarrow> create_delta_finish max_size s)"
      unfolding create_delta_def Let_def n_def [symmetric] start rbind_simps using ne True by simp
    have loop: "case ?loop of
        Inl f \<Rightarrow> False
      | Inr None \<Rightarrow> \<exists>n. \<not> alloc n
      | Inr (Some s') \<Rightarrow> delta_inv src trg s' \<and> ds_outpos s' \<le> length (ds_out s') \<and>
          (ds_data s' = length trg \<or> max_size \<noteq> 0 \<and> max_size < ds_outpos s')"
      by (rule create_delta_loop_ok [OF index inv]) (use out s in simp_all)
    show ?thesis
    proof (cases ?loop)
      case (Inl f)
      with loop show ?thesis by simp
    next
      case (Inr r)
      show ?thesis
      proof (cases r)
        case None
        with Inr loop run show ?thesis by simp
      next
        case (Some s')
        then have s': "delta_inv src trg s'" "ds_outpos s' \<le> length (ds_out s')"
          and fin: "ds_data s' = length trg \<or> max_size \<noteq> 0 \<and> max_size < ds_outpos s'"
          using loop Inr by simp_all
        have run': "create_delta alloc junk index trg max_size = create_delta_finish max_size s'"
          unfolding run Inr Some by simp
        show ?thesis
        proof (cases "max_size \<noteq> 0 \<and> max_size < ds_outpos s'")
          case True
          with create_delta_finish_ok [OF s', of max_size] show ?thesis unfolding run' by simp
        next
          case False
          then obtain ops where f: "create_delta_finish max_size s' = Inr (Some (delta_hdr src trg @ concat (map encode_op ops)))"
            and pos: "ds_outpos s' = length (delta_hdr src trg @ concat (map encode_op ops))"
            and ops: "list_all (op_ok src) ops" "concat (map (apply_op src) ops) = trg"
            using create_delta_finish_ok [OF s', of max_size] fin by blast
          have "patch_delta src (delta_hdr src trg @ concat (map encode_op ops)) = Inr (Some trg)"
            using sizes delta_min_length [OF ops(1), of trg] ops(2) ne
            by (intro patch_delta_ops [OF ops(1)]) (simp_all add: sizes_ok_def delta_hdr_def)
          then show ?thesis using False pos unfolding run' f by auto
        qed
      qed
    qed
  qed
qed

subsection \<open>Properties\<close>

text \<open>C1: what \<^verbatim>\<open>diff_delta()\<close> produces, \<^verbatim>\<open>patch_delta()\<close> undoes.  For every source and target (sizes up
  to 64 bits; with a limit below 9 bytes, sizes up to 35 bits), every behaviour of the allocator
  and every content of fresh memory, generating the delta never reads or writes out of bounds, the
  main loop ends, and the result is either a delta that is no longer than the limit and that rebuilds
  exactly the target from the source, or NULL; NULL only on an empty buffer, when memory runs out
  or when a limit was given.\<close>

theorem diff_delta_roundtrip:
  assumes "sizes_ok src trg max_size"
  shows "case diff_delta alloc junk src trg max_size of
      Inl f \<Rightarrow> False
    | Inr None \<Rightarrow> src = [] \<or> trg = [] \<or> max_size \<noteq> 0 \<or> (\<exists>n. \<not> alloc n)
    | Inr (Some delta) \<Rightarrow> patch_delta src delta = Inr (Some trg) \<and> (max_size = 0 \<or> length delta \<le> max_size)"
proof (cases "src = []")
  case True
  then show ?thesis by (simp add: diff_delta_def create_delta_index_def)
next
  case src: False
  show ?thesis
  proof (cases "\<exists>index. create_delta_index alloc src = Inr (Some index) \<and> index_ok src index")
    case False
    then show ?thesis using create_delta_index_ok [OF src, of alloc] by (auto simp: diff_delta_def)
  next
    case True
    then obtain index where i: "create_delta_index alloc src = Inr (Some index)" "index_ok src index" by blast
    show ?thesis
    proof (cases "trg = []")
      case True
      then show ?thesis by (simp add: diff_delta_def i(1) create_delta_def)
    next
      case False
      from create_delta_ok [OF i(2) False assms, of alloc junk] show ?thesis
        by (auto simp: diff_delta_def i(1) split: sum.splits option.splits)
    qed
  qed
qed

theorem diff_delta_roundtrip_witness:
  "sizes_ok [1, 2, 3] [1, 2, 3, 4] 0 \<and>
   (\<exists>delta. diff_delta (\<lambda>_. True) 0 [1, 2, 3] [1, 2, 3, 4] 0 = Inr (Some delta) \<and>
      patch_delta [1, 2, 3] delta = Inr (Some [1, 2, 3, 4]))"
proof -
  have sizes: "sizes_ok [1, 2, 3] [1, 2, 3, 4] 0" by (simp add: sizes_ok_def)
  from diff_delta_roundtrip [OF this, of "\<lambda>_. True" 0] sizes show ?thesis
    by (auto split: sum.splits option.splits)
qed

end
