(* ===== verification/Git_Pack_Header.thy ===== *)
theory Git_Pack_Header
  imports Git_Varint
begin

unbundle bit_operations_syntax

section \<open>Object headers in a pack: pack-write.c, packfile.c, pack-objects.c\<close>

text \<open>
  Every object of a pack starts with its type and size, the size in groups of four and then
  seven bits, least significant first; an \<^verbatim>\<open>OFS_DELTA\<close> object goes on with the distance back to
  its base, an \<^verbatim>\<open>REF_DELTA\<close> object with the name of its base.

  The mapped window of a pack is an argument: \<open>use_pack pos\<close> is the bytes \<^verbatim>\<open>use_pack()\<close> makes
  available from offset \<open>pos\<close> on, and \<open>find_pack_entry_one name\<close> is the offset the pack index has
  for an object, 0 if it has none.  A pointer into the window is the list of the bytes in front of it.
\<close>

definition OBJ_BAD :: int where "OBJ_BAD = -1"
definition OBJ_COMMIT :: int where "OBJ_COMMIT = 1"
definition OBJ_OFS_DELTA :: int where "OBJ_OFS_DELTA = 6"
definition OBJ_REF_DELTA :: int where "OBJ_REF_DELTA = 7"

lemmas OBJ_defs = OBJ_BAD_def OBJ_COMMIT_def OBJ_OFS_DELTA_def OBJ_REF_DELTA_def

function encode_header_loop :: "nat \<Rightarrow> nat \<Rightarrow> byte \<Rightarrow> u64 \<Rightarrow> byte list result" where
  "encode_header_loop n hdr_len c sz =
     (if sz \<noteq> 0 then
        if n = hdr_len then Inl Died
        else rbind (encode_header_loop (n + 1) hdr_len (ucast (sz AND 0x7f)) (drop_bit 7 sz)) (\<lambda>hdr.
          Inr ((c OR 0x80) # hdr))
      else Inr [c])"
  by auto
termination
proof (relation "measure (\<lambda>(_, _, _, sz). unat sz)", goal_cases)
  case (2 n hdr_len c sz)
  then have "0 < unat sz" by (simp add: word_eq_0_unat)
  then show ?case by (simp add: unat_drop_bit_div)
qed simp

definition encode_in_pack_object_header :: "nat \<Rightarrow> int \<Rightarrow> u64 \<Rightarrow> byte list result" where
  "encode_in_pack_object_header hdr_len type sz =
     (if type < OBJ_COMMIT \<or> type > OBJ_REF_DELTA then Inl Died
      else encode_header_loop 1 hdr_len (push_bit 4 (of_int type) OR ucast (sz AND 15)) (drop_bit 4 sz))"

declare encode_header_loop.simps [simp del]

text \<open>The result is the number of bytes used, the type and the size; 0 bytes stand for an error.\<close>

fun unpack_header_loop :: "byte \<Rightarrow> byte list \<Rightarrow> nat \<Rightarrow> nat \<Rightarrow> u64 \<Rightarrow> (nat \<times> u64) result" where
  "unpack_header_loop c [] used shift sz = (if c AND 0x80 \<noteq> 0 then Inr (0, 0) else Inr (used, sz))"
| "unpack_header_loop c (c' # buf) used shift sz =
     (if c AND 0x80 \<noteq> 0 then
        if 64 - 7 < shift then Inr (0, 0)
        else
          rbind (st_left_shift (ucast c' AND 0x7f) shift) (\<lambda>s.
          rbind (st_add sz s) (\<lambda>sz.
            unpack_header_loop c' buf (used + 1) (shift + 7) sz))
      else Inr (used, sz))"

definition unpack_object_header_buffer :: "byte list \<Rightarrow> (nat \<times> int \<times> u64) result" where
  "unpack_object_header_buffer buf =
     (case buf of
        [] \<Rightarrow> Inl Oob
      | c # buf \<Rightarrow>
          rbind (unpack_header_loop c buf 1 4 (ucast c AND 15)) (\<lambda>(used, sz).
            Inr (used, uint (drop_bit 4 c AND 7), sz)))"

definition unpack_object_header :: "(nat \<Rightarrow> byte list) \<Rightarrow> nat \<Rightarrow> (int \<times> nat \<times> u64) result" where
  "unpack_object_header use_pack curpos =
     rbind (unpack_object_header_buffer (use_pack curpos)) (\<lambda>(used, type, sz).
       if used = 0 then Inr (OBJ_BAD, curpos, sz) else Inr (type, curpos + used, sz))"

text \<open>The distance to the base, as \<^verbatim>\<open>write_no_reuse_object()\<close> stores it at the end of an array of ten
  bytes.\<close>

function ofs_header_loop :: "u64 \<Rightarrow> byte list \<Rightarrow> byte list" where
  "ofs_header_loop ofs dheader =
     (let ofs = drop_bit 7 ofs in
      if ofs \<noteq> 0 then ofs_header_loop (ofs - 1) ((128 OR ucast ((ofs - 1) AND 127)) # dheader)
      else dheader)"
  by auto
termination
proof (relation "measure (\<lambda>(v, _). unat v)", goal_cases)
  case (2 ofs dheader v)
  then have "unat (v - 1) < unat v" by (simp add: measure_unat)
  also have "unat v \<le> unat ofs" using "2"(1) by (simp add: unat_drop_bit_div)
  finally show ?case by simp
qed simp

definition ofs_header :: "u64 \<Rightarrow> byte list" where
  "ofs_header ofs = ofs_header_loop ofs [ucast (ofs AND 127)]"

declare ofs_header_loop.simps [simp del]

text \<open>\<open>Inr None\<close> is the jump out of \<^verbatim>\<open>get_delta_base()\<close> with 0 on an overflow.  The shift of the signed
  \<^verbatim>\<open>off_t\<close> is the shift of its 64 bits, as compilers implement it.\<close>

fun base_offset_loop :: "byte \<Rightarrow> byte list \<Rightarrow> nat \<Rightarrow> u64 \<Rightarrow> (nat \<times> u64) option result" where
  "base_offset_loop c base_info used base_offset =
     (if c AND 128 \<noteq> 0 then
        let base_offset = base_offset + 1 in
        if base_offset = 0 \<or> MSB base_offset 7 \<noteq> 0 then Inr None
        else (case base_info of
                [] \<Rightarrow> Inl Oob
              | c # base_info \<Rightarrow>
                  base_offset_loop c base_info (used + 1) (push_bit 7 base_offset + (ucast c AND 127)))
      else Inr (Some (used, base_offset)))"

declare base_offset_loop.simps [simp del]

definition get_delta_base ::
  "(nat \<Rightarrow> byte list) \<Rightarrow> (byte list \<Rightarrow> nat) \<Rightarrow> nat \<Rightarrow> nat \<Rightarrow> int \<Rightarrow> nat \<Rightarrow> (nat \<times> nat) result"
where
  "get_delta_base use_pack find_pack_entry_one rawsz curpos type delta_obj_offset =
     (let base_info = use_pack curpos in
      if type = OBJ_OFS_DELTA then
        (case base_info of
           [] \<Rightarrow> Inl Oob
         | c # rest \<Rightarrow>
             rbind (base_offset_loop c rest 1 (ucast c AND 127)) (\<lambda>r.
               case r of
                 None \<Rightarrow> Inr (0, curpos)
               | Some (used, ofs) \<Rightarrow>
                   let base_offset = int delta_obj_offset - sint ofs in
                   if base_offset \<le> 0 \<or> base_offset \<ge> int delta_obj_offset then Inr (0, curpos)
                   else Inr (nat base_offset, curpos + used)))
      else if type = OBJ_REF_DELTA then
        rbind (slice base_info 0 rawsz) (\<lambda>oid. Inr (find_pack_entry_one oid, curpos + rawsz))
      else Inl Died)"

subsection \<open>Reading the header that was written\<close>

lemma encode_header_loop_fits:
  assumes "unat sz < 128 ^ k" and "n + k \<le> hdr_len"
  shows "\<exists>hdr. encode_header_loop n hdr_len c sz = Inr hdr \<and> length hdr \<le> k + 1"
  using assms
proof (induction k arbitrary: n c sz)
  case 0
  then have "sz = 0" by (simp add: word_eq_0_unat)
  then show ?case by (simp add: encode_header_loop.simps [of n])
next
  case (Suc k)
  have "unat (drop_bit 7 sz) < 128 ^ k" using Suc.prems(1) by (simp add: unat_drop7 less_mult_imp_div_less mult.commute)
  then obtain hdr where "encode_header_loop (n + 1) hdr_len (ucast (sz AND 0x7f)) (drop_bit 7 sz) = Inr hdr"
    "length hdr \<le> k + 1"
    using Suc.IH [of "drop_bit 7 sz" "n + 1"] Suc.prems(2) by auto
  then show ?case using Suc.prems(2) by (simp add: encode_header_loop.simps [of n])
qed

lemma header_byte:
  assumes "unat (c :: byte) < 128"
  shows "(c OR 0x80) AND 0x80 \<noteq> 0" and "unat (c OR 0x80) mod 128 = unat c" and "c AND 0x80 = 0"
  using assms by (simp_all add: byte_and_128 unat_byte_or_128)

text \<open>At shift \<open>60 - 7 * k\<close> the reader accepts \<open>k\<close> more groups of seven bits.\<close>

lemma unpack_header_loop_encode:
  assumes "encode_header_loop n hdr_len c sz = Inr hdr" and "unat c < 128" and "7 * k \<le> 56"
    and "unat acc < 2 ^ (60 - 7 * k)"
  shows "\<exists>c' tl. hdr = c' # tl \<and> unat c' mod 128 = unat c \<and>
    unpack_header_loop c' (tl @ rest) used (60 - 7 * k) acc =
      Inr (if unat sz < 2 ^ (7 * k) then (used + length tl, of_nat (unat acc + unat sz * 2 ^ (60 - 7 * k))) else (0, 0))"
  using assms
proof (induction n hdr_len c sz arbitrary: hdr k acc used rule: encode_header_loop.induct)
  case (1 n hdr_len c sz)
  note hb = header_byte [OF "1.prems"(2)]
  show ?case
  proof (cases "sz = 0")
    case True
    then have "hdr = [c]" using "1.prems"(1) by (simp add: encode_header_loop.simps [of n])
    with True hb(3) "1.prems"(2) show ?thesis by (cases rest) simp_all
  next
    case False
    let ?c = "ucast (sz AND 0x7f) :: byte"
    obtain hdr' where ne: "n \<noteq> hdr_len" and hdr': "encode_header_loop (n + 1) hdr_len ?c (drop_bit 7 sz) = Inr hdr'"
      and hdr: "hdr = (c OR 0x80) # hdr'"
      using "1.prems"(1) False by (auto simp: encode_header_loop.simps [of n] rbind_eq_Inr split: if_splits)
    have uc: "unat ?c = unat sz mod 128" by (rule unat_low7)
    then have c7: "unat ?c < 128" by simp
    show ?thesis
    proof (cases k)
      case 0
      have "hdr' \<noteq> []" using hdr' by (auto simp: encode_header_loop.simps [of "Suc n"] rbind_eq_Inr split: if_splits)
      then obtain c'' tl where "hdr' = c'' # tl" by (cases hdr') auto
      moreover have "unat sz \<noteq> 0" using False by (simp add: word_eq_0_unat)
      ultimately show ?thesis using hdr hb 0 by simp
    next
      case (Suc k')
      have sh: "60 - 7 * k \<le> 53" "60 - 7 * k' = 60 - 7 * k + 7" using Suc "1.prems"(3) by auto
      let ?sh = "60 - 7 * k"
      have IH: "\<exists>c' tl. hdr' = c' # tl \<and> unat c' mod 128 = unat ?c \<and>
        unpack_header_loop c' (tl @ rest) (used + 1) (60 - 7 * k') acc' =
          Inr (if unat (drop_bit 7 sz) < 2 ^ (7 * k')
               then (used + 1 + length tl, of_nat (unat acc' + unat (drop_bit 7 sz) * 2 ^ (60 - 7 * k'))) else (0, 0))"
        if "unat acc' < 2 ^ (60 - 7 * k')" for acc'
        by (rule "1.IH" [OF False ne hdr' c7 _ that]) (use Suc "1.prems"(3) in simp)
      obtain c' tl where h': "hdr' = c' # tl" and m: "unat c' mod 128 = unat ?c"
        using IH [of 0] by auto
      define d where "d = (ucast c' AND 0x7f :: u64)"
      have ud: "unat d = unat sz mod 128" using m uc by (simp add: d_def unat_low7_byte)
      have small: "unat sz mod 128 * 2 ^ ?sh < 128 * 2 ^ ?sh" by simp
      have p: "(128 :: nat) * 2 ^ ?sh = 2 ^ (60 - 7 * k')" by (simp add: sh(2) power_add)
      have "(2 :: nat) ^ (60 - 7 * k') \<le> 2 ^ 60" by (intro power_increasing) simp_all
      then have lt: "unat sz mod 128 * 2 ^ ?sh < 2 ^ 64" using small p by simp
      have shl: "st_left_shift d ?sh = Inr (push_bit ?sh d)" "unat (push_bit ?sh d) = unat sz mod 128 * 2 ^ ?sh"
        using st_left_shift_unat [of ?sh d] sh(1) ud lt by simp_all
      have sum: "unat acc + unat sz mod 128 * 2 ^ ?sh < 2 ^ (60 - 7 * k')"
      proof -
        have "unat sz mod 128 * 2 ^ ?sh \<le> 127 * 2 ^ ?sh" by simp
        then show ?thesis using "1.prems"(4) p by linarith
      qed
      then have "unat acc + unat sz mod 128 * 2 ^ ?sh < 2 ^ 64"
        using \<open>2 ^ (60 - 7 * k') \<le> 2 ^ 60\<close> by simp
      then have add: "st_add acc (push_bit ?sh d) = Inr (acc + push_bit ?sh d)"
        "unat (acc + push_bit ?sh d) = unat acc + unat sz mod 128 * 2 ^ ?sh"
        using st_add_unat [of acc "push_bit ?sh d"] shl(2) by simp_all
      have step: "unpack_header_loop (c OR 0x80) (c' # tl @ rest) used ?sh acc =
          unpack_header_loop c' (tl @ rest) (used + 1) (60 - 7 * k') (acc + push_bit ?sh d)"
        using hb(1) sh shl(1) add(1) by (simp add: d_def [symmetric])
      have "unat sz mod 128 * 2 ^ ?sh + unat sz div 128 * 2 ^ (60 - 7 * k') = unat sz * 2 ^ ?sh"
      proof -
        have "unat sz mod 128 * 2 ^ ?sh + unat sz div 128 * 2 ^ (60 - 7 * k')
            = (unat sz div 128 * 128 + unat sz mod 128) * 2 ^ ?sh"
          by (simp only: p [symmetric] add_mult_distrib mult.assoc add.commute)
        then show ?thesis by (simp only: div_mult_mod_eq)
      qed
      moreover have "unat sz div 128 < 2 ^ (7 * k') \<longleftrightarrow> unat sz < 2 ^ (7 * k)"
        by (simp add: Suc div_less_iff_less_mult power_add mult.commute)
      ultimately show ?thesis
        using IH [of "acc + push_bit ?sh d"] sum add(2) h' hb(2) hdr step
        by (simp add: unat_drop7 add.assoc)
    qed
  qed
qed

definition MAX_PACK_OBJECT_HEADER :: nat where
  "MAX_PACK_OBJECT_HEADER = 10"

lemma unat_first_byte:
  assumes "t < 8"
  shows "unat (push_bit 4 (of_nat t) OR ucast (sz AND 15 :: u64) :: byte) = t * 16 + unat sz mod 16"
proof -
  have low: "unat (ucast (sz AND 15) :: byte) = unat sz mod 16" by (simp add: unat_simps)
  have high: "unat (push_bit 4 (of_nat t) :: byte) = t * 16"
    using assms by (simp add: unat_push_bit_mod unat_of_nat)
  show ?thesis
    using unat_or_add' [of "ucast (sz AND 15) :: byte" 4 "push_bit 4 (of_nat t)"] by (simp add: low high)
qed

lemma first_byte_fields:
  assumes "unat (c :: byte) mod 128 = t * 16 + unat (sz :: u64) mod 16" and "t < 8"
  shows "unat (ucast c AND 15 :: u64) = unat sz mod 16" and "uint (drop_bit 4 c AND 7) = int t"
proof -
  have "unat c mod 16 = unat c mod 128 mod 16" by (simp add: mod_mod_cancel)
  then show "unat (ucast c AND 15 :: u64) = unat sz mod 16"
    using unat_less [of c] assms(1) by (simp add: unat_simps)
  have m7: "(7 :: byte) = mask 3" by (simp add: mask_eq_exp_minus_1)
  have "unat c div 16 mod 8 = unat c mod 128 div 16" using mod_mult2_eq [of "unat c" 16 8] by simp
  then have "unat (drop_bit 4 c AND 7) = t" using assms(1) by (simp add: m7 unat_and_mask unat_drop_bit_div)
  then show "uint (drop_bit 4 c AND 7) = int t" by (simp add: uint_nat)
qed

lemma unpack_encode_header:
  assumes "OBJ_COMMIT \<le> type" and "type \<le> OBJ_REF_DELTA"
  shows "\<exists>hdr. encode_in_pack_object_header MAX_PACK_OBJECT_HEADER type sz = Inr hdr \<and>
    length hdr \<le> MAX_PACK_OBJECT_HEADER \<and>
    unpack_object_header_buffer (hdr @ rest) = Inr (if unat sz < 2 ^ 60 then (length hdr, type, sz) else (0, type, 0))"
proof -
  define t where "t = nat type"
  have t: "type = int t" "t < 8" using assms by (simp_all add: t_def OBJ_defs)
  let ?c = "push_bit 4 (of_int type) OR ucast (sz AND 15) :: byte"
  have uc: "unat ?c = t * 16 + unat sz mod 16" using unat_first_byte [OF t(2), of sz] t(1) by simp
  then have c128: "unat ?c < 128" using t(2) by simp
  have rest60: "unat (drop_bit 4 sz) = unat sz div 16" by (simp add: unat_drop_bit_div)
  obtain hdr where hdr: "encode_header_loop 1 10 ?c (drop_bit 4 sz) = Inr hdr" "length hdr \<le> 10"
  proof -
    have "unat sz div 16 < 128 ^ 9" using unat_less [of sz] by simp
    then show ?thesis
      using encode_header_loop_fits [of "drop_bit 4 sz" 9 1 10 ?c] rest60 that by (simp del: One_nat_def) blast
  qed
  define acc :: u64 where "acc = of_nat (unat sz mod 16)"
  have acc: "unat acc = unat sz mod 16" by (simp add: acc_def unat_of_nat)
  have "unat acc < 2 ^ (60 - 7 * 8)" by (simp add: acc)
  from unpack_header_loop_encode [OF hdr(1) c128 _ this, of rest 1]
  obtain c' tl where h: "hdr = c' # tl" and m: "unat c' mod 128 = unat ?c"
    and run: "unpack_header_loop c' (tl @ rest) 1 4 acc = Inr (if unat (drop_bit 4 sz) < 2 ^ 56
        then (1 + length tl, of_nat (unat acc + unat (drop_bit 4 sz) * 2 ^ 4)) else (0, 0))"
    by auto
  note f = first_byte_fields [OF m [unfolded uc] t(2)]
  have "ucast c' AND 15 = acc" by (simp only: word_unat_eq_iff f(1) acc)
  moreover have "unat acc + unat (drop_bit 4 sz) * 2 ^ 4 = unat sz" by (simp add: acc rest60)
  moreover have "unat (drop_bit 4 sz) < 2 ^ 56 \<longleftrightarrow> unat sz < 2 ^ 60"
    by (simp add: rest60 div_less_iff_less_mult)
  ultimately have "unpack_object_header_buffer (hdr @ rest)
      = Inr (if unat sz < 2 ^ 60 then (length hdr, type, sz) else (0, type, 0))"
    using run f(2) t(1) by (simp add: unpack_object_header_buffer_def h)
  moreover have "encode_in_pack_object_header MAX_PACK_OBJECT_HEADER type sz = Inr hdr"
    using hdr(1) assms by (simp add: encode_in_pack_object_header_def MAX_PACK_OBJECT_HEADER_def)
  ultimately show ?thesis using hdr(2) by (simp add: MAX_PACK_OBJECT_HEADER_def)
qed

subsection \<open>Distances to a delta base\<close>

lemma ofs_header_loop_varint: "ofs_header_loop ofs acc = encode_varint_loop ofs acc"
proof (induction ofs acc rule: ofs_header_loop.induct)
  case (1 ofs acc)
  then show ?case
    by (simp add: ofs_header_loop.simps [of ofs acc] encode_varint_loop.simps [of ofs acc] Let_def)
qed

lemma ofs_header_varint: "ofs_header ofs = encode_varint ofs"
  by (simp add: ofs_header_def encode_varint_def ofs_header_loop_varint)

lemma base_offset_loop_varint:
  "base_offset_loop c bs used v = rbind (decode_varint_loop v c bs) (\<lambda>r.
     Inr (map_option (\<lambda>(v, rest). (used + (length bs - length rest), v)) r)) \<and>
   (\<forall>v' rest. decode_varint_loop v c bs = Inr (Some (v', rest)) \<longrightarrow> length rest \<le> length bs)"
proof (induction c bs used v rule: base_offset_loop.induct)
  case (1 c bs used v)
  show ?case
  proof (cases "c AND 128 \<noteq> 0 \<and> \<not> (v + 1 = 0 \<or> MSB (v + 1) 7 \<noteq> 0)")
    case False
    then show ?thesis
      by (auto simp: base_offset_loop.simps [of c] decode_varint_loop.simps [of v] Let_def)
  next
    case True
    show ?thesis
    proof (cases bs)
      case Nil
      with True show ?thesis by (simp add: base_offset_loop.simps [of c] decode_varint_loop.simps [of v] Let_def)
    next
      case (Cons c' bs')
      with True have IH: "base_offset_loop c' bs' (used + 1) (push_bit 7 (v + 1) + (ucast c' AND 127)) =
          rbind (decode_varint_loop (push_bit 7 (v + 1) + (ucast c' AND 127)) c' bs') (\<lambda>r.
            Inr (map_option (\<lambda>(v, rest). (used + 1 + (length bs' - length rest), v)) r)) \<and>
        (\<forall>v' rest. decode_varint_loop (push_bit 7 (v + 1) + (ucast c' AND 127)) c' bs' = Inr (Some (v', rest)) \<longrightarrow>
           length rest \<le> length bs')"
        using "1.IH" [OF _ refl _ Cons] by blast
      have step: "base_offset_loop c bs used v = base_offset_loop c' bs' (used + 1) (push_bit 7 (v + 1) + (ucast c' AND 127))"
        "decode_varint_loop v c bs = decode_varint_loop (push_bit 7 (v + 1) + (ucast c' AND 127)) c' bs'"
        using True Cons by (simp_all add: base_offset_loop.simps [of c] decode_varint_loop.simps [of v] Let_def)
      show ?thesis
      proof (cases "decode_varint_loop v c bs")
        case (Inl e)
        then show ?thesis using IH unfolding step by simp
      next
        case (Inr r)
        show ?thesis
        proof (cases r)
          case None
          then show ?thesis using Inr IH unfolding step by simp
        next
          case (Some p)
          then show ?thesis using Inr IH Cons unfolding step by (cases p) (auto simp: Suc_diff_le)
        qed
      qed
    qed
  qed
qed

lemma base_offset_loop_encode:
  assumes "encode_varint ofs @ rest = c # bs"
  shows "base_offset_loop c bs 1 (ucast c AND 127) = Inr (Some (length (encode_varint ofs), ofs))"
proof -
  have "decode_varint (c # bs) = Inr (ofs, rest)" using decode_encode_varint [of ofs rest] assms by simp
  moreover have "rest \<noteq> c # bs"
  proof
    assume "rest = c # bs"
    then have "encode_varint ofs = []" using assms by simp
    then show False using decode_encode_varint [of ofs "[]"] by (simp add: decode_varint_def)
  qed
  ultimately have d: "decode_varint_loop (ucast c AND 127) c bs = Inr (Some (ofs, rest))"
    by (auto simp: decode_varint_def rbind_eq_Inr split: option.splits)
  have "length (encode_varint ofs) + length rest = 1 + length bs" using arg_cong [OF assms, of length] by simp
  then show ?thesis
    using base_offset_loop_varint [of c bs 1 "ucast c AND 127"] d by auto
qed

subsection \<open>Properties\<close>

text \<open>C7: an object header that is written for a type from 1 to 7 fits the ten bytes the writers reserve
  for it.  Reading it back at its offset in the pack gives the type and the size and moves the
  offset behind the header, except that a size of \<open>2^60\<close> or more, which the writer accepts, is
  rejected by the reader as a bad object header.\<close>

theorem pack_header_roundtrip:
  assumes "OBJ_COMMIT \<le> type" and "type \<le> OBJ_REF_DELTA"
  shows "\<exists>hdr. encode_in_pack_object_header MAX_PACK_OBJECT_HEADER type sz = Inr hdr \<and>
    length hdr \<le> MAX_PACK_OBJECT_HEADER \<and>
    unpack_object_header (\<lambda>pos. drop pos (before @ hdr @ rest)) (length before) =
      Inr (if unat sz < 2 ^ 60 then (type, length before + length hdr, sz) else (OBJ_BAD, length before, 0))"
proof -
  obtain hdr where hdr: "encode_in_pack_object_header MAX_PACK_OBJECT_HEADER type sz = Inr hdr"
    "length hdr \<le> MAX_PACK_OBJECT_HEADER"
    and run: "unpack_object_header_buffer (hdr @ rest) = Inr (if unat sz < 2 ^ 60 then (length hdr, type, sz) else (0, type, 0))"
    using unpack_encode_header [OF assms] by blast
  have "hdr \<noteq> []"
    using hdr(1) assms
    by (auto simp: encode_in_pack_object_header_def encode_header_loop.simps [of "Suc 0"] rbind_eq_Inr split: if_splits)
  then show ?thesis using hdr run by (simp add: unpack_object_header_def)
qed

theorem pack_header_roundtrip_witness:
  "OBJ_COMMIT \<le> 3 \<and> 3 \<le> OBJ_REF_DELTA \<and>
   (\<exists>hdr. encode_in_pack_object_header MAX_PACK_OBJECT_HEADER 3 1000 = Inr hdr \<and>
    unpack_object_header (\<lambda>pos. drop pos ([80, 65] @ hdr @ [7])) 2 = Inr (3, 2 + length hdr, 1000))"
proof -
  have len: "length [80, 65 :: byte] = 2" by simp
  have "OBJ_COMMIT \<le> 3" and "3 \<le> OBJ_REF_DELTA" by (simp_all add: OBJ_defs)
  with pack_header_roundtrip [OF this, of 1000 "[80, 65]" "[7]", unfolded len] show ?thesis by auto
qed

text \<open>C8: the distance an \<^verbatim>\<open>OFS_DELTA\<close> object is written with leads back to its base: for every distance
  smaller than the offset of the delta, reading it yields the offset of the base and stops right
  behind it, and it takes at most ten bytes.\<close>

theorem ofs_delta_roundtrip:
  assumes "0 < unat ofs" and "unat ofs < delta_obj_offset" and "delta_obj_offset < 2 ^ 63"
    and "use_pack curpos = ofs_header ofs @ rest"
  shows "get_delta_base use_pack find_pack_entry_one rawsz curpos OBJ_OFS_DELTA delta_obj_offset
      = Inr (delta_obj_offset - unat ofs, curpos + length (ofs_header ofs)) \<and>
    length (ofs_header ofs) \<le> MAX_PACK_OBJECT_HEADER"
proof -
  have e: "encode_varint ofs @ rest = use_pack curpos" using assms(4) by (simp add: ofs_header_varint)
  have ne: "encode_varint ofs \<noteq> []"
    using decode_encode_varint [of ofs "[]"] by (auto simp: decode_varint_def)
  obtain c bs where c: "use_pack curpos = c # bs" using e ne by (cases "use_pack curpos") auto
  have "sint ofs = int (unat ofs)"
  proof -
    have "unat ofs < 2 ^ 63" using assms(2,3) by simp
    then have "\<not> bit ofs 63"
      using word_and_exp [of ofs 63] and_exp_eq_0_iff_not_bit [of ofs 63] by simp
    then have "\<not> bit (uint ofs) (LENGTH(64) - Suc 0)" by (simp add: bit_uint_iff)
    then have "sint ofs = take_bit (LENGTH(64) - Suc 0) (uint ofs)"
      unfolding sint_uint by (rule signed_take_bit_eq_if_positive)
    also have "\<dots> = uint ofs"
    proof (rule take_bit_int_eq_self)
      have "int (unat ofs) < int (2 ^ 63)" using \<open>unat ofs < 2 ^ 63\<close> by (simp only: of_nat_less_iff)
      then show "uint ofs < 2 ^ (LENGTH(64) - Suc 0)" by simp
    qed simp
    finally show ?thesis by simp
  qed
  moreover have "int (unat ofs) < int delta_obj_offset" "int 0 < int (unat ofs)"
    using assms(1,2) by (simp_all only: of_nat_less_iff)
  ultimately show ?thesis
    using base_offset_loop_encode [of ofs rest c bs] e c length_encode_varint [of ofs]
    by (simp add: get_delta_base_def ofs_header_varint MAX_PACK_OBJECT_HEADER_def Let_def nat_diff_distrib)
qed

theorem ofs_delta_roundtrip_witness:
  "ofs_header 300 = [0x81, 0x2c] \<and>
   get_delta_base (\<lambda>_. [0x81, 0x2c, 9]) (\<lambda>_. 0) 20 512 OBJ_OFS_DELTA 500 = Inr (200, 514)"
proof -
  have h: "ofs_header 300 = [0x81, 0x2c]" by code_simp
  have "get_delta_base (\<lambda>_. [0x81, 0x2c, 9]) (\<lambda>_. 0) 20 512 OBJ_OFS_DELTA 500
      = Inr (500 - unat (300 :: u64), 512 + length (ofs_header 300))"
    using ofs_delta_roundtrip [of 300 500 "\<lambda>_. [0x81, 0x2c, 9]" 512 "[9]" "\<lambda>_. 0" 20] h by simp
  with h show ?thesis by simp
qed

text \<open>C9: whatever bytes the pack holds, an \<^verbatim>\<open>OFS_DELTA\<close> base offset that is not reported as an error lies
  strictly between 0 and the offset of the delta, so chains of such deltas cannot loop.\<close>

theorem ofs_delta_base_decreases:
  "case get_delta_base use_pack find_pack_entry_one rawsz curpos OBJ_OFS_DELTA delta_obj_offset of
     Inl f \<Rightarrow> f = Oob
   | Inr (base_offset, curpos') \<Rightarrow> base_offset = 0 \<and> curpos' = curpos \<or>
       0 < base_offset \<and> base_offset < delta_obj_offset \<and> curpos < curpos'"
proof -
  have fault: "base_offset_loop c bs used v = Inl f \<Longrightarrow> f = Oob" for c bs used v f
  proof (induction c bs used v rule: base_offset_loop.induct)
    case (1 c bs used v)
    then show ?case
      by (cases bs) (auto simp: base_offset_loop.simps [of c _ used v] Let_def split: if_splits)
  qed
  have used: "base_offset_loop c bs used v = Inr (Some (used', ofs)) \<Longrightarrow> used \<le> used'" for c bs used v used' ofs
    using base_offset_loop_varint [of c bs used v] by (cases "decode_varint_loop v c bs") auto
  show ?thesis
  proof (cases "use_pack curpos")
    case Nil
    then show ?thesis by (simp add: get_delta_base_def)
  next
    case (Cons c bs)
    show ?thesis
    proof (cases "base_offset_loop c bs 1 (ucast c AND 127)")
      case (Inl f)
      then show ?thesis using fault Cons by (simp add: get_delta_base_def)
    next
      case (Inr r)
      show ?thesis
      proof (cases r)
        case None
        then show ?thesis using Inr Cons by (simp add: get_delta_base_def)
      next
        case (Some p)
        obtain n ofs where p: "p = (n, ofs)" by (cases p)
        have "1 \<le> n" using used Inr Some p by blast
        then show ?thesis using Inr Some p Cons by (auto simp: get_delta_base_def Let_def)
      qed
    qed
  qed
qed

end
