(* ===== verification/Git_Ewah_Rlw.thy ===== *)
theory Git_Ewah_Rlw
  imports Git_Compat
begin

unbundle bit_operations_syntax

section \<open>Running length words: ewah/ewok_rlw.h\<close>

text \<open>
  A compressed bitmap is a sequence of segments.  A segment starts with a running length word of
  64 bits: bit 0 is the value of a run, bits 1 to 32 the number of words in the run, and bits 33
  to 63 the number of literal words that follow the running length word in the buffer.  The
  operations of ewok_rlw.h read and write the three fields.  An \<^verbatim>\<open>int\<close> that is used as a flag is a
  \<open>bool\<close>.
\<close>

type_synonym eword = u64

definition BITS_IN_EWORD :: nat where
  "BITS_IN_EWORD = 64"

definition RLW_RUNNING_BITS :: nat where
  "RLW_RUNNING_BITS = 32"

definition RLW_LITERAL_BITS :: nat where
  "RLW_LITERAL_BITS = 64 - 1 - RLW_RUNNING_BITS"

definition RLW_LARGEST_RUNNING_COUNT :: eword where
  "RLW_LARGEST_RUNNING_COUNT = push_bit RLW_RUNNING_BITS 1 - 1"

definition RLW_LARGEST_LITERAL_COUNT :: eword where
  "RLW_LARGEST_LITERAL_COUNT = push_bit RLW_LITERAL_BITS 1 - 1"

definition RLW_LARGEST_RUNNING_COUNT_SHIFT :: eword where
  "RLW_LARGEST_RUNNING_COUNT_SHIFT = push_bit 1 RLW_LARGEST_RUNNING_COUNT"

definition RLW_RUNNING_LEN_PLUS_BIT :: eword where
  "RLW_RUNNING_LEN_PLUS_BIT = push_bit (RLW_RUNNING_BITS + 1) 1 - 1"

definition rlw_get_run_bit :: "eword \<Rightarrow> bool" where
  "rlw_get_run_bit w \<longleftrightarrow> w AND 1 \<noteq> 0"

definition rlw_set_run_bit :: "eword \<Rightarrow> bool \<Rightarrow> eword" where
  "rlw_set_run_bit w b = (if b then w OR 1 else w AND NOT 1)"

definition rlw_xor_run_bit :: "eword \<Rightarrow> eword" where
  "rlw_xor_run_bit w = (if w AND 1 \<noteq> 0 then w AND NOT 1 else w OR 1)"

definition rlw_set_running_len :: "eword \<Rightarrow> eword \<Rightarrow> eword" where
  "rlw_set_running_len w l =
     (w OR RLW_LARGEST_RUNNING_COUNT_SHIFT) AND (push_bit 1 l OR NOT RLW_LARGEST_RUNNING_COUNT_SHIFT)"

definition rlw_get_running_len :: "eword \<Rightarrow> eword" where
  "rlw_get_running_len w = drop_bit 1 w AND RLW_LARGEST_RUNNING_COUNT"

definition rlw_get_literal_words :: "eword \<Rightarrow> eword" where
  "rlw_get_literal_words w = drop_bit (1 + RLW_RUNNING_BITS) w"

definition rlw_set_literal_words :: "eword \<Rightarrow> eword \<Rightarrow> eword" where
  "rlw_set_literal_words w l =
     (w OR NOT RLW_RUNNING_LEN_PLUS_BIT) AND (push_bit (RLW_RUNNING_BITS + 1) l OR RLW_RUNNING_LEN_PLUS_BIT)"

definition rlw_size :: "eword \<Rightarrow> eword" where
  "rlw_size w = rlw_get_running_len w + rlw_get_literal_words w"

subsection \<open>The three fields are independent\<close>

named_theorems rlw_simps \<open>reading a field of a running length word after writing one\<close>

lemma rlw_masks:
  "RLW_LARGEST_RUNNING_COUNT = mask 32" "RLW_LARGEST_LITERAL_COUNT = mask 31"
  "RLW_LARGEST_RUNNING_COUNT_SHIFT = push_bit 1 (mask 32)" "RLW_RUNNING_LEN_PLUS_BIT = mask 33"
  by (simp_all add: RLW_LARGEST_RUNNING_COUNT_def RLW_LARGEST_LITERAL_COUNT_def RLW_RUNNING_BITS_def
      RLW_LITERAL_BITS_def RLW_LARGEST_RUNNING_COUNT_SHIFT_def RLW_RUNNING_LEN_PLUS_BIT_def mask_eq_exp_minus_1)

lemma rlw_get_run_bit_bit: "rlw_get_run_bit w = bit w 0"
  using and_exp_eq_0_iff_not_bit [of w 0] by (simp add: rlw_get_run_bit_def)

lemma bit_rlw_set_run_bit: "bit (rlw_set_run_bit w b) n = (if n = 0 then b else bit w n)"
  by (auto simp: rlw_set_run_bit_def bit_simps dest: bit_imp_le_length)

lemma bit_rlw_set_running_len:
  "bit (rlw_set_running_len w l) n = (if 1 \<le> n \<and> n \<le> 32 then bit l (n - 1) else bit w n)"
  unfolding rlw_set_running_len_def rlw_masks bit_and_iff bit_or_iff bit_not_iff bit_push_bit_iff bit_mask_iff
    possible_bit_word
  by (auto dest: bit_imp_le_length)

lemma bit_rlw_set_literal_words:
  "bit (rlw_set_literal_words w l) n = (if 33 \<le> n then n < 64 \<and> bit l (n - 33) else bit w n)"
  unfolding rlw_set_literal_words_def rlw_masks RLW_RUNNING_BITS_def bit_and_iff bit_or_iff bit_not_iff
    bit_push_bit_iff bit_mask_iff possible_bit_word
  by (auto dest: bit_imp_le_length)

lemma bit_rlw_get_running_len: "bit (rlw_get_running_len w) n = (n < 32 \<and> bit w (Suc n))"
  by (auto simp: rlw_get_running_len_def rlw_masks bit_simps)

lemma bit_rlw_get_literal_words: "bit (rlw_get_literal_words w) n = bit w (33 + n)"
  by (simp add: rlw_get_literal_words_def RLW_RUNNING_BITS_def bit_simps)

lemma rlw_xor_run_bit_set: "rlw_xor_run_bit w = rlw_set_run_bit w (\<not> rlw_get_run_bit w)"
  by (simp add: rlw_xor_run_bit_def rlw_set_run_bit_def rlw_get_run_bit_def)

lemmas bit_rlw = bit_rlw_set_run_bit bit_rlw_set_running_len bit_rlw_set_literal_words
  bit_rlw_get_running_len bit_rlw_get_literal_words

lemma rlw_run_bit_simps [rlw_simps]:
  "rlw_get_run_bit (rlw_set_run_bit w b) = b"
  "rlw_get_run_bit (rlw_set_running_len w l) = rlw_get_run_bit w"
  "rlw_get_run_bit (rlw_set_literal_words w l) = rlw_get_run_bit w"
  "rlw_get_run_bit (rlw_xor_run_bit w) = (\<not> rlw_get_run_bit w)"
  "rlw_get_run_bit 0 = False"
  by (simp_all add: rlw_get_run_bit_bit bit_rlw rlw_xor_run_bit_set bit_simps)

lemma rlw_running_len_simps [rlw_simps]:
  "rlw_get_running_len (rlw_set_run_bit w b) = rlw_get_running_len w"
  "rlw_get_running_len (rlw_set_running_len w l) = take_bit 32 l"
  "rlw_get_running_len (rlw_set_literal_words w l) = rlw_get_running_len w"
  "rlw_get_running_len (rlw_xor_run_bit w) = rlw_get_running_len w"
  "rlw_get_running_len 0 = 0"
  by (rule bit_eqI; auto simp: bit_rlw rlw_xor_run_bit_set bit_simps)+

lemma rlw_literal_words_simps [rlw_simps]:
  "rlw_get_literal_words (rlw_set_run_bit w b) = rlw_get_literal_words w"
  "rlw_get_literal_words (rlw_set_running_len w l) = rlw_get_literal_words w"
  "rlw_get_literal_words (rlw_set_literal_words w l) = take_bit 31 l"
  "rlw_get_literal_words (rlw_xor_run_bit w) = rlw_get_literal_words w"
  "rlw_get_literal_words 0 = 0"
  by (rule bit_eqI; auto simp: bit_rlw rlw_xor_run_bit_set bit_simps dest: bit_imp_le_length)+

text \<open>The lengths as naturals.\<close>

definition run_len :: "eword \<Rightarrow> nat" where
  "run_len w = unat (rlw_get_running_len w)"

definition lit_len :: "eword \<Rightarrow> nat" where
  "lit_len w = unat (rlw_get_literal_words w)"

definition max_run :: nat where
  "max_run = 2 ^ 32 - 1"

definition max_lit :: nat where
  "max_lit = 2 ^ 31 - 1"

lemma unat_largest: "unat RLW_LARGEST_RUNNING_COUNT = max_run" "unat RLW_LARGEST_LITERAL_COUNT = max_lit"
  by (simp_all add: rlw_masks max_run_def max_lit_def mask_eq_exp_minus_1)

lemma run_len_le: "run_len w \<le> max_run"
proof -
  have "run_len w = unat (drop_bit 1 w) mod 2 ^ 32"
    by (simp only: run_len_def rlw_get_running_len_def rlw_masks unat_and_mask)
  then show ?thesis by (simp add: max_run_def)
qed

lemma lit_len_le: "lit_len w \<le> max_lit"
proof -
  have "lit_len w = unat w div 2 ^ 33"
    by (simp add: lit_len_def rlw_get_literal_words_def RLW_RUNNING_BITS_def unat_drop_bit_div)
  then show ?thesis using unat_less [of w] by (simp add: max_lit_def)
qed

lemma field_len_simps [rlw_simps]:
  "run_len (rlw_set_run_bit w b) = run_len w"
  "run_len (rlw_set_literal_words w l) = run_len w"
  "lit_len (rlw_set_run_bit w b) = lit_len w"
  "lit_len (rlw_set_running_len w l) = lit_len w"
  "run_len 0 = 0" "lit_len 0 = 0"
  by (simp_all add: run_len_def lit_len_def rlw_simps)

lemma run_len_set: "n \<le> max_run \<Longrightarrow> run_len (rlw_set_running_len w (of_nat n)) = n"
  by (simp only: run_len_def rlw_simps unsigned_take_bit_eq) (simp add: unat_of_nat take_bit_eq_mod max_run_def)

lemma lit_len_set: "n \<le> max_lit \<Longrightarrow> lit_len (rlw_set_literal_words w (of_nat n)) = n"
  by (simp only: lit_len_def rlw_simps unsigned_take_bit_eq) (simp add: unat_of_nat take_bit_eq_mod max_lit_def)

lemma unat_rlw_size: "unat (rlw_size w) = run_len w + lit_len w"
  using run_len_le [of w] lit_len_le [of w]
  by (simp add: rlw_size_def unat_word_ariths run_len_def [symmetric] lit_len_def [symmetric] max_run_def max_lit_def)

lemma rlw_size_eq_0: "rlw_size w = 0 \<longleftrightarrow> run_len w = 0 \<and> lit_len w = 0"
  by (simp add: word_eq_0_unat unat_rlw_size)

end
