(* ===== verification/Git_Ewah.thy ===== *)
theory Git_Ewah
  imports Git_Ewah_Rlw
begin

unbundle bit_operations_syntax

section \<open>Compressed bitmaps: ewah/ewah_bitmap.c\<close>

text \<open>
  The state of a compressed bitmap under construction is \<^verbatim>\<open>struct ewah_bitmap\<close>: the buffer (its
  first \<^verbatim>\<open>buffer_size\<close> words), what is allocated, the number of bits, and the index of the running
  length word of the last segment.  The operations append words or bits; accesses through the
  \<^verbatim>\<open>rlw\<close> pointer are bounds-checked, and the assertions of the code are faults.

  \<open>ewah_rep s ws\<close> is the abstraction: the bitmap \<open>s\<close> stands for the uncompressed words \<open>ws\<close>.
\<close>

record ewah_bitmap =
  eb_buffer :: "eword list"
  eb_alloc_size :: nat
  eb_bit_size :: nat
  eb_rlw :: nat

definition get_rlw :: "ewah_bitmap \<Rightarrow> eword result" where
  "get_rlw self = rd (eb_buffer self) (eb_rlw self)"

definition put_rlw :: "ewah_bitmap \<Rightarrow> eword \<Rightarrow> ewah_bitmap result" where
  "put_rlw self w = rbind (wr (eb_buffer self) (eb_rlw self) w) (\<lambda>buffer. Inr (self\<lparr>eb_buffer := buffer\<rparr>))"

definition buffer_grow :: "ewah_bitmap \<Rightarrow> nat \<Rightarrow> ewah_bitmap" where
  "buffer_grow self new_size = self\<lparr>eb_alloc_size := ALLOC_GROW new_size (eb_alloc_size self)\<rparr>"

definition buffer_push :: "ewah_bitmap \<Rightarrow> eword \<Rightarrow> ewah_bitmap" where
  "buffer_push self w =
     (let self = buffer_grow self (length (eb_buffer self) + 1) in
      self\<lparr>eb_buffer := eb_buffer self @ [w]\<rparr>)"

definition buffer_push_rlw :: "ewah_bitmap \<Rightarrow> eword \<Rightarrow> ewah_bitmap" where
  "buffer_push_rlw self w =
     (let self = buffer_push self w in self\<lparr>eb_rlw := length (eb_buffer self) - 1\<rparr>)"

definition push_run :: "ewah_bitmap \<Rightarrow> bool \<Rightarrow> ewah_bitmap result" where
  "push_run self v =
     (let self = buffer_push_rlw self 0 in
      if v then rbind (get_rlw self) (\<lambda>w. put_rlw self (rlw_set_run_bit w v)) else Inr self)"

definition set_run_len :: "ewah_bitmap \<Rightarrow> nat \<Rightarrow> ewah_bitmap result" where
  "set_run_len self l = rbind (get_rlw self) (\<lambda>w. put_rlw self (rlw_set_running_len w (of_nat l)))"

text \<open>\<^verbatim>\<open>add_empty_words()\<close>; the second result is the number of words added to the buffer.\<close>

function add_runs :: "ewah_bitmap \<Rightarrow> bool \<Rightarrow> nat \<Rightarrow> nat \<Rightarrow> (ewah_bitmap \<times> nat) result" where
  "add_runs self v number added =
     (if number \<ge> unat RLW_LARGEST_RUNNING_COUNT then
        rbind (push_run self v) (\<lambda>self.
        rbind (set_run_len self (unat RLW_LARGEST_RUNNING_COUNT)) (\<lambda>self.
          add_runs self v (number - unat RLW_LARGEST_RUNNING_COUNT) (added + 1)))
      else if number > 0 then
        rbind (push_run self v) (\<lambda>self.
        rbind (set_run_len self number) (\<lambda>self.
          Inr (self, added + 1)))
      else Inr (self, added))"
  by auto
termination
  by (relation "measure (\<lambda>(_, _, number, _). number)") (auto simp: unat_largest max_run_def)

declare add_runs.simps [simp del]

definition add_empty_words :: "ewah_bitmap \<Rightarrow> bool \<Rightarrow> nat \<Rightarrow> (ewah_bitmap \<times> nat) result" where
  "add_empty_words self v number =
     rbind (get_rlw self) (\<lambda>w.
     rbind (if rlw_get_run_bit w \<noteq> v \<and> rlw_size w = 0 then
              rbind (put_rlw self (rlw_set_run_bit w v)) (\<lambda>self. Inr (self, 0))
            else if rlw_get_literal_words w \<noteq> 0 \<or> rlw_get_run_bit w \<noteq> v then
              rbind (push_run self v) (\<lambda>self. Inr (self, 1))
            else Inr (self, 0)) (\<lambda>(self, added).
     rbind (get_rlw self) (\<lambda>w.
       let runlen = unat (rlw_get_running_len w);
           can_add = min number (unat RLW_LARGEST_RUNNING_COUNT - runlen) in
       rbind (put_rlw self (rlw_set_running_len w (of_nat (runlen + can_add)))) (\<lambda>self.
         add_runs self v (number - can_add) added))))"

definition ewah_add_empty_words :: "ewah_bitmap \<Rightarrow> bool \<Rightarrow> nat \<Rightarrow> (ewah_bitmap \<times> nat) result" where
  "ewah_add_empty_words self v number =
     (if number = 0 then Inr (self, 0)
      else
        let self = self\<lparr>eb_bit_size := size_t (eb_bit_size self + size_t (number * BITS_IN_EWORD))\<rparr> in
        add_empty_words self v number)"

definition add_literal :: "ewah_bitmap \<Rightarrow> eword \<Rightarrow> (ewah_bitmap \<times> nat) result" where
  "add_literal self new_data =
     rbind (get_rlw self) (\<lambda>w.
       let current_num = rlw_get_literal_words w in
       if current_num \<ge> RLW_LARGEST_LITERAL_COUNT then
         let self = buffer_push_rlw self 0 in
         rbind (get_rlw self) (\<lambda>w.
         rbind (put_rlw self (rlw_set_literal_words w 1)) (\<lambda>self.
           Inr (buffer_push self new_data, 2)))
       else
         let w = rlw_set_literal_words w (current_num + 1) in
         rbind (put_rlw self w) (\<lambda>self.
           if rlw_get_literal_words w \<noteq> current_num + 1 then Inl Assert_failed
           else Inr (buffer_push self new_data, 1)))"

text \<open>The loop of \<^verbatim>\<open>ewah_add_dirty_words()\<close>.  Every second round at the latest makes progress, so
  \<open>number + 2\<close> rounds are enough.\<close>

fun add_dirty_loop :: "nat \<Rightarrow> ewah_bitmap \<Rightarrow> eword list \<Rightarrow> nat \<Rightarrow> bool \<Rightarrow> ewah_bitmap result" where
  "add_dirty_loop 0 self buffer number negate = Inl No_fuel"
| "add_dirty_loop (Suc fuel) self buffer number negate =
     rbind (get_rlw self) (\<lambda>w.
       let literals = unat (rlw_get_literal_words w);
           can_add = min number (unat RLW_LARGEST_LITERAL_COUNT - literals) in
       rbind (put_rlw self (rlw_set_literal_words w (of_nat (literals + can_add)))) (\<lambda>self.
         let self = buffer_grow self (length (eb_buffer self) + can_add) in
         rbind (slice buffer 0 can_add) (\<lambda>ws.
           let self = self\<lparr>eb_buffer := eb_buffer self @ (if negate then map not ws else ws),
                           eb_bit_size := size_t (eb_bit_size self + size_t (can_add * BITS_IN_EWORD))\<rparr> in
           if number - can_add = 0 then Inr self
           else add_dirty_loop fuel (buffer_push_rlw self 0) (drop can_add buffer) (number - can_add) negate)))"

definition ewah_add_dirty_words :: "ewah_bitmap \<Rightarrow> eword list \<Rightarrow> nat \<Rightarrow> bool \<Rightarrow> ewah_bitmap result" where
  "ewah_add_dirty_words self buffer number negate = add_dirty_loop (number + 2) self buffer number negate"

definition check :: "bool \<Rightarrow> 'a result \<Rightarrow> 'a result" where
  "check b r = (if b then r else Inl Assert_failed)"

definition add_empty_word :: "ewah_bitmap \<Rightarrow> bool \<Rightarrow> (ewah_bitmap \<times> nat) result" where
  "add_empty_word self v =
     rbind (get_rlw self) (\<lambda>w.
       let no_literal = (rlw_get_literal_words w = 0);
           run_len = rlw_get_running_len w in
       rbind (if no_literal \<and> run_len = 0 then
                let w = rlw_set_run_bit w v in
                check (rlw_get_run_bit w = v) (rbind (put_rlw self w) (\<lambda>self. Inr (self, w)))
              else Inr (self, w)) (\<lambda>(self, w).
         if no_literal \<and> rlw_get_run_bit w = v \<and> run_len < RLW_LARGEST_RUNNING_COUNT then
           let w = rlw_set_running_len w (run_len + 1) in
           check (rlw_get_running_len w = run_len + 1) (rbind (put_rlw self w) (\<lambda>self. Inr (self, 0)))
         else
           let self = buffer_push_rlw self 0 in
           rbind (get_rlw self) (\<lambda>w.
           check (rlw_get_running_len w = 0) (
           check (rlw_get_run_bit w = False) (
           check (rlw_get_literal_words w = 0) (
             let w = rlw_set_run_bit w v in
             check (rlw_get_run_bit w = v) (
             let w = rlw_set_running_len w 1 in
             check (rlw_get_running_len w = 1) (
             check (rlw_get_literal_words w = 0) (
               rbind (put_rlw self w) (\<lambda>self. Inr (self, 1)))))))))))"

definition ewah_add :: "ewah_bitmap \<Rightarrow> eword \<Rightarrow> (ewah_bitmap \<times> nat) result" where
  "ewah_add self word =
     (let self = self\<lparr>eb_bit_size := size_t (eb_bit_size self + BITS_IN_EWORD)\<rparr> in
      if word = 0 then add_empty_word self False
      else if word = NOT 0 then add_empty_word self True
      else add_literal self word)"

definition DIV_ROUND_UP :: "nat \<Rightarrow> nat \<Rightarrow> nat" where
  "DIV_ROUND_UP n d = size_t (n + d - 1) div d"

text \<open>The bit falls into the last word: it ends a run, or is added to a literal word, which may become the
  first word of a run of ones.\<close>

definition set_in_last_word :: "ewah_bitmap \<Rightarrow> eword \<Rightarrow> ewah_bitmap result" where
  "set_in_last_word self bit_word =
     rbind (get_rlw self) (\<lambda>w.
       if rlw_get_literal_words w = 0 then
         rbind (put_rlw self (rlw_set_running_len w (rlw_get_running_len w - 1))) (\<lambda>self.
         rbind (add_literal self bit_word) (\<lambda>(self, _). Inr self))
       else
         let last_pos = length (eb_buffer self) - 1 in
         rbind (rd (eb_buffer self) last_pos) (\<lambda>l.
         rbind (wr (eb_buffer self) last_pos (l OR bit_word)) (\<lambda>buffer.
           if l OR bit_word = NOT 0 then
             let self = self\<lparr>eb_buffer := take last_pos buffer\<rparr> in
             rbind (put_rlw self (rlw_set_literal_words w (rlw_get_literal_words w - 1))) (\<lambda>self.
             rbind (add_empty_word self True) (\<lambda>(self, _). Inr self))
           else Inr (self\<lparr>eb_buffer := buffer\<rparr>))))"

definition ewah_set :: "ewah_bitmap \<Rightarrow> nat \<Rightarrow> ewah_bitmap result" where
  "ewah_set self i =
     (let dist = size_sub (DIV_ROUND_UP (size_t (i + 1)) BITS_IN_EWORD) (DIV_ROUND_UP (eb_bit_size self) BITS_IN_EWORD);
          bit_word = push_bit (i mod BITS_IN_EWORD) 1 in
      check (eb_bit_size self \<le> i) (
        let self = self\<lparr>eb_bit_size := size_t (i + 1)\<rparr> in
        if dist > 0 then
          rbind (if dist > 1 then add_empty_words self False (dist - 1) else Inr (self, 0)) (\<lambda>(self, _).
          rbind (add_literal self bit_word) (\<lambda>(self, _). Inr self))
        else set_in_last_word self bit_word))"

definition ewah_clear :: "ewah_bitmap \<Rightarrow> ewah_bitmap" where
  "ewah_clear self = self\<lparr>eb_buffer := [0], eb_bit_size := 0, eb_rlw := 0\<rparr>"

definition ewah_new :: ewah_bitmap where
  "ewah_new = ewah_clear \<lparr>eb_buffer = [], eb_alloc_size = 32, eb_bit_size = 0, eb_rlw = 0\<rparr>"

text \<open>\<^verbatim>\<open>ewah_each_bit()\<close>, as the list of the positions the callback is called with.\<close>

definition each_bit_of_word :: "nat \<Rightarrow> eword \<Rightarrow> nat list" where
  "each_bit_of_word pos w = map (\<lambda>c. size_t (pos + c)) (filter (\<lambda>c. w AND push_bit c 1 \<noteq> 0) [0..<BITS_IN_EWORD])"

fun each_bit_of_literals :: "nat \<Rightarrow> eword list \<Rightarrow> nat \<Rightarrow> nat \<Rightarrow> (nat list \<times> nat \<times> nat) result" where
  "each_bit_of_literals 0 buffer pointer pos = Inr ([], pointer, pos)"
| "each_bit_of_literals (Suc k) buffer pointer pos =
     rbind (rd buffer pointer) (\<lambda>w.
     rbind (each_bit_of_literals k buffer (pointer + 1) (size_t (pos + BITS_IN_EWORD))) (\<lambda>(calls, pointer, pos').
       Inr (each_bit_of_word pos w @ calls, pointer, pos')))"

lemma each_bit_of_literals_pointer:
  "each_bit_of_literals k buffer pointer pos = Inr (calls, pointer', pos') \<Longrightarrow> pointer' = pointer + k"
  by (induction k arbitrary: pointer pos calls) (fastforce simp: rbind_eq_Inr)+

function each_bit_loop :: "eword list \<Rightarrow> nat \<Rightarrow> nat \<Rightarrow> nat list result" where
  "each_bit_loop buffer pointer pos =
     (if pointer < length buffer then
        let word = buffer ! pointer;
            len = unat (rlw_get_running_len word) * BITS_IN_EWORD;
            run = (if rlw_get_run_bit word then map (\<lambda>k. size_t (pos + k)) [0..<len] else []) in
        rbind (each_bit_of_literals (unat (rlw_get_literal_words word)) buffer (pointer + 1) (size_t (pos + len)))
          (\<lambda>(calls, pointer, pos).
            rbind (each_bit_loop buffer pointer pos) (\<lambda>rest. Inr (run @ calls @ rest)))
      else Inr [])"
  by auto
termination
  by (relation "measure (\<lambda>(buffer, pointer, _). length buffer - pointer)")
    (auto dest: each_bit_of_literals_pointer)

declare each_bit_loop.simps [simp del]

definition ewah_each_bit :: "ewah_bitmap \<Rightarrow> nat list result" where
  "ewah_each_bit self = each_bit_loop (eb_buffer self) 0 0"

text \<open>\<^verbatim>\<open>ewah_checksum()\<close>, on the bytes of the buffer in the order of the machine (\<open>bytes_of\<close>).\<close>

definition ewah_checksum :: "(eword \<Rightarrow> byte list) \<Rightarrow> ewah_bitmap \<Rightarrow> u32" where
  "ewah_checksum bytes_of self =
     foldl (\<lambda>crc p. push_bit 5 crc - crc + ucast p) (of_nat (eb_bit_size self))
       (concat (map bytes_of (eb_buffer self)))"

subsection \<open>What a compressed bitmap stands for\<close>

definition fill :: "bool \<Rightarrow> eword" where
  "fill v = (if v then NOT 0 else 0)"

definition run_words :: "eword \<Rightarrow> eword list" where
  "run_words w = replicate (run_len w) (fill (rlw_get_run_bit w))"

function ewah_words :: "eword list \<Rightarrow> eword list option" where
  "ewah_words [] = Some []"
| "ewah_words (w # rest) =
     (if lit_len w \<le> length rest then
        map_option (\<lambda>ws. run_words w @ take (lit_len w) rest @ ws) (ewah_words (drop (lit_len w) rest))
      else None)"
  by pat_completeness auto
termination
  by (relation "measure length") auto

lemma ewah_words_append:
  "ewah_words xs = Some ws \<Longrightarrow> ewah_words (xs @ ys) = map_option ((@) ws) (ewah_words ys)"
proof (induction xs arbitrary: ws rule: ewah_words.induct)
  case 1
  then have "ws = []" by simp
  then show ?case by (cases "ewah_words ys") simp_all
next
  case (2 w rest)
  then obtain ws' where "lit_len w \<le> length rest" and rest: "ewah_words (drop (lit_len w) rest) = Some ws'"
    and ws: "ws = run_words w @ take (lit_len w) rest @ ws'"
    by (auto split: if_splits)
  with "2.IH" [OF this(1) rest] show ?case by (cases "ewah_words ys") simp_all
qed

lemma ewah_words_segment:
  "length lits = lit_len m \<Longrightarrow> ewah_words (m # lits) = Some (run_words m @ lits)"
  by simp

definition segments :: "ewah_bitmap \<Rightarrow> eword list \<Rightarrow> eword \<Rightarrow> eword list \<Rightarrow> eword list \<Rightarrow> bool" where
  "segments s pre m lits ws \<longleftrightarrow>
     eb_buffer s = pre @ m # lits \<and> eb_rlw s = length pre \<and> ewah_words pre = Some ws \<and> length lits = lit_len m"

definition ewah_rep :: "ewah_bitmap \<Rightarrow> eword list \<Rightarrow> bool" where
  "ewah_rep s ws \<longleftrightarrow>
     (\<exists>pre m lits ws0. segments s pre m lits ws0 \<and> ws = ws0 @ run_words m @ lits \<and>
        (run_len m + length lits = 0 \<longrightarrow> pre = []))"

lemma ewah_repI:
  "segments s pre m lits ws0 \<Longrightarrow> run_len m + length lits \<noteq> 0 \<or> pre = [] \<Longrightarrow> ewah_rep s (ws0 @ run_words m @ lits)"
  unfolding ewah_rep_def by (intro exI [of _ pre] exI [of _ m] exI [of _ lits] exI [of _ ws0]) auto

lemma ewah_rep_words: "ewah_rep s ws \<Longrightarrow> ewah_words (eb_buffer s) = Some ws"
  by (auto simp: ewah_rep_def segments_def ewah_words_append ewah_words_segment simp del: ewah_words.simps(2))

lemma segments_rlw:
  assumes "segments s pre m lits ws"
  shows "get_rlw s = Inr m" and "put_rlw s m' = Inr (s\<lparr>eb_buffer := pre @ m' # lits\<rparr>)"
  using assms by (simp_all add: segments_def get_rlw_def put_rlw_def)

lemma segments_put:
  "segments s pre m lits ws \<Longrightarrow> lit_len m' = lit_len m \<Longrightarrow> segments (s\<lparr>eb_buffer := pre @ m' # lits\<rparr>) pre m' lits ws"
  by (simp add: segments_def)

lemma segments_push:
  assumes "segments s pre m lits ws"
  shows "segments (buffer_push_rlw s 0) (pre @ m # lits) 0 [] (ws @ run_words m @ lits)"
  using assms
  by (simp add: segments_def buffer_push_rlw_def buffer_push_def buffer_grow_def Let_def rlw_simps
      ewah_words_append ewah_words_segment del: ewah_words.simps(2))

lemma run_words_put [rlw_simps]:
  "run_words (rlw_set_literal_words w l) = run_words w"
  "run_words 0 = []"
  by (simp_all add: run_words_def rlw_simps)

lemma bit_size_buffer [simp]:
  "eb_bit_size (buffer_push_rlw s w) = eb_bit_size s" "eb_bit_size (buffer_push s w) = eb_bit_size s"
  "eb_bit_size (buffer_grow s n) = eb_bit_size s"
  by (simp_all add: buffer_push_rlw_def buffer_push_def buffer_grow_def Let_def)

lemma segments_bit_size [simp]: "segments (s\<lparr>eb_bit_size := n\<rparr>) pre m lits ws = segments s pre m lits ws"
  by (simp add: segments_def)

lemma ewah_rep_bit_size [simp]: "ewah_rep (s\<lparr>eb_bit_size := n\<rparr>) ws = ewah_rep s ws"
  by (simp add: ewah_rep_def)

lemma rlw_0_iff:
  "rlw_get_literal_words w = 0 \<longleftrightarrow> lit_len w = 0" "rlw_get_running_len w = 0 \<longleftrightarrow> run_len w = 0"
  by (simp_all add: lit_len_def run_len_def word_eq_0_unat)

lemma push_run_ok:
  assumes "segments s pre m lits ws"
  shows "\<exists>s' m'. push_run s v = Inr s' \<and> segments s' (pre @ m # lits) m' [] (ws @ run_words m @ lits) \<and>
    rlw_get_run_bit m' = v \<and> run_len m' = 0 \<and> lit_len m' = 0 \<and> eb_bit_size s' = eb_bit_size s"
proof -
  note seg = segments_push [OF assms]
  show ?thesis
  proof (cases v)
    case True
    show ?thesis
      using segments_rlw [OF seg] segments_put [OF seg, of "rlw_set_run_bit 0 True"] True
      by (auto simp: push_run_def Let_def rlw_simps)
  next
    case False
    with seg show ?thesis by (auto simp: push_run_def Let_def rlw_simps)
  qed
qed

lemma set_run_len_ok:
  assumes "segments s pre m [] ws" and "n \<le> max_run"
  shows "\<exists>s' m'. set_run_len s n = Inr s' \<and> segments s' pre m' [] ws \<and>
    run_words m' = replicate n (fill (rlw_get_run_bit m)) \<and> run_len m' = n \<and> eb_bit_size s' = eb_bit_size s"
  using segments_rlw [OF assms(1)] segments_put [OF assms(1), of "rlw_set_running_len m (of_nat n)"] assms(2)
  by (auto simp: set_run_len_def rlw_simps run_words_def run_len_set)

lemma add_runs_ok:
  assumes "segments s pre m lits ws" and "run_len m + length lits \<noteq> 0"
  shows "\<exists>s' k. add_runs s v n added = Inr (s', k) \<and>
    ewah_rep s' (ws @ run_words m @ lits @ replicate n (fill v)) \<and> eb_bit_size s' = eb_bit_size s"
  using assms
proof (induction n arbitrary: s pre m lits ws added rule: less_induct)
  case (less n)
  show ?case
  proof (cases "n = 0")
    case True
    with ewah_repI [OF less.prems(1)] less.prems(2) show ?thesis
      by (auto simp: add_runs.simps [of s] unat_largest max_run_def)
  next
    case pos: False
    define l where "l = min n max_run"
    have l: "0 < l" "l \<le> max_run" "l \<le> n" using pos by (auto simp: l_def max_run_def)
    obtain s1 m1 where s1: "push_run s v = Inr s1" "segments s1 (pre @ m # lits) m1 [] (ws @ run_words m @ lits)"
      "rlw_get_run_bit m1 = v" "eb_bit_size s1 = eb_bit_size s"
      using push_run_ok [OF less.prems(1)] by blast
    obtain s2 m2 where s2: "set_run_len s1 l = Inr s2" "segments s2 (pre @ m # lits) m2 [] (ws @ run_words m @ lits)"
      "run_words m2 = replicate l (fill v)" "run_len m2 = l" "eb_bit_size s2 = eb_bit_size s1"
      using set_run_len_ok [OF s1(2) l(2)] s1(3) by blast
    show ?thesis
    proof (cases "max_run \<le> n")
      case True
      then have lm: "l = max_run" by (simp add: l_def)
      have "n - max_run < n" using pos by (simp add: max_run_def)
      from less.IH [OF this s2(2), of "added + 1"] s2 l(1)
      obtain s3 k where "add_runs s2 v (n - max_run) (added + 1) = Inr (s3, k)"
        "ewah_rep s3 ((ws @ run_words m @ lits) @ run_words m2 @ [] @ replicate (n - max_run) (fill v))"
        "eb_bit_size s3 = eb_bit_size s2" by auto
      moreover have "replicate l (fill v) @ replicate (n - l) (fill v) = replicate n (fill v)"
        using l(3) by (simp flip: replicate_add)
      ultimately show ?thesis
        using s1 s2 True lm by (simp add: add_runs.simps [of s] unat_largest)
    next
      case False
      then have ln: "l = n" by (simp add: l_def)
      then have "ewah_rep s2 (ws @ run_words m @ lits @ replicate n (fill v))"
        using ewah_repI [OF s2(2)] s2(3,4) l(1) by simp
      then show ?thesis
        using s1 s2 False ln pos by (simp add: add_runs.simps [of s] unat_largest)
    qed
  qed
qed

subsection \<open>Appending words\<close>

lemma add_empty_words_ok:
  assumes "ewah_rep s ws" and "0 < n"
  shows "\<exists>s' k. add_empty_words s v n = Inr (s', k) \<and> ewah_rep s' (ws @ replicate n (fill v)) \<and>
    eb_bit_size s' = eb_bit_size s"
proof -
  obtain pre m lits ws0 where seg: "segments s pre m lits ws0" and ws: "ws = ws0 @ run_words m @ lits"
    using assms(1) by (auto simp: ewah_rep_def)
  let ?first = "if rlw_get_run_bit m \<noteq> v \<and> rlw_size m = 0 then
      rbind (put_rlw s (rlw_set_run_bit m v)) (\<lambda>self. Inr (self, 0))
    else if rlw_get_literal_words m \<noteq> 0 \<or> rlw_get_run_bit m \<noteq> v then
      rbind (push_run s v) (\<lambda>self. Inr (self, 1))
    else Inr (s, 0 :: nat)"
  obtain s1 k1 pre1 m1 ws1 where s1: "?first = Inr (s1, k1)" "segments s1 pre1 m1 [] ws1" "ws = ws1 @ run_words m1"
    "rlw_get_run_bit m1 = v" "lit_len m1 = 0" "eb_bit_size s1 = eb_bit_size s"
  proof (cases "rlw_get_run_bit m \<noteq> v \<and> rlw_size m = 0")
    case True
    then have z: "run_len m = 0" "lit_len m = 0" "lits = []" using seg by (simp_all add: rlw_size_eq_0 segments_def)
    show thesis
      by (rule that [of "s\<lparr>eb_buffer := pre @ rlw_set_run_bit m v # lits\<rparr>" 0 pre "rlw_set_run_bit m v" ws0])
        (use True z seg ws segments_rlw [OF seg] segments_put [OF seg, of "rlw_set_run_bit m v"] in
          \<open>simp_all add: rlw_simps run_words_def\<close>)
  next
    case False
    show thesis
    proof (cases "rlw_get_literal_words m \<noteq> 0 \<or> rlw_get_run_bit m \<noteq> v")
      case push: True
      obtain s' m' where "push_run s v = Inr s'" "segments s' (pre @ m # lits) m' [] (ws0 @ run_words m @ lits)"
        "rlw_get_run_bit m' = v" "run_len m' = 0" "lit_len m' = 0" "eb_bit_size s' = eb_bit_size s"
        using push_run_ok [OF seg] by blast
      with False push ws show thesis
        by (intro that [of s' 1 "pre @ m # lits" m' "ws0 @ run_words m @ lits"]) (auto simp: run_words_def)
    next
      case keep: False
      then have "lits = []" using seg by (simp add: segments_def rlw_0_iff)
      with keep False seg ws show thesis
        by (intro that [of s 0 pre m ws0]) (auto simp: rlw_0_iff)
    qed
  qed
  define can where "can = min n (max_run - run_len m1)"
  define m2 where "m2 = rlw_set_running_len m1 (of_nat (run_len m1 + can))"
  have r2: "run_len m2 = run_len m1 + can"
    unfolding m2_def using run_len_le [of m1] by (intro run_len_set) (simp add: can_def)
  define s2 where "s2 = s1\<lparr>eb_buffer := pre1 @ m2 # []\<rparr>"
  have put: "put_rlw s1 m2 = Inr s2" using segments_rlw(2) [OF s1(2)] by (simp add: s2_def)
  have seg2: "segments s2 pre1 m2 [] ws1"
    using segments_put [OF s1(2), of m2] by (simp add: s2_def m2_def rlw_simps)
  have w2: "run_words m2 = run_words m1 @ replicate can (fill v)"
    using r2 s1(4) by (simp add: run_words_def m2_def rlw_simps replicate_add)
  have split: "replicate can (fill v) @ replicate (n - can) (fill v) = replicate n (fill v)"
    by (simp add: can_def flip: replicate_add)
  have run: "add_empty_words s v n = add_runs s2 v (n - can) k1"
    unfolding add_empty_words_def segments_rlw(1) [OF seg] rbind_simps s1(1) prod.case segments_rlw(1) [OF s1(2)]
      Let_def unat_largest run_len_def [symmetric] can_def [symmetric] m2_def [symmetric] put ..
  have "run_len m2 + length ([] :: eword list) \<noteq> 0"
    using r2 assms(2) run_len_le [of m1] by (auto simp: can_def max_run_def)
  from add_runs_ok [OF seg2 this, of v "n - can" k1]
  show ?thesis unfolding run using s1(3,6) w2 split by (auto simp: s2_def)
qed

lemma ewah_add_empty_words_ok:
  assumes "ewah_rep s ws"
  shows "\<exists>s' k. ewah_add_empty_words s v n = Inr (s', k) \<and> ewah_rep s' (ws @ replicate n (fill v)) \<and>
    (n \<noteq> 0 \<longrightarrow> eb_bit_size s' = size_t (eb_bit_size s + n * BITS_IN_EWORD)) \<and> (n = 0 \<longrightarrow> s' = s)"
proof (cases "n = 0")
  case True
  with assms show ?thesis by (simp add: ewah_add_empty_words_def)
next
  case False
  with add_empty_words_ok [of "s\<lparr>eb_bit_size := size_t (eb_bit_size s + size_t (n * BITS_IN_EWORD))\<rparr>" ws n v] assms
  show ?thesis by (auto simp: ewah_add_empty_words_def Let_def)
qed

lemma segments_push_literal:
  assumes "segments s pre m lits ws" and "lit_len m < max_lit"
  shows "segments (buffer_push (s\<lparr>eb_buffer := pre @ rlw_set_literal_words m (of_nat (lit_len m + 1)) # lits\<rparr>) w)
    pre (rlw_set_literal_words m (of_nat (lit_len m + 1))) (lits @ [w]) ws"
  using assms by (simp add: segments_def buffer_push_def buffer_grow_def Let_def lit_len_set del: of_nat_add of_nat_Suc)

lemma of_nat_lit_len: "of_nat (lit_len m) = rlw_get_literal_words m"
  by (simp add: lit_len_def)

lemma add_literal_segments:
  assumes seg: "segments s pre m lits ws"
  shows "\<exists>s' k pre' m' lits' ws'. add_literal s w = Inr (s', k) \<and> segments s' pre' m' lits' ws' \<and>
    ws' @ run_words m' @ lits' = ws @ run_words m @ lits @ [w] \<and> lits' \<noteq> [] \<and> eb_bit_size s' = eb_bit_size s"
proof (cases "rlw_get_literal_words m \<ge> RLW_LARGEST_LITERAL_COUNT")
  case True
  let ?s1 = "buffer_push_rlw s 0"
  note seg1 = segments_push [OF seg]
  have "segments (buffer_push (?s1\<lparr>eb_buffer := (pre @ m # lits) @ rlw_set_literal_words 0 1 # []\<rparr>) w)
      (pre @ m # lits) (rlw_set_literal_words 0 1) [w] (ws @ run_words m @ lits)" (is "segments ?s2 _ _ _ _")
    using segments_push_literal [OF seg1, of w] by (simp add: rlw_simps max_lit_def)
  moreover have "add_literal s w = Inr (?s2, 2)"
    using True segments_rlw [OF seg] segments_rlw [OF seg1] by (simp add: add_literal_def Let_def)
  ultimately show ?thesis by (fastforce simp: rlw_simps)
next
  case False
  let ?m = "rlw_set_literal_words m (of_nat (lit_len m + 1))"
  let ?s = "buffer_push (s\<lparr>eb_buffer := pre @ ?m # lits\<rparr>) w"
  have less: "lit_len m < max_lit"
    using False by (simp add: word_less_nat_alt not_le lit_len_def unat_largest)
  have of: "rlw_get_literal_words m + 1 = of_nat (lit_len m + 1)" by (simp add: of_nat_lit_len)
  have "lit_len ?m = lit_len m + 1" by (rule lit_len_set) (use less in simp)
  then have "rlw_get_literal_words ?m = of_nat (lit_len m + 1)" by (simp only: of_nat_lit_len [symmetric])
  then have "add_literal s w = Inr (?s, 1)"
    using False segments_rlw [OF seg] unfolding add_literal_def Let_def
    by (simp only: of rbind_simps if_False not_True_eq_False) simp
  moreover have "segments ?s pre ?m (lits @ [w]) ws" by (rule segments_push_literal [OF seg less])
  ultimately show ?thesis by (fastforce simp: rlw_simps)
qed

lemma add_literal_ok:
  assumes "ewah_rep s ws"
  shows "\<exists>s' k. add_literal s w = Inr (s', k) \<and> ewah_rep s' (ws @ [w]) \<and> eb_bit_size s' = eb_bit_size s"
proof -
  obtain pre m lits ws0 where seg: "segments s pre m lits ws0" and ws: "ws = ws0 @ run_words m @ lits"
    using assms(1) by (auto simp: ewah_rep_def)
  obtain s' k pre' m' lits' ws' where *: "add_literal s w = Inr (s', k)" "segments s' pre' m' lits' ws'"
    "ws' @ run_words m' @ lits' = ws @ [w]" "lits' \<noteq> []" "eb_bit_size s' = eb_bit_size s"
    using add_literal_segments [OF seg, of w] ws by auto
  with ewah_repI [OF *(2)] show ?thesis by auto
qed

lemma add_empty_word_segments:
  assumes seg: "segments s pre m lits ws"
  shows "\<exists>s' k pre' m' lits' ws'. add_empty_word s v = Inr (s', k) \<and> segments s' pre' m' lits' ws' \<and>
    ws' @ run_words m' @ lits' = ws @ run_words m @ lits @ [fill v] \<and> run_len m' \<noteq> 0 \<and> eb_bit_size s' = eb_bit_size s"
proof -
  define m1 where "m1 = (if lit_len m = 0 \<and> run_len m = 0 then rlw_set_run_bit m v else m)"
  define s1 where "s1 = (if lit_len m = 0 \<and> run_len m = 0 then s\<lparr>eb_buffer := pre @ m1 # lits\<rparr> else s)"
  have m1: "run_len m1 = run_len m" "lit_len m1 = lit_len m" by (simp_all add: m1_def rlw_simps)
  have seg1: "segments s1 pre m1 lits ws" using segments_put [OF seg m1(2)] seg by (auto simp: s1_def m1_def)
  have w1: "run_words m1 = run_words m" by (auto simp: run_words_def m1_def rlw_simps)
  have b1: "eb_bit_size s1 = eb_bit_size s" by (simp add: s1_def)
  let ?cond = "lit_len m = 0 \<and> rlw_get_run_bit m1 = v \<and> rlw_get_running_len m < RLW_LARGEST_RUNNING_COUNT"
  have first: "(if rlw_get_literal_words m = 0 \<and> rlw_get_running_len m = 0 then
      let w = rlw_set_run_bit m v in check (rlw_get_run_bit w = v) (rbind (put_rlw s w) (\<lambda>self. Inr (self, w)))
      else Inr (s, m)) = Inr (s1, m1)"
    by (simp add: rlw_0_iff Let_def check_def rlw_simps segments_rlw(2) [OF seg] s1_def m1_def)
  show ?thesis
  proof (cases ?cond)
    case True
    have lits: "lits = []" using True seg by (simp add: segments_def)
    have less: "run_len m < max_run" using True by (simp add: word_less_nat_alt run_len_def unat_largest)
    define m2 where "m2 = rlw_set_running_len m1 (of_nat (run_len m + 1))"
    have one: "rlw_get_running_len m + 1 = of_nat (run_len m + 1)" by (simp add: run_len_def)
    have r2: "run_len m2 = run_len m + 1" unfolding m2_def by (rule run_len_set) (use less in simp)
    have get2: "rlw_get_running_len m2 = of_nat (run_len m + 1)"
      by (simp only: r2 [symmetric]) (simp add: run_len_def)
    have seg2: "segments (s1\<lparr>eb_buffer := pre @ m2 # lits\<rparr>) pre m2 lits ws"
      by (rule segments_put [OF seg1]) (simp add: m2_def rlw_simps)
    have "add_empty_word s v = Inr (s1\<lparr>eb_buffer := pre @ m2 # lits\<rparr>, 0)"
      unfolding add_empty_word_def segments_rlw(1) [OF seg] rbind_simps Let_def
      unfolding first [unfolded Let_def] rbind_simps prod.case one m2_def [symmetric] get2
      using True by (simp add: rlw_0_iff check_def segments_rlw(2) [OF seg1] del: of_nat_Suc)
    moreover have "run_words m2 = run_words m @ [fill v]"
    proof -
      have "fill (rlw_get_run_bit m1) = fill v" using True by simp
      then have "run_words m2 = replicate (Suc (run_len m)) (fill v)" and "run_words m1 = replicate (run_len m) (fill v)"
        using r2 m1(1) by (simp_all add: run_words_def m2_def rlw_simps)
      then show ?thesis using w1 by (simp add: replicate_append_same)
    qed
    ultimately show ?thesis using seg2 r2 lits b1
      by (intro exI [of _ "s1\<lparr>eb_buffer := pre @ m2 # lits\<rparr>"] exI [of _ 0] exI [of _ pre] exI [of _ m2]
          exI [of _ lits] exI [of _ ws]) simp
  next
    case False
    let ?s2 = "buffer_push_rlw s1 0"
    note seg2 = segments_push [OF seg1]
    define m3 where "m3 = rlw_set_running_len (rlw_set_run_bit 0 v) (of_nat 1)"
    have r3: "run_len m3 = 1" unfolding m3_def by (rule run_len_set) (simp add: max_run_def)
    have get3: "rlw_get_running_len m3 = 1" using r3 by (simp add: run_len_def word_unat_eq_iff)
    have lit3: "lit_len m3 = 0" "rlw_get_literal_words m3 = 0" by (simp_all add: m3_def rlw_simps)
    define s3 where "s3 = ?s2\<lparr>eb_buffer := (pre @ m1 # lits) @ m3 # []\<rparr>"
    have seg3: "segments s3 (pre @ m1 # lits) m3 [] (ws @ run_words m1 @ lits)"
      unfolding s3_def by (rule segments_put [OF seg2]) (simp add: lit3 rlw_simps)
    have m3: "rlw_set_running_len (rlw_set_run_bit 0 v) 1 = m3" by (simp add: m3_def)
    have "add_empty_word s v = Inr (s3, 1)"
      unfolding add_empty_word_def segments_rlw(1) [OF seg] rbind_simps Let_def
      unfolding first [unfolded Let_def] rbind_simps prod.case segments_rlw(1) [OF seg2] m3 get3 lit3
        segments_rlw(2) [OF seg2] s3_def [symmetric]
      using False by (auto simp: rlw_0_iff check_def rlw_simps)
    moreover have "run_words m3 = [fill v]" using r3 by (simp add: run_words_def m3_def rlw_simps)
    ultimately show ?thesis using seg3 r3 w1 b1
      by (intro exI [of _ s3] exI [of _ 1] exI [of _ "pre @ m1 # lits"] exI [of _ m3] exI [of _ "[]"]
          exI [of _ "ws @ run_words m1 @ lits"]) (simp add: s3_def)
  qed
qed

lemma add_empty_word_ok:
  assumes "ewah_rep s ws"
  shows "\<exists>s' k. add_empty_word s v = Inr (s', k) \<and> ewah_rep s' (ws @ [fill v]) \<and> eb_bit_size s' = eb_bit_size s"
proof -
  obtain pre m lits ws0 where seg: "segments s pre m lits ws0" and ws: "ws = ws0 @ run_words m @ lits"
    using assms(1) by (auto simp: ewah_rep_def)
  obtain s' k pre' m' lits' ws' where *: "add_empty_word s v = Inr (s', k)" "segments s' pre' m' lits' ws'"
    "ws' @ run_words m' @ lits' = ws @ [fill v]" "run_len m' \<noteq> 0" "eb_bit_size s' = eb_bit_size s"
    using add_empty_word_segments [OF seg, of v] ws by auto
  with ewah_repI [OF *(2)] show ?thesis by auto
qed

lemma ewah_add_ok:
  assumes "ewah_rep s ws"
  shows "\<exists>s' k. ewah_add s w = Inr (s', k) \<and> ewah_rep s' (ws @ [w]) \<and> eb_bit_size s' = size_t (eb_bit_size s + BITS_IN_EWORD)"
proof -
  let ?s = "s\<lparr>eb_bit_size := size_t (eb_bit_size s + BITS_IN_EWORD)\<rparr>"
  have rep: "ewah_rep ?s ws" using assms by simp
  show ?thesis
    using add_empty_word_ok [OF rep, of False] add_empty_word_ok [OF rep, of True] add_literal_ok [OF rep, of w]
    by (auto simp: ewah_add_def fill_def Let_def)
qed

lemma add_dirty_loop_ok:
  assumes "segments s pre m lits ws" and "number \<le> length buffer"
    and "number + (if lit_len m = max_lit then 2 else 1) \<le> fuel"
    and "run_len m + length lits \<noteq> 0 \<or> pre = [] \<or> 0 < number"
  shows "\<exists>s'. add_dirty_loop fuel s buffer number negate = Inr s' \<and>
    ewah_rep s' (ws @ run_words m @ lits @ map (if negate then not else id) (take number buffer)) \<and>
    eb_bit_size s' = size_t (eb_bit_size s + number * BITS_IN_EWORD)"
  using assms
proof (induction fuel arbitrary: s pre m lits ws buffer number)
  case 0
  then show ?case by (simp split: if_splits)
next
  case (Suc fuel)
  define can where "can = min number (max_lit - lit_len m)"
  define m1 where "m1 = rlw_set_literal_words m (of_nat (lit_len m + can))"
  have l1: "lit_len m1 = lit_len m + can"
    unfolding m1_def using lit_len_le [of m] by (intro lit_len_set) (simp add: can_def)
  let ?f = "if negate then not else id"
  define ws1 where "ws1 = map ?f (take can buffer)"
  have len1: "length ws1 = can" using Suc.prems(2) by (simp add: ws1_def can_def)
  define s1 where "s1 = (buffer_grow (s\<lparr>eb_buffer := pre @ m1 # lits\<rparr>) (length (pre @ m1 # lits) + can))
    \<lparr>eb_buffer := (pre @ m1 # lits) @ ws1, eb_bit_size := size_t (eb_bit_size s + size_t (can * BITS_IN_EWORD))\<rparr>"
  have seg1: "segments s1 pre m1 (lits @ ws1) ws"
    using Suc.prems(1) l1 len1 by (simp add: segments_def s1_def buffer_grow_def)
  have w1: "run_words m1 = run_words m" by (simp add: m1_def rlw_simps)
  have neg: "(if negate then map not (take can buffer) else take can buffer) = ws1" by (simp add: ws1_def)
  have sl: "slice buffer 0 can = Inr (take can buffer)" using Suc.prems(2) by (simp add: can_def)
  have put: "put_rlw s m1 = Inr (s\<lparr>eb_buffer := pre @ m1 # lits\<rparr>)" by (rule segments_rlw(2) [OF Suc.prems(1)])
  have step: "add_dirty_loop (Suc fuel) s buffer number negate = (if number - can = 0 then Inr s1
      else add_dirty_loop fuel (buffer_push_rlw s1 0) (drop can buffer) (number - can) negate)"
    unfolding add_dirty_loop.simps segments_rlw(1) [OF Suc.prems(1)] rbind_simps Let_def unat_largest
      lit_len_def [symmetric] can_def [symmetric] m1_def [symmetric] put sl neg
    by (simp add: s1_def buffer_grow_def)
  show ?case
  proof (cases "number - can = 0")
    case True
    then have n: "can = number" by (simp add: can_def)
    have "run_len m1 + length (lits @ ws1) \<noteq> 0 \<or> pre = []"
      using Suc.prems(4) n len1 w1 l1 by (auto simp: m1_def rlw_simps)
    from ewah_repI [OF seg1 this] show ?thesis
      using True n w1 unfolding step by (simp add: ws1_def s1_def)
  next
    case False
    note seg2 = segments_push [OF seg1]
    have fuel: "number - can + (if lit_len 0 = max_lit then 2 else 1) \<le> fuel"
      using Suc.prems(3) False lit_len_le [of m] by (auto simp: can_def rlw_simps max_lit_def split: if_splits)
    have buf: "number - can \<le> length (drop can buffer)" using Suc.prems(2) by simp
    obtain s' where s': "add_dirty_loop fuel (buffer_push_rlw s1 0) (drop can buffer) (number - can) negate = Inr s'"
      "ewah_rep s' ((ws @ run_words m1 @ lits @ ws1) @ run_words 0 @ [] @ map ?f (take (number - can) (drop can buffer)))"
      "eb_bit_size s' = size_t (eb_bit_size (buffer_push_rlw s1 0) + (number - can) * BITS_IN_EWORD)"
      using Suc.IH [OF seg2 buf fuel] False by auto
    have "ws1 @ map ?f (take (number - can) (drop can buffer)) = map ?f (take number buffer)"
    proof -
      have "take number buffer = take can buffer @ take (number - can) (drop can buffer)"
        using take_add [of can "number - can" buffer] by (simp add: can_def)
      then show ?thesis by (simp only: ws1_def map_append)
    qed
    moreover have "size_t (eb_bit_size s1 + (number - can) * BITS_IN_EWORD) = size_t (eb_bit_size s + number * BITS_IN_EWORD)"
    proof -
      have "can * BITS_IN_EWORD + (number - can) * BITS_IN_EWORD = number * BITS_IN_EWORD"
        by (simp add: can_def flip: add_mult_distrib)
      then show ?thesis by (simp add: s1_def add.assoc)
    qed
    ultimately show ?thesis
      using s' w1 False unfolding step by (simp add: rlw_simps)
  qed
qed

lemma ewah_add_dirty_words_ok:
  assumes "ewah_rep s ws" and "number \<le> length buffer"
  shows "\<exists>s'. ewah_add_dirty_words s buffer number negate = Inr s' \<and>
    ewah_rep s' (ws @ map (if negate then not else id) (take number buffer)) \<and>
    eb_bit_size s' = size_t (eb_bit_size s + number * BITS_IN_EWORD)"
proof -
  obtain pre m lits ws0 where seg: "segments s pre m lits ws0" and ws: "ws = ws0 @ run_words m @ lits"
    and ne: "run_len m + length lits \<noteq> 0 \<or> pre = []"
    using assms(1) unfolding ewah_rep_def by blast
  from add_dirty_loop_ok [OF seg assms(2), of "number + 2" negate] ne ws show ?thesis
    by (auto simp: ewah_add_dirty_words_def)
qed

subsection \<open>Setting bits in increasing order\<close>

definition bit_at :: "eword list \<Rightarrow> nat \<Rightarrow> bool" where
  "bit_at ws i \<longleftrightarrow> i div 64 < length ws \<and> bit (ws ! (i div 64)) (i mod 64)"

text \<open>\<open>ewah_bits s S\<close>: the bitmap \<open>s\<close> is the set \<open>S\<close> of positions below its size.\<close>

definition ewah_bits :: "ewah_bitmap \<Rightarrow> nat set \<Rightarrow> bool" where
  "ewah_bits s S \<longleftrightarrow>
     (\<exists>ws. ewah_rep s ws \<and> length ws = (eb_bit_size s + 63) div 64 \<and> S = {i. bit_at ws i}) \<and>
     S \<subseteq> {..<eb_bit_size s}"

lemma DIV_ROUND_UP_bits: "n + 63 < 2 ^ 64 \<Longrightarrow> DIV_ROUND_UP n BITS_IN_EWORD = (n + 63) div 64"
  by (simp add: DIV_ROUND_UP_def BITS_IN_EWORD_def size_t_def)

lemma bit_at_append_zeros: "bit_at (ws @ replicate n 0) i = bit_at ws i"
  by (auto simp: bit_at_def nth_append)

lemma bit_at_snoc:
  assumes "length ws = i div 64"
  shows "bit_at (ws @ [push_bit (i mod 64) 1]) j \<longleftrightarrow> bit_at ws j \<or> j = i"
proof -
  have "j div 64 = i div 64 \<and> j mod 64 = i mod 64 \<longleftrightarrow> j = i" by (metis div_mult_mod_eq)
  then show ?thesis using assms by (auto simp: bit_at_def nth_append bit_simps)
qed

lemma bit_at_or_last:
  assumes "length ws = i div 64 + 1"
  shows "bit_at (butlast ws @ [last ws OR push_bit (i mod 64) 1]) j \<longleftrightarrow> bit_at ws j \<or> j = i"
proof -
  have "j div 64 = i div 64 \<and> j mod 64 = i mod 64 \<longleftrightarrow> j = i" by (metis div_mult_mod_eq)
  moreover have "last ws = ws ! (i div 64)" using assms by (subst last_conv_nth) auto
  ultimately show ?thesis using assms by (auto simp: bit_at_def nth_append bit_simps nth_butlast less_Suc_eq)
qed

lemma set_last_bit_ok:
  assumes rep: "ewah_rep s ws" and ne: "ws \<noteq> []" and b: "\<not> bit (last ws) k" and k: "k < 64"
  shows "\<exists>s'. set_in_last_word s (push_bit k 1) = Inr s' \<and>
    ewah_rep s' (butlast ws @ [last ws OR push_bit k 1]) \<and> eb_bit_size s' = eb_bit_size s"
proof -
  obtain pre m lits ws0 where seg: "segments s pre m lits ws0" and ws: "ws = ws0 @ run_words m @ lits"
    and empty: "run_len m + length lits = 0 \<longrightarrow> pre = []"
    using rep unfolding ewah_rep_def by (elim exE conjE) (rule that)
  have len: "length lits = lit_len m" using seg by (simp add: segments_def)
  show ?thesis
  proof (cases "lit_len m = 0")
    case True
    then have lits: "lits = []" using len by simp
    have run: "run_len m \<noteq> 0"
    proof
      assume z: "run_len m = 0"
      then have "pre = []" using empty lits by simp
      then have "ws0 = []" using seg by (simp add: segments_def)
      then show False using ne ws lits z by (simp add: run_words_def)
    qed
    have "last ws = fill (rlw_get_run_bit m)" using ws lits run by (simp add: run_words_def)
    then have zero: "\<not> rlw_get_run_bit m" "last ws = 0" using b k by (auto simp: fill_def bit_simps split: if_splits)
    define m1 where "m1 = rlw_set_running_len m (rlw_get_running_len m - 1)"
    have one: "rlw_get_running_len m - 1 = of_nat (run_len m - 1)"
      using run by (simp add: run_len_def)
    have r1: "run_len m1 = run_len m - 1" unfolding m1_def one using run_len_le [of m] by (intro run_len_set) simp
    define s1 where "s1 = s\<lparr>eb_buffer := pre @ m1 # lits\<rparr>"
    have seg1: "segments s1 pre m1 lits ws0" unfolding s1_def by (rule segments_put [OF seg]) (simp add: m1_def rlw_simps)
    have "run_words m = run_words m1 @ [0]"
    proof -
      have "run_words m = replicate (Suc (run_len m - 1)) 0" and "run_words m1 = replicate (run_len m - 1) 0"
        using run r1 zero(1) by (simp_all add: run_words_def fill_def m1_def rlw_simps)
      then show ?thesis by (simp add: replicate_append_same)
    qed
    then have bl: "butlast ws = ws0 @ run_words m1" using ws lits by (simp add: butlast_append)
    obtain s' n pre' m' lits' ws' where *: "add_literal s1 (push_bit k 1) = Inr (s', n)" "segments s' pre' m' lits' ws'"
      "ws' @ run_words m' @ lits' = ws0 @ run_words m1 @ [push_bit k 1]" "lits' \<noteq> []" "eb_bit_size s' = eb_bit_size s1"
      using add_literal_segments [OF seg1, of "push_bit k 1"] lits by auto
    have "ewah_rep s' (butlast ws @ [last ws OR push_bit k 1])"
      using ewah_repI [OF *(2)] *(3,4) bl zero(2) by simp
    then show ?thesis
      using segments_rlw [OF seg] True *(1,5) by (simp add: set_in_last_word_def rlw_0_iff m1_def [symmetric] s1_def)
  next
    case False
    then obtain ls l where lits: "lits = ls @ [l]" using len by (cases lits rule: rev_cases) auto
    have buf: "eb_buffer s = pre @ m # ls @ [l]" using seg lits by (simp add: segments_def)
    have lw: "last ws = l" "butlast ws = ws0 @ run_words m @ ls" using ws lits by (simp_all add: butlast_append)
    let ?l = "l OR push_bit k 1"
    have rdl: "rd (eb_buffer s) (length (eb_buffer s) - 1) = Inr l"
      by (simp add: buf nth_append)
    have wrl: "wr (eb_buffer s) (length (eb_buffer s) - 1) ?l = Inr (pre @ m # ls @ [?l])"
      by (simp add: buf list_update_append)
    show ?thesis
    proof (cases "?l = NOT 0")
      case True
      define m1 where "m1 = rlw_set_literal_words m (rlw_get_literal_words m - 1)"
      have one: "rlw_get_literal_words m - 1 = of_nat (lit_len m - 1)"
        using False by (simp add: lit_len_def)
      have l1: "lit_len m1 = lit_len m - 1" unfolding m1_def one using lit_len_le [of m] by (intro lit_len_set) simp
      define s1 where "s1 = s\<lparr>eb_buffer := pre @ m # ls\<rparr>"
      have put: "put_rlw s1 m1 = Inr (s1\<lparr>eb_buffer := pre @ m1 # ls\<rparr>)"
        using seg by (simp add: put_rlw_def s1_def segments_def)
      have seg1: "segments (s1\<lparr>eb_buffer := pre @ m1 # ls\<rparr>) pre m1 ls ws0"
        using seg l1 lits by (auto simp: segments_def s1_def)
      obtain s' n pre' m' lits' ws' where *: "add_empty_word (s1\<lparr>eb_buffer := pre @ m1 # ls\<rparr>) True = Inr (s', n)"
        "segments s' pre' m' lits' ws'" "ws' @ run_words m' @ lits' = ws0 @ run_words m1 @ ls @ [fill True]"
        "run_len m' \<noteq> 0" "eb_bit_size s' = eb_bit_size s"
        using add_empty_word_segments [OF seg1, of True] by (auto simp: s1_def)
      have "ewah_rep s' (butlast ws @ [last ws OR push_bit k 1])"
        using ewah_repI [OF *(2)] *(3,4) lw True by (simp add: fill_def m1_def rlw_simps)
      moreover have "take (length (eb_buffer s) - 1) (pre @ m # ls @ [?l]) = pre @ m # ls" by (simp add: buf)
      ultimately show ?thesis
        using segments_rlw(1) [OF seg] False True rdl wrl put *(1,5)
        by (simp add: set_in_last_word_def rlw_0_iff m1_def [symmetric] s1_def [symmetric] Let_def)
    next
      case l: False
      have "segments (s\<lparr>eb_buffer := pre @ m # ls @ [?l]\<rparr>) pre m (ls @ [?l]) ws0"
        using seg lits by (simp add: segments_def)
      from ewah_repI [OF this] show ?thesis
        using segments_rlw(1) [OF seg] False l rdl wrl lw by (simp add: set_in_last_word_def rlw_0_iff Let_def)
    qed
  qed
qed

lemma ewah_set_ok:
  assumes bits: "ewah_bits s S" and i: "eb_bit_size s \<le> i" "i < 2 ^ 64 - 64"
  shows "\<exists>s'. ewah_set s i = Inr s' \<and> ewah_bits s' (insert i S) \<and> eb_bit_size s' = i + 1"
proof -
  obtain ws where rep: "ewah_rep s ws" and len: "length ws = (eb_bit_size s + 63) div 64"
    and S: "S = {i. bit_at ws i}" and top: "S \<subseteq> {..<eb_bit_size s}"
    using bits by (auto simp: ewah_bits_def)
  let ?s = "s\<lparr>eb_bit_size := i + 1\<rparr>" and ?b = "push_bit (i mod 64) 1 :: eword"
  have rep': "ewah_rep ?s ws" using rep by simp
  define dist where "dist = i div 64 + 1 - length ws"
  have le: "length ws \<le> i div 64 + 1" using div_le_mono [of "eb_bit_size s + 63" "i + 64" 64] i(1) len by simp
  have fin: ?thesis if "ewah_set s i = Inr s'" "ewah_rep s' ws'" "length ws' = i div 64 + 1"
    "\<And>j. bit_at ws' j \<longleftrightarrow> bit_at ws j \<or> j = i" "eb_bit_size s' = i + 1" for s' ws'
  proof -
    have "insert i S = {j. bit_at ws' j}" using S that(4) by auto
    then have "ewah_bits s' (insert i S)"
      unfolding ewah_bits_def using that(2,3,5) top i(1) by auto
    then show ?thesis using that(1,5) by blast
  qed
  have B: "BITS_IN_EWORD = 64" by (simp add: BITS_IN_EWORD_def)
  have run: "ewah_set s i = (if dist > 0 then
      rbind (if dist > 1 then add_empty_words ?s False (dist - 1) else Inr (?s, 0)) (\<lambda>(self, _).
      rbind (add_literal self ?b) (\<lambda>(self, _). Inr self)) else set_in_last_word ?s ?b)"
  proof -
    have w: "size_t (i + 1) = i + 1" using i(2) by (simp add: size_t_def)
    have "DIV_ROUND_UP (i + 1) BITS_IN_EWORD = i div 64 + 1" using i(2) by (subst DIV_ROUND_UP_bits) simp_all
    moreover have "DIV_ROUND_UP (eb_bit_size s) BITS_IN_EWORD = length ws" using i len by (subst DIV_ROUND_UP_bits) simp_all
    ultimately have d: "size_sub (DIV_ROUND_UP (i + 1) BITS_IN_EWORD) (DIV_ROUND_UP (eb_bit_size s) BITS_IN_EWORD) = dist"
      using le i(2) by (simp add: size_sub_small dist_def)
    show ?thesis using i(1) unfolding ewah_set_def Let_def w d check_def unfolding B by simp
  qed
  show ?thesis
  proof (cases "dist > 0")
    case True
    have "\<exists>s1 k. (if dist > 1 then add_empty_words ?s False (dist - 1) else Inr (?s, 0)) = Inr (s1, k) \<and>
      ewah_rep s1 (ws @ replicate (dist - 1) 0) \<and> eb_bit_size s1 = i + 1"
      using add_empty_words_ok [OF rep', of "dist - 1" False] rep' True
      by (cases "dist > 1") (auto simp: fill_def)
    then obtain s1 k where s1: "(if dist > 1 then add_empty_words ?s False (dist - 1) else Inr (?s, 0)) = Inr (s1, k)"
      "ewah_rep s1 (ws @ replicate (dist - 1) 0)" "eb_bit_size s1 = i + 1" by blast
    obtain s2 k2 where s2: "add_literal s1 ?b = Inr (s2, k2)" "ewah_rep s2 ((ws @ replicate (dist - 1) 0) @ [?b])"
      "eb_bit_size s2 = i + 1"
      using add_literal_ok [OF s1(2)] s1(3) by metis
    have l: "length (ws @ replicate (dist - 1) 0) = i div 64" using True le by (simp add: dist_def)
    show ?thesis
    proof (rule fin)
      show "ewah_set s i = Inr s2" unfolding run using True s1(1) s2(1) by simp
      show "bit_at ((ws @ replicate (dist - 1) 0) @ [?b]) j \<longleftrightarrow> bit_at ws j \<or> j = i" for j
        using bit_at_snoc [OF l] bit_at_append_zeros by blast
    qed (use l s2 in simp_all)
  next
    case False
    then have l: "length ws = i div 64 + 1" using le by (simp add: dist_def)
    have lw: "last ws = ws ! (i div 64)" using l by (subst last_conv_nth) auto
    have "\<not> bit_at ws i" using top i(1) S by auto
    then have b: "\<not> bit (last ws) (i mod 64)" using l lw by (simp add: bit_at_def)
    have ne: "ws \<noteq> []" using l by auto
    obtain s' where s': "ewah_set s i = Inr s'" "ewah_rep s' (butlast ws @ [last ws OR ?b])" "eb_bit_size s' = i + 1"
      using set_last_bit_ok [OF rep' ne b] False unfolding run by auto
    show ?thesis
      by (rule fin [OF s'(1,2)]) (use l s'(3) bit_at_or_last [OF l] in simp_all)
  qed
qed

lemma ewah_rep_new: "ewah_rep ewah_new []"
proof -
  have "segments ewah_new [] 0 [] []"
    by (simp add: segments_def ewah_new_def ewah_clear_def rlw_simps)
  from ewah_repI [OF this] show ?thesis by (simp add: rlw_simps)
qed

lemma ewah_bits_new: "ewah_bits ewah_new {}" "eb_bit_size ewah_new = 0"
proof -
  show size: "eb_bit_size ewah_new = 0" by (simp add: ewah_new_def ewah_clear_def)
  show "ewah_bits ewah_new {}"
    unfolding ewah_bits_def using ewah_rep_new size
    by (auto intro!: exI [of _ "[]"] simp: bit_at_def)
qed

subsection \<open>Visiting the bits\<close>

definition word_bits :: "eword \<Rightarrow> nat list" where
  "word_bits w = filter (bit w) [0..<64]"

fun bits_from :: "nat \<Rightarrow> eword list \<Rightarrow> nat list" where
  "bits_from pos [] = []"
| "bits_from pos (w # ws) = map ((+) pos) (word_bits w) @ bits_from (pos + 64) ws"

lemma bits_from_append: "bits_from pos (xs @ ys) = bits_from pos xs @ bits_from (pos + 64 * length xs) ys"
  by (induction xs arbitrary: pos) (simp_all add: algebra_simps)

lemma each_bit_of_word_bits: "each_bit_of_word (size_t pos) w = map size_t (map ((+) pos) (word_bits w))"
proof -
  have "w AND push_bit c 1 \<noteq> 0 \<longleftrightarrow> bit w c" for c
    using and_exp_eq_0_iff_not_bit [of w c] by simp
  then show ?thesis by (simp add: each_bit_of_word_def word_bits_def BITS_IN_EWORD_def)
qed

lemma each_bit_of_literals_ok:
  "pointer + k \<le> length buffer \<Longrightarrow>
   each_bit_of_literals k buffer pointer (size_t pos)
     = Inr (map size_t (bits_from pos (take k (drop pointer buffer))), pointer + k, size_t (pos + k * 64))"
proof (induction k arbitrary: pointer pos)
  case (Suc k)
  then have "drop pointer buffer = buffer ! pointer # drop (Suc pointer) buffer" by (simp add: Cons_nth_drop_Suc)
  with Suc show ?case by (simp add: each_bit_of_word_bits BITS_IN_EWORD_def add.assoc)
qed simp

lemma bits_from_run: "bits_from pos (replicate n (fill b)) = (if b then [pos..<pos + n * 64] else [])"
proof (induction n arbitrary: pos)
  case (Suc n)
  have one: "word_bits (fill True) = [0..<64]" by (auto simp: word_bits_def fill_def bit_simps intro: filter_True)
  have zero: "word_bits (fill False) = []" by (simp add: word_bits_def fill_def)
  have "map ((+) pos) [0..<64] = [pos..<pos + 64]"
  proof -
    have "map ((+) pos) [0..<64] = map (\<lambda>i. i + pos) [0..<64]" by (rule map_cong) simp_all
    also have "\<dots> = [pos..<64 + pos]" by (rule map_add_upt)
    finally show ?thesis by (simp only: add.commute [of 64])
  qed
  moreover have "[pos..<pos + 64] @ [pos + 64..<pos + 64 + n * 64] = [pos..<pos + Suc n * 64]"
    using upt_add_eq_append [of pos "pos + 64" "n * 64"] by (simp add: algebra_simps)
  ultimately show ?case using Suc.IH [of "pos + 64"] one zero by simp
qed simp

lemma each_bit_loop_ok:
  assumes "ewah_words (drop pointer buffer) = Some ws"
  shows "each_bit_loop buffer pointer (size_t pos) = Inr (map size_t (bits_from pos ws))"
  using assms
proof (induction "length buffer - pointer" arbitrary: pointer pos ws rule: less_induct)
  case less
  show ?case
  proof (cases "pointer < length buffer")
    case False
    with less.prems show ?thesis by (simp add: each_bit_loop.simps [of buffer])
  next
    case True
    let ?w = "buffer ! pointer" and ?n = "run_len (buffer ! pointer) * 64"
    have dr: "drop pointer buffer = ?w # drop (Suc pointer) buffer" using True by (simp add: Cons_nth_drop_Suc)
    then obtain ws' where lit: "lit_len ?w \<le> length (drop (Suc pointer) buffer)"
      and rest: "ewah_words (drop (lit_len ?w) (drop (Suc pointer) buffer)) = Some ws'"
      and ws: "ws = run_words ?w @ take (lit_len ?w) (drop (Suc pointer) buffer) @ ws'"
      using less.prems by (auto split: if_splits)
    have lits: "each_bit_of_literals (lit_len ?w) buffer (pointer + 1) (size_t (pos + ?n)) =
        Inr (map size_t (bits_from (pos + ?n) (take (lit_len ?w) (drop (pointer + 1) buffer))),
             pointer + 1 + lit_len ?w, size_t (pos + ?n + lit_len ?w * 64))"
      using each_bit_of_literals_ok [of "pointer + 1" "lit_len ?w" buffer] lit True by simp
    have "each_bit_loop buffer (pointer + 1 + lit_len ?w) (size_t (pos + ?n + lit_len ?w * 64))
        = Inr (map size_t (bits_from (pos + ?n + lit_len ?w * 64) ws'))"
      by (rule less.hyps) (use True rest in \<open>simp_all add: add.commute\<close>)
    moreover have "map (\<lambda>k. size_t (size_t pos + k)) [0..<?n] = map size_t [pos..<pos + ?n]"
      by (intro nth_equalityI) simp_all
    ultimately show ?thesis
      using True lits lit bits_from_run [of pos "run_len ?w" "rlw_get_run_bit ?w"]
      by (simp add: each_bit_loop.simps [of buffer pointer] Let_def lit_len_def [symmetric] run_len_def [symmetric]
          BITS_IN_EWORD_def ws bits_from_append run_words_def algebra_simps)
  qed
qed

lemma ewah_each_bit_ok: "ewah_rep s ws \<Longrightarrow> ewah_each_bit s = Inr (map size_t (bits_from 0 ws))"
  using each_bit_loop_ok [of 0 "eb_buffer s" ws 0] ewah_rep_words [of s ws] by (simp add: ewah_each_bit_def size_t_def)

lemma bits_from_sorted: "sorted_wrt (<) (bits_from pos ws) \<and> set (bits_from pos ws) = {pos + i | i. bit_at ws i}"
proof (induction ws arbitrary: pos)
  case Nil
  then show ?case by (simp add: bit_at_def)
next
  case (Cons w ws)
  have sw: "sorted_wrt (<) (map ((+) pos) (word_bits w))"
    by (simp add: word_bits_def sorted_wrt_map sorted_wrt_filter)
  have lt: "\<forall>x \<in> set (map ((+) pos) (word_bits w)). x < pos + 64" by (auto simp: word_bits_def)
  have ge: "\<forall>x \<in> set (bits_from (pos + 64) ws). pos + 64 \<le> x" using Cons.IH [of "pos + 64"] by auto
  have eq: "{pos + i | i. bit_at (w # ws) i} = (+) pos ` {i. i < 64 \<and> bit w i} \<union> {pos + 64 + i | i. bit_at ws i}"
  proof -
    have "bit_at (w # ws) i \<longleftrightarrow> i < 64 \<and> bit w i \<or> (\<exists>j. i = 64 + j \<and> bit_at ws j)" for i
    proof (cases "i < 64")
      case False
      then obtain j where j: "i = 64 + j" by (metis le_add_diff_inverse not_less)
      then have "i div 64 = Suc (j div 64)" "i mod 64 = j mod 64" by simp_all
      with j show ?thesis by (simp add: bit_at_def)
    qed (simp add: bit_at_def)
    then show ?thesis by (auto simp: add.assoc)
  qed
  have "set (bits_from pos (w # ws)) = {pos + i | i. bit_at (w # ws) i}"
    unfolding eq using Cons.IH [of "pos + 64"] by (auto simp: word_bits_def)
  moreover have "sorted_wrt (<) (bits_from pos (w # ws))"
    using sw lt ge Cons.IH [of "pos + 64"] by (fastforce simp: sorted_wrt_append)
  ultimately show ?case by blast
qed

fun set_all :: "ewah_bitmap \<Rightarrow> nat list \<Rightarrow> ewah_bitmap result" where
  "set_all s [] = Inr s"
| "set_all s (i # is) = rbind (ewah_set s i) (\<lambda>s. set_all s is)"

lemma set_all_ok:
  assumes "ewah_bits s S" and "sorted_wrt (<) is" and "\<forall>i \<in> set is. eb_bit_size s \<le> i \<and> i < 2 ^ 64 - 64"
  shows "\<exists>s'. set_all s is = Inr s' \<and> ewah_bits s' (S \<union> set is)"
  using assms
proof (induction "is" arbitrary: s S)
  case (Cons i "is")
  obtain s' where s': "ewah_set s i = Inr s'" "ewah_bits s' (insert i S)" "eb_bit_size s' = i + 1"
    using ewah_set_ok [OF Cons.prems(1)] Cons.prems(3) by auto
  have "\<forall>j \<in> set is. eb_bit_size s' \<le> j \<and> j < 2 ^ 64 - 64" using Cons.prems(2,3) s'(3) by auto
  then show ?case using Cons.IH [OF s'(2)] Cons.prems(2) s'(1) by auto
qed auto

lemma sorted_lists_eq:
  "sorted_wrt (<) xs \<Longrightarrow> sorted_wrt (<) ys \<Longrightarrow> set xs = set ys \<Longrightarrow> xs = (ys :: nat list)"
  by (rule sorted_distinct_set_unique)
    (auto simp: strict_sorted_iff)

subsection \<open>Properties\<close>

text \<open>C12: setting the bits of any increasing sequence of positions below \<open>2\<^sup>6\<^sup>4 - 64\<close> in a fresh compressed bitmap
  succeeds (no assertion fails, no access leaves the buffer), and visiting the bits of the result calls
  the callback with exactly these positions in order.  The bound is the last one for which the
  \<^verbatim>\<open>size_t\<close> arithmetic of \<^verbatim>\<open>ewah_set()\<close> does not wrap: from there on \<^verbatim>\<open>DIV_ROUND_UP(i + 1, 64)\<close> is 0.\<close>

theorem ewah_set_each_bit:
  assumes "sorted_wrt (<) is" and "\<forall>i \<in> set is. i < 2 ^ 64 - 64"
  shows "\<exists>s. set_all ewah_new is = Inr s \<and> ewah_each_bit s = Inr is"
proof -
  obtain s where s: "set_all ewah_new is = Inr s" "ewah_bits s (set is)"
    using set_all_ok [OF ewah_bits_new(1) assms(1)] ewah_bits_new(2) assms(2) by auto
  then obtain ws where rep: "ewah_rep s ws" and eq: "set is = {i. bit_at ws i}" by (auto simp: ewah_bits_def)
  have "bits_from 0 ws = is"
    using bits_from_sorted [of 0 ws] eq by (intro sorted_lists_eq [OF _ assms(1)]) auto
  moreover have "map size_t is = is" using assms(2) by (intro map_idI size_t_small) fastforce
  ultimately show ?thesis using s(1) ewah_each_bit_ok [OF rep] by auto
qed

theorem ewah_set_each_bit_witness:
  "sorted_wrt (<) [1, 76, 77, 2 ^ 64 - 65 :: nat] \<and> list_all (\<lambda>i. i < 2 ^ 64 - 64) [1, 76, 77, 2 ^ 64 - 65 :: nat] \<and>
   (\<exists>s. set_all ewah_new [1, 76, 77, 2 ^ 64 - 65] = Inr s \<and> ewah_each_bit s = Inr [1, 76, 77, 2 ^ 64 - 65])"
proof -
  have "sorted_wrt (<) [1, 76, 77, 2 ^ 64 - 65 :: nat]" "\<forall>i \<in> set [1, 76, 77, 2 ^ 64 - 65 :: nat]. i < 2 ^ 64 - 64"
    by simp_all
  with ewah_set_each_bit [OF this] show ?thesis unfolding list_all_iff by blast
qed

text \<open>C13: the word operations append: on a bitmap that stands for the words \<open>ws\<close>, adding a run of \<open>n\<close>
  equal words, a word, or a block of literal words (possibly complemented) never fails an assertion
  or leaves the buffer, and the result stands for \<open>ws\<close> followed by what was added, whatever the
  limits of the run and literal counters force it to split; the bit size grows by 64 bits per word,
  modulo \<open>2\<^sup>6\<^sup>4\<close>.\<close>

theorem ewah_append_refines:
  assumes "ewah_rep s ws" and "n \<le> length buffer" and "eb_bit_size s < 2 ^ 64"
  shows "(\<exists>s' k. ewah_add_empty_words s v n = Inr (s', k) \<and> ewah_rep s' (ws @ replicate n (fill v)) \<and>
      eb_bit_size s' = (eb_bit_size s + n * 64) mod 2 ^ 64) \<and>
    (\<exists>s' k. ewah_add s w = Inr (s', k) \<and> ewah_rep s' (ws @ [w]) \<and>
      eb_bit_size s' = (eb_bit_size s + 64) mod 2 ^ 64) \<and>
    (\<exists>s'. ewah_add_dirty_words s buffer n negate = Inr s' \<and>
      ewah_rep s' (ws @ map (if negate then not else id) (take n buffer)) \<and>
      eb_bit_size s' = (eb_bit_size s + n * 64) mod 2 ^ 64)"
proof -
  have "\<exists>s' k. ewah_add_empty_words s v n = Inr (s', k) \<and> ewah_rep s' (ws @ replicate n (fill v)) \<and>
      eb_bit_size s' = (eb_bit_size s + n * 64) mod 2 ^ 64"
    using ewah_add_empty_words_ok [OF assms(1), of v n] assms(3)
    by (cases "n = 0") (auto simp: BITS_IN_EWORD_def size_t_def)
  then show ?thesis
    using ewah_add_ok [OF assms(1), of w] ewah_add_dirty_words_ok [OF assms(1,2), of negate]
    by (simp add: BITS_IN_EWORD_def size_t_def)
qed

theorem ewah_append_refines_witness:
  "ewah_rep ewah_new [] \<and> eb_bit_size ewah_new < 2 ^ 64 \<and>
   (\<exists>s' k. ewah_add_empty_words ewah_new True 3 = Inr (s', k) \<and> ewah_rep s' (replicate 3 (fill True)) \<and>
     eb_bit_size s' = 192) \<and>
   (\<exists>s'. ewah_add_dirty_words ewah_new [5, 6, 7] 3 True = Inr s' \<and> ewah_rep s' [NOT 5, NOT 6, NOT 7] \<and>
     eb_bit_size s' = 192)"
proof -
  have n: "(3 :: nat) \<le> length [5, 6, 7 :: eword]" by simp
  have b: "eb_bit_size ewah_new = 0" by (rule ewah_bits_new(2))
  then have "eb_bit_size ewah_new < 2 ^ 64" by simp
  from ewah_append_refines [OF ewah_rep_new n this, of True 0 True] b ewah_rep_new show ?thesis
    by (simp del: replicate.simps)
qed

end
