(* ===== verification/Git_Ewah_Iterator.thy ===== *)
theory Git_Ewah_Iterator
  imports Git_Ewah
begin

unbundle bit_operations_syntax

section \<open>Reading compressed bitmaps word by word: ewah/ewah_bitmap.c\<close>

text \<open>
  \<^verbatim>\<open>struct ewah_iterator\<close> yields the uncompressed words of a bitmap one after the other, and
  \<^verbatim>\<open>struct ewah_or_iterator\<close> the union of several bitmaps.  Both keep the contract of the locale
  \<open>word_iterator\<close>, in which the loops \<^verbatim>\<open>while (..._next(&word, &it))\<close> of the clients are shown to
  visit exactly the words the iterator stands for.
\<close>

record ewah_iterator =
  it_buffer :: "eword list"
  it_pointer :: nat
  it_compressed :: nat
  it_literals :: nat
  it_rl :: nat
  it_lw :: nat
  it_b :: bool

function read_new_rlw_loop :: "ewah_iterator \<Rightarrow> ewah_iterator result" where
  "read_new_rlw_loop it =
     rbind (rd (it_buffer it) (it_pointer it)) (\<lambda>word.
       let it = it\<lparr>it_rl := unat (rlw_get_running_len word), it_lw := unat (rlw_get_literal_words word),
                   it_b := rlw_get_run_bit word\<rparr> in
       if it_rl it \<noteq> 0 \<or> it_lw it \<noteq> 0 then Inr it
       else if it_pointer it < length (it_buffer it) - 1 then
         read_new_rlw_loop (it\<lparr>it_pointer := it_pointer it + 1\<rparr>)
       else Inr (it\<lparr>it_pointer := length (it_buffer it)\<rparr>))"
  by auto
termination
  by (relation "measure (\<lambda>it. length (it_buffer it) - it_pointer it)") auto

declare read_new_rlw_loop.simps [simp del]

definition read_new_rlw :: "ewah_iterator \<Rightarrow> ewah_iterator result" where
  "read_new_rlw it = read_new_rlw_loop (it\<lparr>it_literals := 0, it_compressed := 0\<rparr>)"

text \<open>The end of \<^verbatim>\<open>ewah_iterator_next()\<close>: when the segment is used up, go to the next one.\<close>

definition end_of_segment :: "eword \<Rightarrow> ewah_iterator \<Rightarrow> (eword \<times> ewah_iterator) option result" where
  "end_of_segment word it =
     (if it_compressed it = it_rl it \<and> it_literals it = it_lw it then
        let it = it\<lparr>it_pointer := it_pointer it + 1\<rparr> in
        if it_pointer it < length (it_buffer it) then
          rbind (read_new_rlw it) (\<lambda>it. Inr (Some (word, it)))
        else Inr (Some (word, it))
      else Inr (Some (word, it)))"

definition ewah_iterator_next :: "ewah_iterator \<Rightarrow> (eword \<times> ewah_iterator) option result" where
  "ewah_iterator_next it =
     (if it_pointer it \<ge> length (it_buffer it) then Inr None
      else
        rbind (if it_compressed it < it_rl it then
                 Inr (if it_b it then NOT 0 else 0, it\<lparr>it_compressed := it_compressed it + 1\<rparr>)
               else
                 check (it_literals it < it_lw it) (
                   let it = it\<lparr>it_literals := it_literals it + 1, it_pointer := it_pointer it + 1\<rparr> in
                   check (it_pointer it < length (it_buffer it)) (
                     rbind (rd (it_buffer it) (it_pointer it)) (\<lambda>word. Inr (word, it))))) (\<lambda>(word, it).
          end_of_segment word it))"

definition ewah_iterator_init :: "ewah_bitmap \<Rightarrow> ewah_iterator result" where
  "ewah_iterator_init parent =
     (let it = \<lparr>it_buffer = eb_buffer parent, it_pointer = 0, it_compressed = 0, it_literals = 0,
                it_rl = 0, it_lw = 0, it_b = False\<rparr> in
      if it_pointer it < length (it_buffer it) then read_new_rlw it else Inr it)"

text \<open>The iterators of \<^verbatim>\<open>struct ewah_or_iterator\<close> are a list.\<close>

fun ewah_or_iterator_init :: "ewah_bitmap list \<Rightarrow> ewah_iterator list result" where
  "ewah_or_iterator_init [] = Inr []"
| "ewah_or_iterator_init (parent # parents) =
     rbind (ewah_iterator_init parent) (\<lambda>it.
     rbind (ewah_or_iterator_init parents) (\<lambda>its. Inr (it # its)))"

fun or_next_loop :: "ewah_iterator list \<Rightarrow> eword \<Rightarrow> bool \<Rightarrow> (eword \<times> bool \<times> ewah_iterator list) result" where
  "or_next_loop [] out ret = Inr (out, ret, [])"
| "or_next_loop (it # its) out ret =
     rbind (ewah_iterator_next it) (\<lambda>r.
       case r of
         None \<Rightarrow> rbind (or_next_loop its out ret) (\<lambda>(out, ret, its). Inr (out, ret, it # its))
       | Some (buf, it) \<Rightarrow>
           rbind (or_next_loop its (out OR buf) True) (\<lambda>(out, ret, its). Inr (out, ret, it # its)))"

definition ewah_or_iterator_next :: "ewah_iterator list \<Rightarrow> (eword \<times> ewah_iterator list) option result" where
  "ewah_or_iterator_next its =
     rbind (or_next_loop its 0 False) (\<lambda>(out, ret, its).
       Inr (if ret then Some (out, its) else None))"

subsection \<open>Loops over an iterator\<close>

text \<open>\<^verbatim>\<open>while (next(&word, &it)) body\<close>: the body goes on with a new state, or returns from the
  function (\<open>Inr\<close> of the inner sum).\<close>

fun while_next ::
  "('it \<Rightarrow> (eword \<times> 'it) option result) \<Rightarrow> ('s \<Rightarrow> eword \<Rightarrow> ('s + 'r) result) \<Rightarrow> nat \<Rightarrow> 'it \<Rightarrow> 's \<Rightarrow> ('s + 'r) result"
where
  "while_next nxt body 0 it s = Inl No_fuel"
| "while_next nxt body (Suc fuel) it s =
     rbind (nxt it) (\<lambda>r.
       case r of
         None \<Rightarrow> Inr (Inl s)
       | Some (word, it) \<Rightarrow>
           rbind (body s word) (\<lambda>t.
             case t of Inl s \<Rightarrow> while_next nxt body fuel it s | Inr ret \<Rightarrow> Inr (Inr ret)))"

fun for_words :: "('s \<Rightarrow> eword \<Rightarrow> ('s + 'r) result) \<Rightarrow> eword list \<Rightarrow> 's \<Rightarrow> ('s + 'r) result" where
  "for_words body [] s = Inr (Inl s)"
| "for_words body (w # ws) s =
     rbind (body s w) (\<lambda>t. case t of Inl s \<Rightarrow> for_words body ws s | Inr ret \<Rightarrow> Inr (Inr ret))"

locale word_iterator =
  fixes nxt :: "'it \<Rightarrow> (eword \<times> 'it) option result"
    and rep :: "'it \<Rightarrow> eword list \<Rightarrow> bool"
  assumes next_Nil: "rep it [] \<Longrightarrow> nxt it = Inr None"
    and next_Cons: "rep it (w # ws) \<Longrightarrow> \<exists>it'. nxt it = Inr (Some (w, it')) \<and> rep it' ws"
begin

lemma while_next_words:
  "rep it ws \<Longrightarrow> length ws < fuel \<Longrightarrow> while_next nxt body fuel it s = for_words body ws s"
proof (induction ws arbitrary: it s fuel)
  case Nil
  then obtain n where "fuel = Suc n" by (cases fuel) auto
  with next_Nil [OF Nil.prems(1)] show ?case by simp
next
  case (Cons w ws)
  then obtain n where n: "fuel = Suc n" "length ws < n" by (cases fuel) auto
  obtain it' where "nxt it = Inr (Some (w, it'))" "rep it' ws" using next_Cons [OF Cons.prems(1)] by blast
  with Cons.IH n show ?case by (auto split: sum.splits intro!: rbind_cong)
qed

lemma next_None_iff: "rep it ws \<Longrightarrow> nxt it = Inr None \<longleftrightarrow> ws = []"
  using next_Nil next_Cons by (cases ws) fastforce+

end

subsection \<open>The iterator of a bitmap\<close>

definition it_rep :: "ewah_iterator \<Rightarrow> eword list \<Rightarrow> bool" where
  "it_rep it ws \<longleftrightarrow>
     length (it_buffer it) \<le> it_pointer it \<and> ws = [] \<or>
     it_pointer it < length (it_buffer it) \<and> it_compressed it \<le> it_rl it \<and> it_literals it \<le> it_lw it \<and>
     (it_compressed it < it_rl it \<or> it_literals it < it_lw it) \<and>
     (\<exists>ws'. it_pointer it + 1 + (it_lw it - it_literals it) \<le> length (it_buffer it) \<and>
        ewah_words (drop (it_pointer it + 1 + (it_lw it - it_literals it)) (it_buffer it)) = Some ws' \<and>
        ws = replicate (it_rl it - it_compressed it) (fill (it_b it)) @
          take (it_lw it - it_literals it) (drop (it_pointer it + 1) (it_buffer it)) @ ws')"

lemma read_new_rlw_loop_ok:
  assumes "ewah_words (drop (it_pointer it) (it_buffer it)) = Some ws" and "it_pointer it < length (it_buffer it)"
    and "it_compressed it = 0" and "it_literals it = 0"
  shows "\<exists>it'. read_new_rlw_loop it = Inr it' \<and> it_rep it' ws"
  using assms
proof (induction it arbitrary: ws rule: read_new_rlw_loop.induct)
  case (1 it)
  let ?w = "it_buffer it ! it_pointer it"
  define it1 where "it1 = it\<lparr>it_rl := run_len ?w, it_lw := lit_len ?w, it_b := rlw_get_run_bit ?w\<rparr>"
  have dr: "drop (it_pointer it) (it_buffer it) = ?w # drop (Suc (it_pointer it)) (it_buffer it)"
    using "1.prems"(2) by (simp add: Cons_nth_drop_Suc)
  then obtain ws' where lit: "lit_len ?w \<le> length (drop (Suc (it_pointer it)) (it_buffer it))"
    and rest: "ewah_words (drop (lit_len ?w) (drop (Suc (it_pointer it)) (it_buffer it))) = Some ws'"
    and ws: "ws = run_words ?w @ take (lit_len ?w) (drop (Suc (it_pointer it)) (it_buffer it)) @ ws'"
    using "1.prems"(1) by (auto split: if_splits)
  have step: "read_new_rlw_loop it = (if run_len ?w \<noteq> 0 \<or> lit_len ?w \<noteq> 0 then Inr it1
      else if it_pointer it < length (it_buffer it) - 1 then read_new_rlw_loop (it1\<lparr>it_pointer := it_pointer it + 1\<rparr>)
      else Inr (it1\<lparr>it_pointer := length (it_buffer it)\<rparr>))"
    using "1.prems"(2)
    by (simp add: read_new_rlw_loop.simps [of it] Let_def it1_def run_len_def [symmetric] lit_len_def [symmetric])
  show ?case
  proof (cases "run_len ?w \<noteq> 0 \<or> lit_len ?w \<noteq> 0")
    case True
    then have "it_rep it1 ws"
      using "1.prems" lit rest ws by (auto simp: it_rep_def it1_def run_words_def add.commute)
    with True step show ?thesis by simp
  next
    case False
    then have ws: "ws = ws'" and rest: "ewah_words (drop (Suc (it_pointer it)) (it_buffer it)) = Some ws'"
      using ws rest by (simp_all add: run_words_def)
    show ?thesis
    proof (cases "it_pointer it < length (it_buffer it) - 1")
      case more: True
      have "\<exists>it'. read_new_rlw_loop (it1\<lparr>it_pointer := it_pointer it + 1\<rparr>) = Inr it' \<and> it_rep it' ws"
        using "1.IH" [of ?w it1] "1.prems" False more rest ws
        by (simp add: it1_def run_len_def [symmetric] lit_len_def [symmetric])
      then show ?thesis using step False more by simp
    next
      case last: False
      then have "ws = []" using "1.prems"(2) rest ws by simp
      then have "it_rep (it1\<lparr>it_pointer := length (it_buffer it)\<rparr>) ws" by (simp add: it_rep_def it1_def)
      then show ?thesis using step False last by simp
    qed
  qed
qed

lemma read_new_rlw_ok:
  assumes "ewah_words (drop (it_pointer it) (it_buffer it)) = Some ws" and "it_pointer it < length (it_buffer it)"
  shows "\<exists>it'. read_new_rlw it = Inr it' \<and> it_rep it' ws"
  using read_new_rlw_loop_ok [of "it\<lparr>it_literals := 0, it_compressed := 0\<rparr>" ws] assms by (simp add: read_new_rlw_def)

lemma ewah_iterator_init_ok:
  assumes "ewah_rep s ws"
  shows "\<exists>it. ewah_iterator_init s = Inr it \<and> it_rep it ws"
proof -
  have words: "ewah_words (eb_buffer s) = Some ws" by (rule ewah_rep_words [OF assms])
  have "eb_buffer s \<noteq> []" using assms by (auto simp: ewah_rep_def segments_def)
  then show ?thesis
    using read_new_rlw_ok [of "\<lparr>it_buffer = eb_buffer s, it_pointer = 0, it_compressed = 0, it_literals = 0,
                it_rl = 0, it_lw = 0, it_b = False\<rparr>" ws] words
    by (simp add: ewah_iterator_init_def)
qed

text \<open>What happens after a word has been produced.\<close>

lemma end_of_segment_ok:
  assumes bounds: "it_compressed it \<le> it_rl it" "it_literals it \<le> it_lw it" "it_pointer it < length (it_buffer it)"
    and room: "it_pointer it + 1 + (it_lw it - it_literals it) \<le> length (it_buffer it)"
    and rest: "ewah_words (drop (it_pointer it + 1 + (it_lw it - it_literals it)) (it_buffer it)) = Some ws'"
    and ws: "ws = replicate (it_rl it - it_compressed it) (fill (it_b it)) @
          take (it_lw it - it_literals it) (drop (it_pointer it + 1) (it_buffer it)) @ ws'"
  shows "\<exists>it'. end_of_segment word it = Inr (Some (word, it')) \<and> it_rep it' ws"
proof (cases "it_compressed it = it_rl it \<and> it_literals it = it_lw it")
  case True
  then have w: "ws = ws'" and r: "ewah_words (drop (it_pointer it + 1) (it_buffer it)) = Some ws'"
    using ws rest by simp_all
  show ?thesis
  proof (cases "it_pointer it + 1 < length (it_buffer it)")
    case more: True
    from read_new_rlw_ok [of "it\<lparr>it_pointer := it_pointer it + 1\<rparr>" ws'] True more r w
    show ?thesis by (auto simp: end_of_segment_def)
  next
    case False
    then have "ws' = []" using r by simp
    with True False w show ?thesis by (simp add: it_rep_def end_of_segment_def)
  qed
next
  case False
  then have "it_rep it ws" using bounds room rest ws by (auto simp: it_rep_def)
  with False show ?thesis by (auto simp: end_of_segment_def)
qed

interpretation ewah_it: word_iterator ewah_iterator_next it_rep
proof unfold_locales
  fix it
  assume "it_rep it []"
  then show "ewah_iterator_next it = Inr None"
    by (auto simp: it_rep_def ewah_iterator_next_def)
next
  fix it w ws
  assume rep: "it_rep it (w # ws)"
  let ?b = "it_buffer it" and ?p = "it_pointer it" and ?l = "it_lw it - it_literals it"
  obtain ws' where ptr: "?p < length ?b" and le: "it_compressed it \<le> it_rl it" "it_literals it \<le> it_lw it"
    and some: "it_compressed it < it_rl it \<or> it_literals it < it_lw it"
    and room: "?p + 1 + ?l \<le> length ?b" and rest: "ewah_words (drop (?p + 1 + ?l) ?b) = Some ws'"
    and ws: "w # ws = replicate (it_rl it - it_compressed it) (fill (it_b it)) @ take ?l (drop (?p + 1) ?b) @ ws'"
    using rep by (auto simp: it_rep_def)
  show "\<exists>it'. ewah_iterator_next it = Inr (Some (w, it')) \<and> it_rep it' ws"
  proof (cases "it_compressed it < it_rl it")
    case True
    define it1 where "it1 = it\<lparr>it_compressed := it_compressed it + 1\<rparr>"
    obtain n where n: "it_rl it - it_compressed it = Suc n" using True by (metis Suc_diff_Suc)
    then have w: "w = fill (it_b it)" "ws = replicate n (fill (it_b it)) @ take ?l (drop (?p + 1) ?b) @ ws'"
      using ws by simp_all
    have "it_rl it1 - it_compressed it1 = n" using n by (simp add: it1_def)
    then have "\<exists>it'. end_of_segment w it1 = Inr (Some (w, it')) \<and> it_rep it' ws"
      using True le ptr room rest w(2) by (intro end_of_segment_ok [of it1 ws']) (simp_all add: it1_def)
    then show ?thesis
      using True ptr w(1) by (simp add: ewah_iterator_next_def it1_def fill_def split del: if_split)
  next
    case False
    then have lit: "it_literals it < it_lw it" and rl: "it_rl it = it_compressed it" using some le by auto
    then obtain n where n: "?l = Suc n" by (metis Suc_diff_Suc)
    define it1 where "it1 = it\<lparr>it_literals := it_literals it + 1, it_pointer := ?p + 1\<rparr>"
    have p1: "?p + 1 < length ?b" using room n by simp
    then have "drop (?p + 1) ?b = ?b ! (?p + 1) # drop (?p + 2) ?b" using Cons_nth_drop_Suc [of "?p + 1" ?b] by simp
    then have w: "w = ?b ! (?p + 1)" "ws = take n (drop (?p + 2) ?b) @ ws'"
      using ws n rl by simp_all
    have l1: "it_lw it1 - it_literals it1 = n" using n by (simp add: it1_def)
    have "\<exists>it'. end_of_segment w it1 = Inr (Some (w, it')) \<and> it_rep it' ws"
      using lit le p1 room rest w(2) n rl
      by (intro end_of_segment_ok [of it1 ws'], unfold l1) (simp_all add: it1_def numeral_2_eq_2)
    then show ?thesis
      using False ptr p1 lit w(1) by (simp add: ewah_iterator_next_def it1_def check_def Let_def)
  qed
qed

subsection \<open>The iterator over a union\<close>

fun zip_or :: "eword list \<Rightarrow> eword list \<Rightarrow> eword list" where
  "zip_or [] ys = ys"
| "zip_or xs [] = xs"
| "zip_or (x # xs) (y # ys) = (x OR y) # zip_or xs ys"

definition or_words :: "eword list list \<Rightarrow> eword list" where
  "or_words wss = foldr zip_or wss []"

definition hd0 :: "eword list \<Rightarrow> eword" where
  "hd0 ws = (case ws of [] \<Rightarrow> 0 | w # _ \<Rightarrow> w)"

lemma hd0_simps [simp]: "hd0 [] = 0" "hd0 (w # ws) = w"
  by (simp_all add: hd0_def)

lemma zip_or_Nil2 [simp]: "zip_or xs [] = xs"
  by (cases xs) simp_all

lemma zip_or_parts:
  "hd0 (zip_or xs ys) = hd0 xs OR hd0 ys" "tl (zip_or xs ys) = zip_or (tl xs) (tl ys)"
  "zip_or xs ys = [] \<longleftrightarrow> xs = [] \<and> ys = []"
  by (induction xs ys rule: zip_or.induct) auto

lemma or_words_parts:
  "hd0 (or_words wss) = foldr (\<lambda>ws acc. hd0 ws OR acc) wss 0" "tl (or_words wss) = or_words (map tl wss)"
  "or_words wss = [] \<longleftrightarrow> (\<forall>ws \<in> set wss. ws = [])"
  by (induction wss) (simp_all add: or_words_def zip_or_parts)

definition or_rep :: "ewah_iterator list \<Rightarrow> eword list \<Rightarrow> bool" where
  "or_rep its ws \<longleftrightarrow> (\<exists>wss. list_all2 it_rep its wss \<and> ws = or_words wss)"

lemma or_next_loop_ok:
  assumes "list_all2 it_rep its wss"
  shows "\<exists>its'. or_next_loop its out ret =
      Inr (out OR foldr (\<lambda>ws acc. hd0 ws OR acc) wss 0, ret \<or> (\<exists>ws \<in> set wss. ws \<noteq> []), its') \<and>
    list_all2 it_rep its' (map tl wss)"
  using assms
proof (induction its wss arbitrary: out ret rule: list_all2_induct)
  case (Cons it its ws wss)
  note IH = Cons.IH
  show ?case
  proof (cases ws)
    case Nil
    then have "ewah_iterator_next it = Inr None" using ewah_it.next_Nil Cons.hyps(1) by simp
    with Nil IH [of out ret] Cons.hyps(1) show ?thesis by auto
  next
    case (Cons w ws')
    then obtain it' where "ewah_iterator_next it = Inr (Some (w, it'))" "it_rep it' ws'"
      using ewah_it.next_Cons \<open>it_rep it ws\<close> by blast
    with Cons show ?thesis using IH [of "out OR w" True] by (auto simp: or.assoc)
  qed
qed simp

interpretation or_it: word_iterator ewah_or_iterator_next or_rep
proof unfold_locales
  fix its
  assume "or_rep its []"
  then obtain wss where wss: "list_all2 it_rep its wss" "or_words wss = []" by (auto simp: or_rep_def)
  then have "\<not> (\<exists>ws \<in> set wss. ws \<noteq> [])" by (simp add: or_words_parts(3))
  with or_next_loop_ok [OF wss(1), of 0 False] show "ewah_or_iterator_next its = Inr None"
    by (auto simp: ewah_or_iterator_next_def)
next
  fix its w ws
  assume "or_rep its (w # ws)"
  then obtain wss where wss: "list_all2 it_rep its wss" and w: "or_words wss = w # ws" by (auto simp: or_rep_def)
  then have "\<exists>ws \<in> set wss. ws \<noteq> []" using or_words_parts(3) [of wss] by auto
  moreover have "foldr (\<lambda>ws acc. hd0 ws OR acc) wss 0 = w" "or_words (map tl wss) = ws"
    using or_words_parts(1,2) [of wss] w by simp_all
  ultimately show "\<exists>its'. ewah_or_iterator_next its = Inr (Some (w, its')) \<and> or_rep its' ws"
    using or_next_loop_ok [OF wss(1), of 0 False] by (auto simp: ewah_or_iterator_next_def or_rep_def)
qed

lemma ewah_or_iterator_init_ok:
  assumes "list_all2 ewah_rep parents wss"
  shows "\<exists>its. ewah_or_iterator_init parents = Inr its \<and> or_rep its (or_words wss)"
proof -
  have "\<exists>its. ewah_or_iterator_init parents = Inr its \<and> list_all2 it_rep its wss"
    using assms
  proof (induction parents wss rule: list_all2_induct)
    case (Cons s parents ws wss)
    obtain it where "ewah_iterator_init s = Inr it" "it_rep it ws" using ewah_iterator_init_ok [OF Cons.hyps(1)] by blast
    with Cons.IH show ?case by auto
  qed simp
  then show ?thesis by (auto simp: or_rep_def)
qed

subsection \<open>How many words an iterator can yield\<close>

function ewah_count :: "eword list \<Rightarrow> nat" where
  "ewah_count [] = 0"
| "ewah_count (w # rest) = run_len w + lit_len w + ewah_count (drop (lit_len w) rest)"
  by pat_completeness auto
termination
  by (relation "measure length") simp_all

lemma ewah_count_words: "ewah_words buffer = Some ws \<Longrightarrow> length ws = ewah_count buffer"
proof (induction buffer arbitrary: ws rule: ewah_words.induct)
  case (2 w rest)
  from "2.prems" obtain ws' where lit: "lit_len w \<le> length rest"
    and rest: "ewah_words (drop (lit_len w) rest) = Some ws'"
    and ws: "ws = run_words w @ take (lit_len w) rest @ ws'"
    by (auto split: if_splits)
  from "2.IH" [OF lit rest] lit show ?case by (simp add: ws run_words_def)
qed simp

text \<open>Collecting what an iterator yields.\<close>

definition collect_words :: "('it \<Rightarrow> (eword \<times> 'it) option result) \<Rightarrow> nat \<Rightarrow> 'it \<Rightarrow> (eword list + unit) result" where
  "collect_words nxt fuel it = while_next nxt (\<lambda>ws w. Inr (Inl (ws @ [w]))) fuel it []"

lemma for_words_collect: "for_words (\<lambda>ws w. Inr (Inl (ws @ [w]))) xs acc = Inr (Inl (acc @ xs))"
  by (induction xs arbitrary: acc) simp_all

subsection \<open>Properties\<close>

text \<open>C14: iterating over a compressed bitmap yields exactly the words it stands for, and iterating over
  several bitmaps at once yields the bitwise union of their words, padded with zeros to the
  longest; no assertion of the iterators fails and none of them reads outside of its buffer.\<close>

theorem ewah_iterators_yield:
  assumes "list_all2 ewah_rep parents wss"
  shows "(\<forall>i < length parents. \<exists>it. ewah_iterator_init (parents ! i) = Inr it \<and>
      collect_words ewah_iterator_next (length (wss ! i) + 1) it = Inr (Inl (wss ! i))) \<and>
    (\<exists>its. ewah_or_iterator_init parents = Inr its \<and>
      collect_words ewah_or_iterator_next (length (or_words wss) + 1) its = Inr (Inl (or_words wss)))"
proof (intro conjI allI impI)
  fix i assume "i < length parents"
  then have "ewah_rep (parents ! i) (wss ! i)" using assms by (simp add: list_all2_nthD)
  then obtain it where "ewah_iterator_init (parents ! i) = Inr it" "it_rep it (wss ! i)"
    using ewah_iterator_init_ok by blast
  then show "\<exists>it. ewah_iterator_init (parents ! i) = Inr it \<and>
      collect_words ewah_iterator_next (length (wss ! i) + 1) it = Inr (Inl (wss ! i))"
    by (auto simp: collect_words_def ewah_it.while_next_words for_words_collect simp del: while_next.simps)
next
  obtain its where "ewah_or_iterator_init parents = Inr its" "or_rep its (or_words wss)"
    using ewah_or_iterator_init_ok [OF assms] by blast
  then show "\<exists>its. ewah_or_iterator_init parents = Inr its \<and>
      collect_words ewah_or_iterator_next (length (or_words wss) + 1) its = Inr (Inl (or_words wss))"
    by (auto simp: collect_words_def or_it.while_next_words for_words_collect simp del: while_next.simps)
qed

theorem ewah_iterators_yield_witness:
  "\<exists>s k its. ewah_add ewah_new 6 = Inr (s, k) \<and> list_all2 ewah_rep [s, ewah_new] [[6], []] \<and>
     ewah_or_iterator_init [s, ewah_new] = Inr its \<and>
     collect_words ewah_or_iterator_next 2 its = Inr (Inl [6])"
proof -
  obtain s k where s: "ewah_add ewah_new 6 = Inr (s, k)" "ewah_rep s [6]"
    using ewah_add_ok [OF ewah_rep_new, of 6] by auto
  then have reps: "list_all2 ewah_rep [s, ewah_new] [[6], []]" by (simp add: ewah_rep_new)
  have or: "or_words [[6], []] = [6]" and two: "length [6 :: eword] + 1 = 2" by (simp_all add: or_words_def)
  from conjunct2 [OF ewah_iterators_yield [OF reps]] s reps show ?thesis unfolding or two by blast
qed

end
