(* ===== verification/Git_Bitmap.thy ===== *)
theory Git_Bitmap
  imports Git_Ewah_Iterator
begin

unbundle bit_operations_syntax

section \<open>Uncompressed bitmaps: ewah/bitmap.c\<close>

text \<open>
  \<^verbatim>\<open>struct bitmap\<close> is an array of 64-bit words that grows on demand; \<^verbatim>\<open>word_alloc\<close> is the length of
  the list.  Memory that \<^verbatim>\<open>ALLOC_GROW\<close> adds without clearing it is the parameter \<open>junk\<close>.
  \<open>bitmap_bits\<close> is the set of positions a bitmap stands for, and every operation is shown to be the
  set operation its name promises, also where one of the two operands is compressed.
\<close>

record bitmap =
  bm_words :: "eword list"

definition EWAH_MASK :: "nat \<Rightarrow> eword" where
  "EWAH_MASK x = push_bit (x mod BITS_IN_EWORD) 1"

definition EWAH_BLOCK :: "nat \<Rightarrow> nat" where
  "EWAH_BLOCK x = x div BITS_IN_EWORD"

definition bitmap_word_alloc :: "nat \<Rightarrow> bitmap" where
  "bitmap_word_alloc word_alloc = \<lparr>bm_words = replicate word_alloc 0\<rparr>"

definition bitmap_new :: bitmap where
  "bitmap_new = bitmap_word_alloc 32"

definition bitmap_dup :: "bitmap \<Rightarrow> bitmap result" where
  "bitmap_dup src =
     (let dst = bitmap_word_alloc (length (bm_words src)) in
      rbind (slice (bm_words src) 0 (length (bm_words src))) (\<lambda>ws.
        Inr (dst\<lparr>bm_words := ws @ drop (length ws) (bm_words dst)\<rparr>)))"

definition bitmap_grow :: "bitmap \<Rightarrow> nat \<Rightarrow> bitmap" where
  "bitmap_grow self word_alloc =
     (let old_size = length (bm_words self);
          new_size = ALLOC_GROW word_alloc old_size in
      self\<lparr>bm_words := bm_words self @ replicate (new_size - old_size) 0\<rparr>)"

definition bitmap_set :: "bitmap \<Rightarrow> nat \<Rightarrow> bitmap result" where
  "bitmap_set self pos =
     (let block = EWAH_BLOCK pos;
          self = bitmap_grow self (block + 1) in
      rbind (rd (bm_words self) block) (\<lambda>w.
      rbind (wr (bm_words self) block (w OR EWAH_MASK pos)) (\<lambda>ws.
        Inr (self\<lparr>bm_words := ws\<rparr>))))"

definition bitmap_unset :: "bitmap \<Rightarrow> nat \<Rightarrow> bitmap result" where
  "bitmap_unset self pos =
     (let block = EWAH_BLOCK pos in
      if block < length (bm_words self) then
        rbind (rd (bm_words self) block) (\<lambda>w.
        rbind (wr (bm_words self) block (w AND NOT (EWAH_MASK pos))) (\<lambda>ws.
          Inr (self\<lparr>bm_words := ws\<rparr>)))
      else Inr self)"

definition bitmap_get :: "bitmap \<Rightarrow> nat \<Rightarrow> bool result" where
  "bitmap_get self pos =
     (let block = EWAH_BLOCK pos in
      if block < length (bm_words self) then
        rbind (rd (bm_words self) block) (\<lambda>w. Inr (w AND EWAH_MASK pos \<noteq> 0))
      else Inr False)"

text \<open>The loop of \<^verbatim>\<open>bitmap_to_ewah()\<close> over the words that are left.\<close>

fun to_ewah_loop :: "eword list \<Rightarrow> ewah_bitmap \<Rightarrow> nat \<Rightarrow> eword \<Rightarrow> (ewah_bitmap \<times> eword) result" where
  "to_ewah_loop [] ewah running_empty_words last_word = Inr (ewah, last_word)"
| "to_ewah_loop (w # ws) ewah running_empty_words last_word =
     (if w = 0 then to_ewah_loop ws ewah (running_empty_words + 1) last_word
      else
        rbind (if last_word \<noteq> 0 then rbind (ewah_add ewah last_word) (\<lambda>(ewah, _). Inr ewah) else Inr ewah) (\<lambda>ewah.
        rbind (if running_empty_words > 0 then
                 rbind (ewah_add_empty_words ewah False running_empty_words) (\<lambda>(ewah, _). Inr ewah)
               else Inr ewah) (\<lambda>ewah.
          to_ewah_loop ws ewah 0 w)))"

definition bitmap_to_ewah :: "bitmap \<Rightarrow> ewah_bitmap result" where
  "bitmap_to_ewah bitmap =
     rbind (to_ewah_loop (bm_words bitmap) ewah_new 0 0) (\<lambda>(ewah, last_word).
     rbind (ewah_add ewah last_word) (\<lambda>(ewah, _). Inr ewah))"

text \<open>\<open>ewah_fuel\<close> bounds the rounds of a loop over the words of a compressed bitmap.\<close>

definition ewah_fuel :: "ewah_bitmap \<Rightarrow> nat" where
  "ewah_fuel ewah = Suc (ewah_count (eb_buffer ewah))"

definition store_word :: "(nat \<Rightarrow> eword) \<Rightarrow> eword list \<times> nat \<Rightarrow> eword \<Rightarrow> ((eword list \<times> nat) + unit) result" where
  "store_word junk s blowup =
     (let (words, i) = s;
          words = words @ map junk [length words..<ALLOC_GROW (i + 1) (length words)] in
      rbind (wr words i blowup) (\<lambda>words. Inr (Inl (words, i + 1))))"

definition ewah_to_bitmap :: "(nat \<Rightarrow> eword) \<Rightarrow> ewah_bitmap \<Rightarrow> bitmap result" where
  "ewah_to_bitmap junk ewah =
     rbind (ewah_iterator_init ewah) (\<lambda>it.
     rbind (while_next ewah_iterator_next (store_word junk) (ewah_fuel ewah) it (bm_words bitmap_new, 0)) (\<lambda>r.
       case r of
         Inl (words, i) \<Rightarrow> Inr \<lparr>bm_words = take i words\<rparr>
       | Inr () \<Rightarrow> Inl Bug_called))"

fun and_not_loop :: "nat \<Rightarrow> nat \<Rightarrow> eword list \<Rightarrow> eword list \<Rightarrow> eword list result" where
  "and_not_loop 0 i ws os = Inr ws"
| "and_not_loop (Suc n) i ws os =
     rbind (rd ws i) (\<lambda>w. rbind (rd os i) (\<lambda>v. rbind (wr ws i (w AND NOT v)) (\<lambda>ws.
       and_not_loop n (i + 1) ws os)))"

definition bitmap_and_not :: "bitmap \<Rightarrow> bitmap \<Rightarrow> bitmap result" where
  "bitmap_and_not self other =
     (let count = (if length (bm_words self) < length (bm_words other) then length (bm_words self)
                   else length (bm_words other)) in
      rbind (and_not_loop count 0 (bm_words self) (bm_words other)) (\<lambda>ws. Inr (self\<lparr>bm_words := ws\<rparr>)))"

fun or_loop :: "nat \<Rightarrow> nat \<Rightarrow> eword list \<Rightarrow> eword list \<Rightarrow> eword list result" where
  "or_loop 0 i ws os = Inr ws"
| "or_loop (Suc n) i ws os =
     rbind (rd ws i) (\<lambda>w. rbind (rd os i) (\<lambda>v. rbind (wr ws i (w OR v)) (\<lambda>ws. or_loop n (i + 1) ws os)))"

definition bitmap_or :: "bitmap \<Rightarrow> bitmap \<Rightarrow> bitmap result" where
  "bitmap_or self other =
     (let self = bitmap_grow self (length (bm_words other)) in
      rbind (or_loop (length (bm_words other)) 0 (bm_words self) (bm_words other)) (\<lambda>ws.
        Inr (self\<lparr>bm_words := ws\<rparr>)))"

text \<open>The first loop of \<^verbatim>\<open>ewah_bitmap_is_subset()\<close>; \<open>Inr\<close> is a return from the function.\<close>

fun is_subset_loop :: "ewah_iterator \<Rightarrow> eword list \<Rightarrow> (ewah_iterator + bool) result" where
  "is_subset_loop it [] = Inr (Inl it)"
| "is_subset_loop it (v # vs) =
     rbind (ewah_iterator_next it) (\<lambda>r.
       case r of
         None \<Rightarrow> Inr (Inr True)
       | Some (word, it) \<Rightarrow> if word AND NOT v \<noteq> 0 then Inr (Inr False) else is_subset_loop it vs)"

definition stop_at_bit :: "unit \<Rightarrow> eword \<Rightarrow> (unit + bool) result" where
  "stop_at_bit s word = (if word \<noteq> 0 then Inr (Inr False) else Inr (Inl ()))"

definition ewah_bitmap_is_subset :: "ewah_bitmap \<Rightarrow> bitmap \<Rightarrow> bool result" where
  "ewah_bitmap_is_subset self other =
     rbind (ewah_iterator_init self) (\<lambda>it.
     rbind (is_subset_loop it (bm_words other)) (\<lambda>r.
       case r of
         Inr ret \<Rightarrow> Inr ret
       | Inl it \<Rightarrow>
           rbind (while_next ewah_iterator_next stop_at_bit (ewah_fuel self) it ()) (\<lambda>r.
             case r of Inr ret \<Rightarrow> Inr ret | Inl _ \<Rightarrow> Inr True)))"

definition or_word :: "eword list \<times> nat \<Rightarrow> eword \<Rightarrow> ((eword list \<times> nat) + unit) result" where
  "or_word s word =
     (let (words, i) = s in
      rbind (rd words i) (\<lambda>w. rbind (wr words i (w OR word)) (\<lambda>words. Inr (Inl (words, i + 1)))))"

definition bitmap_or_ewah :: "bitmap \<Rightarrow> ewah_bitmap \<Rightarrow> bitmap result" where
  "bitmap_or_ewah self other =
     (let original_size = length (bm_words self);
          other_final = eb_bit_size other div BITS_IN_EWORD + 1;
          words = (if original_size < other_final
                   then bm_words self @ replicate (other_final - original_size) 0 else bm_words self) in
      rbind (ewah_iterator_init other) (\<lambda>it.
      rbind (while_next ewah_iterator_next or_word (ewah_fuel other) it (words, 0)) (\<lambda>r.
        case r of Inl (words, i) \<Rightarrow> Inr (self\<lparr>bm_words := words\<rparr>) | Inr () \<Rightarrow> Inl Bug_called)))"

definition ewah_bit_popcount64 :: "u64 \<Rightarrow> u32" where
  "ewah_bit_popcount64 x =
     (let x = (x AND 0x5555555555555555) + (drop_bit 1 x AND 0x5555555555555555);
          x = (x AND 0x3333333333333333) + (drop_bit 2 x AND 0x3333333333333333);
          x = (x AND 0x0F0F0F0F0F0F0F0F) + (drop_bit 4 x AND 0x0F0F0F0F0F0F0F0F) in
      ucast (drop_bit 56 (x * 0x0101010101010101)))"

definition ctz_step :: "u64 \<Rightarrow> nat \<Rightarrow> u64 \<times> nat \<Rightarrow> u64 \<times> nat" where
  "ctz_step low k s = (let (x, n) = s in if x AND low = 0 then (drop_bit k x, n + k) else (x, n))"

definition ewah_bit_ctz64 :: "u64 \<Rightarrow> nat" where
  "ewah_bit_ctz64 x =
     (let s = (x, 0);
          s = ctz_step 0xffffffff 32 s;
          s = ctz_step 0xffff 16 s;
          s = ctz_step 0xff 8 s;
          s = ctz_step 0xf 4 s;
          s = ctz_step 0x3 2 s;
          (x, n) = ctz_step 0x1 1 s in
      n + (if x = 0 then 1 else 0))"

definition bitmap_popcount :: "bitmap \<Rightarrow> nat" where
  "bitmap_popcount self = foldl (\<lambda>count w. count + unat (ewah_bit_popcount64 w)) 0 (bm_words self)"

definition count_word :: "nat \<Rightarrow> eword \<Rightarrow> (nat + unit) result" where
  "count_word count word = Inr (Inl (count + unat (ewah_bit_popcount64 word)))"

definition ewah_bitmap_popcount :: "ewah_bitmap \<Rightarrow> nat result" where
  "ewah_bitmap_popcount self =
     rbind (ewah_iterator_init self) (\<lambda>it.
     rbind (while_next ewah_iterator_next count_word (ewah_fuel self) it 0) (\<lambda>r.
       case r of Inl count \<Rightarrow> Inr count | Inr () \<Rightarrow> Inl Bug_called))"

text \<open>\<open>all_zero words i\<close>: the loop that looks for a non-zero word from \<open>i\<close> on.\<close>

fun all_zero :: "eword list \<Rightarrow> bool" where
  "all_zero [] = True"
| "all_zero (w # ws) = (if w \<noteq> 0 then False else all_zero ws)"

definition bitmap_is_empty :: "bitmap \<Rightarrow> bool" where
  "bitmap_is_empty self = all_zero (bm_words self)"

fun equals_loop :: "eword list \<Rightarrow> eword list \<Rightarrow> bool result" where
  "equals_loop [] big = Inr (all_zero big)"
| "equals_loop (s # small) [] = Inl Oob"
| "equals_loop (s # small) (b # big) = (if s \<noteq> b then Inr False else equals_loop small big)"

definition bitmap_equals :: "bitmap \<Rightarrow> bitmap \<Rightarrow> bool result" where
  "bitmap_equals self other =
     (if length (bm_words self) < length (bm_words other)
      then equals_loop (bm_words self) (bm_words other)
      else equals_loop (bm_words other) (bm_words self))"

definition equal_word :: "eword list \<Rightarrow> nat \<Rightarrow> eword \<Rightarrow> (nat + bool) result" where
  "equal_word words i word =
     (if i < length words then
        rbind (rd words i) (\<lambda>w. if word \<noteq> w then Inr (Inr False) else Inr (Inl (i + 1)))
      else if word \<noteq> 0 then Inr (Inr False) else Inr (Inl i))"

definition bitmap_equals_ewah :: "bitmap \<Rightarrow> ewah_bitmap \<Rightarrow> bool result" where
  "bitmap_equals_ewah self other =
     rbind (ewah_iterator_init other) (\<lambda>it.
     rbind (while_next ewah_iterator_next (equal_word (bm_words self)) (ewah_fuel other) it 0) (\<lambda>r.
       case r of Inr ret \<Rightarrow> Inr ret | Inl i \<Rightarrow> Inr (all_zero (drop i (bm_words self)))))"

fun any_left :: "eword list \<Rightarrow> eword list \<Rightarrow> bool" where
  "any_left (s # ss) (w # ws) = (if s AND NOT w \<noteq> 0 then True else any_left ss ws)"
| "any_left ss ws = False"

definition bitmap_is_subset :: "bitmap \<Rightarrow> bitmap \<Rightarrow> bool" where
  "bitmap_is_subset self other =
     (if length (bm_words self) < length (bm_words other) then any_left (bm_words self) (bm_words other)
      else if \<not> all_zero (drop (length (bm_words other)) (bm_words self)) then True
      else any_left (bm_words self) (bm_words other))"

subsection \<open>Bitmaps as sets of positions\<close>

definition word_at :: "eword list \<Rightarrow> nat \<Rightarrow> eword" where
  "word_at ws k = (if k < length ws then ws ! k else 0)"

definition words_bits :: "eword list \<Rightarrow> nat set" where
  "words_bits ws = {i. bit_at ws i}"

definition bitmap_bits :: "bitmap \<Rightarrow> nat set" where
  "bitmap_bits bm = words_bits (bm_words bm)"

lemma in_words_bits: "i \<in> words_bits ws \<longleftrightarrow> bit (word_at ws (i div 64)) (i mod 64)"
  by (simp add: words_bits_def bit_at_def word_at_def)

lemma ball_words_bits:
  "(\<forall>i. P (i \<in> words_bits xs) (i \<in> words_bits ys)) \<longleftrightarrow>
   (\<forall>k. \<forall>j < 64. P (bit (word_at xs k) j) (bit (word_at ys k) j))" (is "?L \<longleftrightarrow> ?R")
proof
  assume L: ?L
  show ?R
  proof (intro allI impI)
    fix k j :: nat assume "j < 64"
    then show "P (bit (word_at xs k) j) (bit (word_at ys k) j)"
      using L [rule_format, of "64 * k + j"] by (simp add: in_words_bits)
  qed
qed (simp add: in_words_bits)

lemma word_subset_iff: "(w :: eword) AND NOT v = 0 \<longleftrightarrow> (\<forall>j < 64. bit w j \<longrightarrow> bit v j)"
  by (auto simp: bit_eq_iff bit_simps)

lemma words_bits_subset: "words_bits xs \<subseteq> words_bits ys \<longleftrightarrow> (\<forall>k. word_at xs k AND NOT (word_at ys k) = 0)"
  using ball_words_bits [of "(\<longrightarrow>)" xs ys] by (auto simp: word_subset_iff)

lemma words_bits_eq: "words_bits xs = words_bits ys \<longleftrightarrow> (\<forall>k. word_at xs k = word_at ys k)"
proof -
  have "(\<forall>j < 64. bit w j = bit v j) \<longleftrightarrow> w = v" for w v :: eword
    by (auto intro: bit_eqI)
  then show ?thesis using ball_words_bits [of "(=)" xs ys] by auto
qed

lemma words_bits_Nil [simp]: "words_bits [] = {}"
  by (simp add: words_bits_def bit_at_def)

lemma words_bits_empty: "words_bits xs = {} \<longleftrightarrow> (\<forall>k. word_at xs k = 0)"
  using words_bits_eq [of xs "[]"] by (simp add: word_at_def)

lemma words_bits_zeros [simp]: "words_bits (ws @ replicate n 0) = words_bits ws"
  by (auto simp: words_bits_eq word_at_def nth_append)

lemma EWAH_MASK_bit: "bit (EWAH_MASK pos) j \<longleftrightarrow> j = pos mod 64"
  by (auto simp: EWAH_MASK_def BITS_IN_EWORD_def bit_simps)

lemma EWAH_BLOCK_64: "EWAH_BLOCK pos = pos div 64"
  by (simp add: EWAH_BLOCK_def BITS_IN_EWORD_def)

lemma div_mod_64: "i div 64 = pos div 64 \<Longrightarrow> i mod 64 = pos mod 64 \<longleftrightarrow> i = (pos :: nat)"
  by (metis div_mult_mod_eq)

lemma bitmap_grow_bits [simp]: "bitmap_bits (bitmap_grow self n) = bitmap_bits self"
  by (simp add: bitmap_bits_def bitmap_grow_def Let_def)

lemma bitmap_grow_length: "n \<le> length (bm_words (bitmap_grow self n))"
  using ALLOC_GROW_ge [of n "length (bm_words self)"] by (simp add: bitmap_grow_def Let_def)

lemma words_bits_update:
  assumes "k < length ws"
  shows "i \<in> words_bits (ws[k := w]) \<longleftrightarrow> (if i div 64 = k then bit w (i mod 64) else i \<in> words_bits ws)"
  using assms by (simp add: in_words_bits word_at_def)

lemma words_bits_set_bit:
  assumes "pos div 64 < length ws"
  shows "words_bits (ws[pos div 64 := ws ! (pos div 64) OR EWAH_MASK pos]) = insert pos (words_bits ws)"
proof (rule set_eqI)
  fix i
  show "i \<in> words_bits (ws[pos div 64 := ws ! (pos div 64) OR EWAH_MASK pos]) \<longleftrightarrow> i \<in> insert pos (words_bits ws)"
    unfolding words_bits_update [OF assms] insert_iff bit_or_iff EWAH_MASK_bit
    using assms div_mod_64 [of i pos] by (auto simp: in_words_bits word_at_def)
qed

lemma words_bits_clear_bit:
  assumes "pos div 64 < length ws"
  shows "words_bits (ws[pos div 64 := ws ! (pos div 64) AND NOT (EWAH_MASK pos)]) = words_bits ws - {pos}"
proof (rule set_eqI)
  fix i
  have "i mod 64 < (64 :: nat)" by simp
  then show "i \<in> words_bits (ws[pos div 64 := ws ! (pos div 64) AND NOT (EWAH_MASK pos)]) \<longleftrightarrow> i \<in> words_bits ws - {pos}"
    unfolding words_bits_update [OF assms] Diff_iff bit_and_iff bit_not_iff EWAH_MASK_bit
    using assms div_mod_64 [of i pos] by (auto simp: in_words_bits word_at_def)
qed

lemma bitmap_set_ok: "\<exists>bm. bitmap_set self pos = Inr bm \<and> bitmap_bits bm = insert pos (bitmap_bits self)"
proof -
  let ?g = "bitmap_grow self (EWAH_BLOCK pos + 1)"
  have len: "pos div 64 < length (bm_words ?g)"
    using bitmap_grow_length [of "EWAH_BLOCK pos + 1" self] by (simp add: EWAH_BLOCK_64)
  have "bitmap_set self pos = Inr (?g\<lparr>bm_words := (bm_words ?g)[pos div 64 := bm_words ?g ! (pos div 64) OR EWAH_MASK pos]\<rparr>)"
    using len by (simp add: bitmap_set_def Let_def EWAH_BLOCK_64)
  then show ?thesis
    using words_bits_set_bit [OF len] bitmap_grow_bits [of self "EWAH_BLOCK pos + 1"] by (simp add: bitmap_bits_def)
qed

lemma bitmap_unset_ok: "\<exists>bm. bitmap_unset self pos = Inr bm \<and> bitmap_bits bm = bitmap_bits self - {pos}"
proof (cases "pos div 64 < length (bm_words self)")
  case True
  then show ?thesis
    using words_bits_clear_bit by (simp add: bitmap_unset_def Let_def EWAH_BLOCK_64 bitmap_bits_def)
next
  case False
  then have "pos \<notin> bitmap_bits self" by (simp add: bitmap_bits_def in_words_bits word_at_def)
  with False show ?thesis by (simp add: bitmap_unset_def Let_def EWAH_BLOCK_64)
qed

lemma bitmap_get_ok: "bitmap_get self pos = Inr (pos \<in> bitmap_bits self)"
proof -
  have mask: "EWAH_MASK pos = 2 ^ (pos mod 64)"
    by (simp add: EWAH_MASK_def BITS_IN_EWORD_def)
  show ?thesis
    by (auto simp: bitmap_get_def Let_def EWAH_BLOCK_64 bitmap_bits_def in_words_bits word_at_def mask
        and_exp_eq_0_iff_not_bit)
qed

lemma and_not_loop_ok:
  "i + n \<le> length ws \<Longrightarrow> i + n \<le> length os \<Longrightarrow>
   \<exists>r. and_not_loop n i ws os = Inr r \<and> length r = length ws \<and>
     (\<forall>k < length ws. r ! k = (if i \<le> k \<and> k < i + n then ws ! k AND NOT (os ! k) else ws ! k))"
proof (induction n arbitrary: i ws)
  case (Suc n)
  from Suc.IH [of "i + 1" "ws[i := ws ! i AND NOT (os ! i)]"] Suc.prems
  obtain r where "and_not_loop n (i + 1) (ws[i := ws ! i AND NOT (os ! i)]) os = Inr r" "length r = length ws"
    "\<forall>k < length ws. r ! k = (if i + 1 \<le> k \<and> k < i + 1 + n then ws[i := ws ! i AND NOT (os ! i)] ! k AND NOT (os ! k)
       else ws[i := ws ! i AND NOT (os ! i)] ! k)"
    by auto
  with Suc.prems show ?case by (auto simp: nth_list_update not_less_eq_eq dest: le_antisym)
qed auto

lemma or_loop_ok:
  "i + n \<le> length ws \<Longrightarrow> i + n \<le> length os \<Longrightarrow>
   \<exists>r. or_loop n i ws os = Inr r \<and> length r = length ws \<and>
     (\<forall>k < length ws. r ! k = (if i \<le> k \<and> k < i + n then ws ! k OR os ! k else ws ! k))"
proof (induction n arbitrary: i ws)
  case (Suc n)
  from Suc.IH [of "i + 1" "ws[i := ws ! i OR os ! i]"] Suc.prems
  obtain r where "or_loop n (i + 1) (ws[i := ws ! i OR os ! i]) os = Inr r" "length r = length ws"
    "\<forall>k < length ws. r ! k = (if i + 1 \<le> k \<and> k < i + 1 + n then ws[i := ws ! i OR os ! i] ! k OR os ! k
       else ws[i := ws ! i OR os ! i] ! k)"
    by auto
  with Suc.prems show ?case by (auto simp: nth_list_update not_less_eq_eq dest: le_antisym)
qed auto

lemma words_bits_pointwise:
  assumes "\<And>k. word_at zs k = f (word_at xs k) (word_at ys k)"
    and "\<And>w v j. j < 64 \<Longrightarrow> bit (f w v) j = P (bit w j) (bit v j)"
  shows "words_bits zs = {i. P (i \<in> words_bits xs) (i \<in> words_bits ys)}"
  using assms by (auto simp: in_words_bits)

lemma bitmap_and_not_ok:
  "\<exists>bm. bitmap_and_not self other = Inr bm \<and> bitmap_bits bm = bitmap_bits self - bitmap_bits other"
proof -
  let ?s = "bm_words self" and ?o = "bm_words other"
  obtain r where r: "and_not_loop (min (length ?s) (length ?o)) 0 ?s ?o = Inr r" "length r = length ?s"
    "\<forall>k < length ?s. r ! k = (if k < min (length ?s) (length ?o) then ?s ! k AND NOT (?o ! k) else ?s ! k)"
    using and_not_loop_ok [of 0 "min (length ?s) (length ?o)" ?s ?o] by auto
  have "word_at r k = word_at ?s k AND NOT (word_at ?o k)" for k
    using r(2,3) by (auto simp: word_at_def)
  from words_bits_pointwise [where f = "\<lambda>w v. w AND NOT v" and P = "\<lambda>a b. a \<and> \<not> b", OF this]
  have "words_bits r = words_bits ?s - words_bits ?o" by (auto simp: bit_and_iff bit_not_iff)
  then show ?thesis using r(1) by (simp add: bitmap_and_not_def Let_def bitmap_bits_def min_def less_le_not_le split: if_splits)
qed

lemma bitmap_or_ok:
  "\<exists>bm. bitmap_or self other = Inr bm \<and> bitmap_bits bm = bitmap_bits self \<union> bitmap_bits other"
proof -
  let ?g = "bitmap_grow self (length (bm_words other))"
  let ?s = "bm_words ?g" and ?o = "bm_words other"
  have len: "length ?o \<le> length ?s" by (rule bitmap_grow_length)
  then obtain r where r: "or_loop (length ?o) 0 ?s ?o = Inr r" "length r = length ?s"
    "\<forall>k < length ?s. r ! k = (if k < length ?o then ?s ! k OR ?o ! k else ?s ! k)"
    using or_loop_ok [of 0 "length ?o" ?s ?o] by auto
  have "word_at r k = word_at ?s k OR word_at ?o k" for k
    using r(2,3) len by (auto simp: word_at_def)
  from words_bits_pointwise [where f = "(OR)" and P = "(\<or>)", OF this]
  have "words_bits r = words_bits ?s \<union> words_bits ?o" by (auto simp: bit_or_iff)
  then show ?thesis
    using r(1) bitmap_grow_bits [of self "length (bm_words other)"] by (simp add: bitmap_or_def Let_def bitmap_bits_def)
qed

lemma bitmap_dup_ok: "bitmap_dup self = Inr self"
  by (simp add: bitmap_dup_def Let_def bitmap_word_alloc_def)

subsection \<open>Comparing bitmaps\<close>

lemma all_nat_split: "(\<forall>k :: nat. P k) \<longleftrightarrow> P 0 \<and> (\<forall>k. P (Suc k))"
  by (metis not0_implies_Suc)

lemma word_at_simps [simp]:
  "word_at [] k = 0" "word_at (w # ws) 0 = w" "word_at (w # ws) (Suc k) = word_at ws k"
  by (simp_all add: word_at_def)

lemma all_zero_iff: "all_zero ws \<longleftrightarrow> (\<forall>k. word_at ws k = 0)"
proof (induction ws)
  case (Cons w ws)
  then show ?case using all_nat_split [of "\<lambda>k. word_at (w # ws) k = 0"] by simp
qed simp

lemma equals_loop_ok:
  "length small \<le> length big \<Longrightarrow> equals_loop small big = Inr (\<forall>k. word_at small k = word_at big k)"
proof (induction small big rule: equals_loop.induct)
  case (3 s small b big)
  then show ?case using all_nat_split [of "\<lambda>k. word_at (s # small) k = word_at (b # big) k"] by simp
qed (auto simp: all_zero_iff)

lemma any_left_iff: "any_left ss ws \<longleftrightarrow> (\<exists>k < length ws. word_at ss k AND NOT (word_at ws k) \<noteq> 0)"
proof (induction ss ws rule: any_left.induct)
  case (1 s ss w ws)
  then show ?case by (auto simp: Ex_less_Suc2)
qed auto

lemma bitmap_is_empty_ok: "bitmap_is_empty self \<longleftrightarrow> bitmap_bits self = {}"
  by (simp add: bitmap_is_empty_def all_zero_iff bitmap_bits_def words_bits_empty)

lemma bitmap_equals_ok: "bitmap_equals self other = Inr (bitmap_bits self = bitmap_bits other)"
  by (auto simp: bitmap_equals_def equals_loop_ok bitmap_bits_def words_bits_eq)

lemma word_at_drop: "word_at (drop n ws) k = word_at ws (n + k)"
  by (auto simp: word_at_def)

lemma bitmap_is_subset_ok: "bitmap_is_subset self other \<longleftrightarrow> \<not> bitmap_bits self \<subseteq> bitmap_bits other"
proof -
  let ?s = "bm_words self" and ?o = "bm_words other"
  have split: "(\<exists>k. word_at ?s k AND NOT (word_at ?o k) \<noteq> 0) \<longleftrightarrow>
      any_left ?s ?o \<or> \<not> all_zero (drop (length ?o) ?s)"
  proof -
    have "(\<exists>k. word_at ?s (length ?o + k) \<noteq> 0) \<longleftrightarrow> (\<exists>k \<ge> length ?o. word_at ?s k AND NOT (word_at ?o k) \<noteq> 0)"
      by (auto simp: word_at_def le_iff_add)
    then show ?thesis by (auto simp: any_left_iff all_zero_iff word_at_drop) (metis not_le)
  qed
  moreover have "all_zero (drop (length ?o) ?s)" if "length ?s < length ?o" using that by simp
  ultimately show ?thesis by (auto simp: bitmap_is_subset_def bitmap_bits_def words_bits_subset)
qed

subsection \<open>Bitmaps and compressed bitmaps\<close>

lemma ewah_bits_iff:
  "ewah_bits s S \<longleftrightarrow> (\<exists>ws. ewah_rep s ws \<and> length ws = (eb_bit_size s + 63) div 64 \<and> S = words_bits ws) \<and>
     S \<subseteq> {..<eb_bit_size s}"
  by (simp add: ewah_bits_def words_bits_def)

lemma while_ewah:
  assumes "ewah_rep s ws" and "it_rep it ws'" and "length ws' \<le> length ws"
  shows "while_next ewah_iterator_next body (ewah_fuel s) it st = for_words body ws' st"
proof -
  have "length ws = ewah_count (eb_buffer s)" using ewah_count_words [OF ewah_rep_words [OF assms(1)]] .
  with assms(3) have "length ws' < ewah_fuel s" by (simp add: ewah_fuel_def)
  with assms(2) show ?thesis by (rule ewah_it.while_next_words)
qed

lemma for_words_store:
  "i \<le> length words \<Longrightarrow>
   \<exists>words'. for_words (store_word junk) xs (words, i) = Inr (Inl (words', i + length xs)) \<and>
     take (i + length xs) words' = take i words @ xs"
proof (induction xs arbitrary: words i)
  case (Cons x xs)
  define ws where "ws = (words @ map junk [length words..<ALLOC_GROW (i + 1) (length words)])[i := x]"
  have len: "i < length (words @ map junk [length words..<ALLOC_GROW (i + 1) (length words)])"
    using ALLOC_GROW_ge [of "i + 1" "length words"] by simp
  have step: "store_word junk (words, i) x = Inr (Inl (ws, i + 1))"
    using len unfolding store_word_def ws_def by (simp del: upt.simps)
  have ws: "i + 1 \<le> length ws" "take (i + 1) ws = take i words @ [x]"
    using len Cons.prems by (simp_all add: ws_def take_Suc_conv_app_nth del: upt.simps)
  from Cons.IH [OF ws(1)] obtain words' where
    "for_words (store_word junk) xs (ws, i + 1) = Inr (Inl (words', i + 1 + length xs))"
    "take (i + 1 + length xs) words' = take (i + 1) ws @ xs" by blast
  with step ws(2) show ?case by simp
qed simp

lemma ewah_to_bitmap_ok:
  assumes "ewah_rep e ws"
  shows "ewah_to_bitmap junk e = Inr \<lparr>bm_words = ws\<rparr>"
proof -
  obtain it where it: "ewah_iterator_init e = Inr it" "it_rep it ws" using ewah_iterator_init_ok [OF assms] by blast
  from for_words_store [of 0 "bm_words bitmap_new" junk ws] it show ?thesis
    by (auto simp: ewah_to_bitmap_def while_ewah [OF assms it(2)])
qed

abbreviation opt_word :: "eword \<Rightarrow> eword list" where
  "opt_word w \<equiv> (if w = 0 then [] else [w])"

lemma ewah_add_opt:
  assumes "ewah_rep e us" and "eb_bit_size e = size_t (length us * 64)"
  shows "\<exists>e'. (if w \<noteq> 0 then rbind (ewah_add e w) (\<lambda>(ewah, _). Inr ewah) else Inr e) = Inr e' \<and>
    ewah_rep e' (us @ opt_word w) \<and> eb_bit_size e' = size_t (length (us @ opt_word w) * 64)"
  using assms ewah_add_ok [OF assms(1), of w] by (auto simp: BITS_IN_EWORD_def algebra_simps)

lemma ewah_add_zeros:
  assumes "ewah_rep e us" and "eb_bit_size e = size_t (length us * 64)"
  shows "\<exists>e'. (if n > 0 then rbind (ewah_add_empty_words e False n) (\<lambda>(ewah, _). Inr ewah) else Inr e) = Inr e' \<and>
    ewah_rep e' (us @ replicate n 0) \<and> eb_bit_size e' = size_t (length (us @ replicate n 0) * 64)"
  using assms ewah_add_empty_words_ok [OF assms(1), of False n] by (auto simp: BITS_IN_EWORD_def fill_def algebra_simps)

lemma to_ewah_loop_ok:
  assumes "ewah_rep e us" and "eb_bit_size e = size_t (length us * 64)"
  shows "\<exists>e' us' n last_word'. to_ewah_loop ws e run last_word = Inr (e', last_word') \<and>
    ewah_rep e' us' \<and> eb_bit_size e' = size_t (length us' * 64) \<and>
    us @ opt_word last_word @ replicate run 0 @ ws = us' @ opt_word last_word' @ replicate n 0"
  using assms
proof (induction ws arbitrary: e us run last_word)
  case Nil
  then show ?case by fastforce
next
  case (Cons w ws)
  show ?case
  proof (cases "w = 0")
    case True
    then show ?thesis
      using Cons.IH [OF Cons.prems, of "run + 1" last_word]
      by (simp only: to_ewah_loop.simps replicate_add append_assoc replicate_append_same) (simp add: replicate_app_Cons_same)
  next
    case False
    obtain e1 where e1: "(if last_word \<noteq> 0 then rbind (ewah_add e last_word) (\<lambda>(ewah, _). Inr ewah) else Inr e) = Inr e1"
      "ewah_rep e1 (us @ opt_word last_word)" "eb_bit_size e1 = size_t (length (us @ opt_word last_word) * 64)"
      using ewah_add_opt [OF Cons.prems] by blast
    obtain e2 where e2: "(if run > 0 then rbind (ewah_add_empty_words e1 False run) (\<lambda>(ewah, _). Inr ewah) else Inr e1) = Inr e2"
      "ewah_rep e2 ((us @ opt_word last_word) @ replicate run 0)"
      "eb_bit_size e2 = size_t (length ((us @ opt_word last_word) @ replicate run 0) * 64)"
      using ewah_add_zeros [OF e1(2,3)] by blast
    have "to_ewah_loop (w # ws) e run last_word = to_ewah_loop ws e2 0 w"
      unfolding to_ewah_loop.simps if_not_P [OF False] e1(1) rbind_simps e2(1) ..
    with Cons.IH [OF e2(2,3), of 0 w] False show ?thesis by auto
  qed
qed

lemma bitmap_to_ewah_ok:
  "\<exists>e ws. bitmap_to_ewah bm = Inr e \<and> ewah_rep e ws \<and> words_bits ws = bitmap_bits bm \<and>
     eb_bit_size e = size_t (length ws * 64) \<and> length ws \<le> length (bm_words bm) + 1"
proof -
  obtain e us n l where l: "to_ewah_loop (bm_words bm) ewah_new 0 0 = Inr (e, l)" "ewah_rep e us"
    "eb_bit_size e = size_t (length us * 64)" "bm_words bm = us @ opt_word l @ replicate n 0"
    using to_ewah_loop_ok [OF ewah_rep_new, of "bm_words bm" 0 0] ewah_bits_new(2) by (auto simp: size_t_def)
  obtain e' k where e': "ewah_add e l = Inr (e', k)" "ewah_rep e' (us @ [l])" "eb_bit_size e' = size_t (length us * 64 + 64)"
    using ewah_add_ok [OF l(2), of l] l(3) by (auto simp: BITS_IN_EWORD_def)
  have bits: "words_bits (us @ [l]) = bitmap_bits bm"
    using words_bits_zeros [of "us @ opt_word l" n] words_bits_zeros [of us 1] l(4)
    by (auto simp: bitmap_bits_def split: if_splits)
  have "bitmap_to_ewah bm = Inr e'" using l(1) e'(1) by (simp add: bitmap_to_ewah_def)
  moreover have "length (us @ [l]) \<le> length (bm_words bm) + 1" by (simp add: l(4))
  moreover have "eb_bit_size e' = size_t (length (us @ [l]) * 64)" using e'(3) by (simp add: add.commute)
  ultimately show ?thesis using e'(2) bits by blast
qed

lemma ewah_bits_words:
  assumes "ewah_rep e ws" and "eb_bit_size e = length ws * 64"
  shows "ewah_bits e (words_bits ws)"
proof -
  have "words_bits ws \<subseteq> {..<eb_bit_size e}" using assms(2) by (auto simp: words_bits_def bit_at_def)
  then show ?thesis unfolding ewah_bits_iff using assms by auto
qed

lemma for_words_or:
  "i + length xs \<le> length words \<Longrightarrow>
   \<exists>words'. for_words or_word xs (words, i) = Inr (Inl (words', i + length xs)) \<and> length words' = length words \<and>
     (\<forall>k. word_at words' k = word_at words k OR (if i \<le> k then word_at xs (k - i) else 0))"
proof (induction xs arbitrary: words i)
  case (Cons x xs)
  let ?ws = "words[i := words ! i OR x]"
  from Cons.IH [of "i + 1" ?ws] Cons.prems obtain words' where
    w: "for_words or_word xs (?ws, i + 1) = Inr (Inl (words', i + 1 + length xs))" "length words' = length words"
    "\<forall>k. word_at words' k = word_at ?ws k OR (if i + 1 \<le> k then word_at xs (k - (i + 1)) else 0)"
    by auto
  have "word_at words' k = word_at words k OR (if i \<le> k then word_at (x # xs) (k - i) else 0)" for k
  proof (cases "k = i")
    case True
    then show ?thesis using w(3) Cons.prems by (simp add: word_at_def)
  next
    case False
    have "k - i = Suc (k - (i + 1))" if "i \<le> k" using that False by simp
    moreover have "word_at ?ws k = word_at words k" using False by (simp add: word_at_def)
    ultimately show ?thesis using w(3) False by (cases "i \<le> k") simp_all
  qed
  moreover have "or_word (words, i) x = Inr (Inl (?ws, i + 1))" using Cons.prems by (simp add: or_word_def)
  ultimately show ?case using w(1,2) by simp
qed simp

lemma bitmap_or_ewah_ok:
  assumes "ewah_bits e S"
  shows "\<exists>bm'. bitmap_or_ewah bm e = Inr bm' \<and> bitmap_bits bm' = bitmap_bits bm \<union> S"
proof -
  obtain ws where ws: "ewah_rep e ws" "length ws = (eb_bit_size e + 63) div 64" "S = words_bits ws"
    using assms by (auto simp: ewah_bits_iff)
  obtain it where it: "ewah_iterator_init e = Inr it" "it_rep it ws" using ewah_iterator_init_ok [OF ws(1)] by blast
  let ?n = "length (bm_words bm)" and ?m = "eb_bit_size e div BITS_IN_EWORD + 1"
  define words where "words = (if ?n < ?m then bm_words bm @ replicate (?m - ?n) 0 else bm_words bm)"
  have "length ws \<le> ?m" using ws(2) by (simp add: BITS_IN_EWORD_def)
  then have "0 + length ws \<le> length words" by (auto simp: words_def)
  from for_words_or [OF this] obtain words' where w: "for_words or_word ws (words, 0) = Inr (Inl (words', length ws))"
    "\<And>k. word_at words' k = word_at words k OR word_at ws k" by auto
  from words_bits_pointwise [where f = "(OR)" and P = "(\<or>)", OF w(2)]
  have "words_bits words' = words_bits words \<union> S" by (auto simp: bit_or_iff ws(3))
  moreover have "words_bits words = bitmap_bits bm" by (simp add: words_def bitmap_bits_def)
  moreover have "bitmap_or_ewah bm e = Inr (bm\<lparr>bm_words := words'\<rparr>)"
    unfolding bitmap_or_ewah_def Let_def words_def [symmetric] using it
    by (simp add: while_ewah [OF ws(1) it(2)] w(1))
  ultimately show ?thesis by (simp add: bitmap_bits_def)
qed

lemma is_subset_loop_ok:
  "it_rep it ws \<Longrightarrow>
   \<exists>r. is_subset_loop it vs = Inr r \<and>
     (case r of
        Inr b \<Rightarrow> b = (\<forall>k. word_at ws k AND NOT (word_at vs k) = 0)
      | Inl it' \<Rightarrow> \<exists>ws'. it_rep it' ws' \<and> length ws' \<le> length ws \<and>
          (all_zero ws' \<longleftrightarrow> (\<forall>k. word_at ws k AND NOT (word_at vs k) = 0)))"
proof (induction vs arbitrary: it ws)
  case Nil
  then show ?case by (auto simp: all_zero_iff intro!: exI [of _ ws])
next
  case (Cons v vs)
  show ?case
  proof (cases ws)
    case Nil
    then show ?thesis using ewah_it.next_Nil Cons.prems by simp
  next
    case ws: (Cons w ws')
    obtain it' where it': "ewah_iterator_next it = Inr (Some (w, it'))" "it_rep it' ws'"
      using ewah_it.next_Cons Cons.prems ws by blast
    have all: "(\<forall>k. word_at ws k AND NOT (word_at (v # vs) k) = 0) \<longleftrightarrow>
        w AND NOT v = 0 \<and> (\<forall>k. word_at ws' k AND NOT (word_at vs k) = 0)"
      unfolding ws by (subst all_nat_split) simp
    show ?thesis
    proof (cases "w AND NOT v = 0")
      case True
      obtain r where r: "is_subset_loop it' vs = Inr r"
        "case r of
        Inr b \<Rightarrow> b = (\<forall>k. word_at ws' k AND NOT (word_at vs k) = 0)
      | Inl it'' \<Rightarrow> \<exists>ws''. it_rep it'' ws'' \<and> length ws'' \<le> length ws' \<and>
          (all_zero ws'' \<longleftrightarrow> (\<forall>k. word_at ws' k AND NOT (word_at vs k) = 0))"
        using Cons.IH [OF it'(2)] by blast
      have "is_subset_loop it (v # vs) = Inr r" using it'(1) True r(1) by simp
      moreover have "length ws' \<le> length ws" using ws by simp
      ultimately show ?thesis using r(2) True unfolding all by (intro exI [of _ r]) (auto split: sum.splits)
    next
      case False
      then show ?thesis using it'(1) unfolding all by simp
    qed
  qed
qed

lemma for_words_stop: "for_words stop_at_bit ws () = Inr (if all_zero ws then Inl () else Inr False)"
  by (induction ws) (simp_all add: stop_at_bit_def)

lemma ewah_bitmap_is_subset_ok:
  assumes "ewah_rep e ws"
  shows "ewah_bitmap_is_subset e bm = Inr (words_bits ws \<subseteq> bitmap_bits bm)"
proof -
  obtain it where it: "ewah_iterator_init e = Inr it" "it_rep it ws" using ewah_iterator_init_ok [OF assms] by blast
  let ?sub = "\<forall>k. word_at ws k AND NOT (word_at (bm_words bm) k) = 0"
  obtain r where r: "is_subset_loop it (bm_words bm) = Inr r" "case r of
        Inr b \<Rightarrow> b = ?sub
      | Inl it' \<Rightarrow> \<exists>ws'. it_rep it' ws' \<and> length ws' \<le> length ws \<and> (all_zero ws' \<longleftrightarrow> ?sub)"
    using is_subset_loop_ok [OF it(2)] by blast
  have "ewah_bitmap_is_subset e bm = Inr ?sub"
  proof (cases r)
    case (Inl it')
    then obtain ws' where ws': "it_rep it' ws'" "length ws' \<le> length ws" "all_zero ws' \<longleftrightarrow> ?sub" using r(2) by auto
    show ?thesis
      unfolding ewah_bitmap_is_subset_def using it(1) r(1) Inl ws'(3)
      by (cases "all_zero ws'") (simp_all add: while_ewah [OF assms ws'(1,2)] for_words_stop)
  next
    case (Inr b)
    then show ?thesis unfolding ewah_bitmap_is_subset_def using it(1) r by simp
  qed
  then show ?thesis by (simp add: bitmap_bits_def words_bits_subset)
qed

lemma for_words_equal:
  "\<exists>r. for_words (equal_word words) xs i = Inr r \<and>
    (case r of
       Inr b \<Rightarrow> \<not> b \<and> \<not> (\<forall>k. word_at xs k = word_at (drop i words) k)
     | Inl j \<Rightarrow> all_zero (drop j words) \<longleftrightarrow> (\<forall>k. word_at xs k = word_at (drop i words) k))"
proof (induction xs arbitrary: i)
  case Nil
  then show ?case by (auto simp: all_zero_iff)
next
  case (Cons x xs)
  show ?case
  proof (cases "i < length words")
    case True
    then have d: "drop i words = words ! i # drop (i + 1) words" by (simp add: Cons_nth_drop_Suc)
    have all: "(\<forall>k. word_at (x # xs) k = word_at (drop i words) k) \<longleftrightarrow>
        x = words ! i \<and> (\<forall>k. word_at xs k = word_at (drop (i + 1) words) k)"
      unfolding d by (subst all_nat_split) simp
    have "equal_word words i x = (if x = words ! i then Inr (Inl (i + 1)) else Inr (Inr False))"
      using True by (simp add: equal_word_def)
    note step = this
    show ?thesis
    proof (cases "x = words ! i")
      case True
      then show ?thesis using Cons.IH [of "i + 1"] step unfolding all by (simp only: simp_thms for_words.simps rbind_simps if_True sum.case)
    next
      case False
      then show ?thesis using step unfolding all by simp
    qed
  next
    case False
    then have d: "drop i words = []" by simp
    have all: "(\<forall>k. word_at (x # xs) k = word_at (drop i words) k) \<longleftrightarrow>
        x = 0 \<and> (\<forall>k. word_at xs k = word_at (drop i words) k)"
      unfolding d by (subst all_nat_split) simp
    have "equal_word words i x = (if x = 0 then Inr (Inl i) else Inr (Inr False))"
      using False by (simp add: equal_word_def)
    note step = this
    show ?thesis
    proof (cases "x = 0")
      case True
      then show ?thesis using Cons.IH [of i] step unfolding all by (simp only: simp_thms for_words.simps rbind_simps if_True sum.case)
    next
      case False
      then show ?thesis using step unfolding all by simp
    qed
  qed
qed

lemma bitmap_equals_ewah_ok:
  assumes "ewah_rep e ws"
  shows "bitmap_equals_ewah bm e = Inr (bitmap_bits bm = words_bits ws)"
proof -
  obtain it where it: "ewah_iterator_init e = Inr it" "it_rep it ws" using ewah_iterator_init_ok [OF assms] by blast
  have eq: "bitmap_bits bm = words_bits ws \<longleftrightarrow> (\<forall>k. word_at ws k = word_at (drop 0 (bm_words bm)) k)"
    by (auto simp: bitmap_bits_def words_bits_eq)
  obtain r where "for_words (equal_word (bm_words bm)) ws 0 = Inr r" "case r of
       Inr b \<Rightarrow> \<not> b \<and> bitmap_bits bm \<noteq> words_bits ws
     | Inl j \<Rightarrow> all_zero (drop j (bm_words bm)) \<longleftrightarrow> bitmap_bits bm = words_bits ws"
    unfolding eq using for_words_equal by blast
  with it(1) show ?thesis
    by (cases r) (simp_all add: bitmap_equals_ewah_def while_ewah [OF assms it(2)])
qed

subsection \<open>Counting bits\<close>

text \<open>A number as a sequence of fields of \<open>k\<close> bits, and what a step of the population count does to it:
  neighbouring fields are added up.\<close>

fun field_val :: "nat \<Rightarrow> nat list \<Rightarrow> nat" where
  "field_val k [] = 0"
| "field_val k (c # cs) = c + 2 ^ k * field_val k cs"

fun pair_sums :: "nat list \<Rightarrow> nat list" where
  "pair_sums (a # b # cs) = (a + b) # pair_sums cs"
| "pair_sums cs = cs"

lemma nat_and_split:
  assumes "(a :: nat) < 2 ^ n" and "m < 2 ^ n"
  shows "(a + 2 ^ n * r) AND (m + 2 ^ n * q) = (a AND m) + 2 ^ n * (r AND q)"
proof -
  have split: "x + 2 ^ n * y = x OR push_bit n y" if "x < 2 ^ n" for x y :: nat
    using nat_and_disjoint [OF that, of "2 ^ n * y"]
    by (simp add: push_bit_eq_mult mult.commute disjunctive_add_eq_or)
  have small: "\<not> bit x i" if "x < 2 ^ n" "n \<le> i" for x i :: nat
    using that by (metis bit_take_bit_iff not_le take_bit_nat_eq_self)
  have "a AND m < 2 ^ n" using assms(1) by (metis take_bit_and take_bit_nat_eq_self take_bit_nat_eq_self_iff assms(2))
  then show ?thesis
    unfolding split [OF assms(1)] split [OF assms(2)] split [OF \<open>a AND m < 2 ^ n\<close>]
    by (intro bit_eqI) (auto simp: bit_simps small [OF assms(1)] small [OF assms(2)])
qed

lemma and_low_field:
  assumes "(a :: nat) < 2 ^ k" and "b < 2 ^ k"
  shows "(a + 2 ^ k * b) AND (2 ^ k - 1) = a"
proof -
  have "(2 :: nat) ^ k - 1 = mask k" by (simp add: mask_eq_exp_minus_1)
  then show ?thesis using assms(1) by (simp add: take_bit_eq_mask [symmetric] take_bit_eq_mod)
qed

lemma fields_step:
  "even (length cs) \<Longrightarrow> list_all (\<lambda>c. c < 2 ^ k) cs \<Longrightarrow> 0 < k \<Longrightarrow>
   (field_val k cs AND field_val (2 * k) (replicate (length cs div 2) (2 ^ k - 1))) +
   ((field_val k cs div 2 ^ k) AND field_val (2 * k) (replicate (length cs div 2) (2 ^ k - 1))) =
   field_val (2 * k) (pair_sums cs)"
proof (induction cs rule: pair_sums.induct)
  case (1 a b cs)
  let ?M = "field_val (2 * k) (replicate (length cs div 2) (2 ^ k - 1))" and ?r = "field_val k cs"
  have lt: "a < 2 ^ k" "b < 2 ^ k" and k2: "(2 :: nat) ^ (2 * k) = 2 ^ k * 2 ^ k" using "1.prems" by (simp_all add: mult_2 power_add)
  have m: "(2 :: nat) ^ k - 1 < 2 ^ (2 * k)" unfolding k2
    by (metis One_nat_def diff_less less_le_trans lessI mult_le_mono2 nat_mult_1_right one_le_numeral one_le_power)
  have ab: "u + 2 ^ k * v < 2 ^ (2 * k)" if "u < 2 ^ k" "v < 2 ^ k" for u v :: nat
  proof -
    have "u + 2 ^ k * v < 2 ^ k + 2 ^ k * v" using that by simp
    also have "\<dots> = 2 ^ k * (v + 1)" by simp
    also have "\<dots> \<le> 2 ^ k * 2 ^ k" using that by (intro mult_le_mono2) simp
    finally show ?thesis by (simp only: k2)
  qed
  have low: "field_val k (a # b # cs) = (a + 2 ^ k * b) + 2 ^ (2 * k) * ?r" unfolding k2 by (simp add: algebra_simps)
  have "field_val k (a # b # cs) div 2 ^ k = b + 2 ^ k * ?r" using lt by simp
  also have "\<dots> = (b + 2 ^ k * (?r mod 2 ^ k)) + 2 ^ (2 * k) * (?r div 2 ^ k)"
    unfolding k2 mult.assoc add.assoc distrib_left [symmetric] by (simp add: mult.commute)
  finally have high: "field_val k (a # b # cs) div 2 ^ k = (b + 2 ^ k * (?r mod 2 ^ k)) + 2 ^ (2 * k) * (?r div 2 ^ k)" .
  have M: "field_val (2 * k) (replicate (length (a # b # cs) div 2) (2 ^ k - 1)) = (2 ^ k - 1) + 2 ^ (2 * k) * ?M" by simp
  have "field_val k (a # b # cs) AND ((2 ^ k - 1) + 2 ^ (2 * k) * ?M) = a + 2 ^ (2 * k) * (?r AND ?M)"
    unfolding low by (subst nat_and_split [OF ab [OF lt] m]) (simp only: and_low_field [OF lt])
  moreover have "(field_val k (a # b # cs) div 2 ^ k) AND ((2 ^ k - 1) + 2 ^ (2 * k) * ?M) = b + 2 ^ (2 * k) * ((?r div 2 ^ k) AND ?M)"
    unfolding high by (subst nat_and_split [OF ab m]) (simp_all only: and_low_field lt mod_less_divisor zero_less_power zero_less_numeral)
  moreover have "field_val (2 * k) (pair_sums (a # b # cs)) = a + b + 2 ^ (2 * k) * ((?r AND ?M) + ((?r div 2 ^ k) AND ?M))"
    using "1.IH" "1.prems" by simp
  ultimately show ?case unfolding M by (simp add: algebra_simps)
qed simp_all

lemma field_val_bound:
  "list_all (\<lambda>c. c < 2 ^ k) cs \<Longrightarrow> field_val k cs < 2 ^ (k * length cs)"
proof (induction cs)
  case (Cons c cs)
  then have "c + 2 ^ k * field_val k cs < 2 ^ k + 2 ^ k * field_val k cs" by simp
  also have "\<dots> = 2 ^ k * (field_val k cs + 1)" by simp
  also have "\<dots> \<le> 2 ^ k * 2 ^ (k * length cs)" using Cons by (intro mult_le_mono2) simp
  finally show ?case by (simp add: power_add)
qed simp

lemma sum_list_pair_sums: "sum_list (pair_sums cs) = sum_list cs"
  by (induction cs rule: pair_sums.induct) simp_all

lemma length_pair_sums: "even (length cs) \<Longrightarrow> length (pair_sums cs) = length cs div 2"
  by (induction cs rule: pair_sums.induct) simp_all

lemma pair_sums_le: "even (length cs) \<Longrightarrow> list_all (\<lambda>c. c \<le> m) cs \<Longrightarrow> list_all (\<lambda>c. c \<le> 2 * m) (pair_sums cs)"
  by (induction cs rule: pair_sums.induct) simp_all

lemma popcount_step:
  assumes "unat (x :: u64) = field_val k cs" and "k * length cs = 64" and "even (length cs)" and "0 < k"
    and "list_all (\<lambda>c. c \<le> m) cs" and "m < 2 ^ k" and "2 * m < 2 ^ (2 * k)"
    and "unat M = field_val (2 * k) (replicate (length cs div 2) (2 ^ k - 1))"
  shows "unat ((x AND M) + (drop_bit k x AND M)) = field_val (2 * k) (pair_sums cs)"
    and "2 * k * length (pair_sums cs) = 64"
    and "list_all (\<lambda>c. c \<le> 2 * m) (pair_sums cs)"
    and "sum_list (pair_sums cs) = sum_list cs"
proof -
  have lt: "list_all (\<lambda>c. c < 2 ^ k) cs" using assms(5,6) by (auto simp: list_all_iff)
  have le: "list_all (\<lambda>c. c \<le> 2 * m) (pair_sums cs)" by (rule pair_sums_le [OF assms(3,5)])
  then have "list_all (\<lambda>c. c < 2 ^ (2 * k)) (pair_sums cs)" using assms(7) by (auto simp: list_all_iff)
  moreover have len: "2 * k * length (pair_sums cs) = 64"
    using assms(2,3) by (auto simp: length_pair_sums mult.commute elim!: evenE)
  ultimately have bound: "field_val (2 * k) (pair_sums cs) < 2 ^ 64" using field_val_bound by metis
  have "unat (x AND M) + unat (drop_bit k x AND M) = field_val (2 * k) (pair_sums cs)"
    unfolding unsigned_and_eq unat_drop_bit_div assms(1,8) by (rule fields_step [OF assms(3) lt assms(4)])
  with bound show "unat ((x AND M) + (drop_bit k x AND M)) = field_val (2 * k) (pair_sums cs)"
    by (simp add: unat_word_ariths)
  show "2 * k * length (pair_sums cs) = 64" by (rule len)
  show "list_all (\<lambda>c. c \<le> 2 * m) (pair_sums cs)" by (rule le)
qed (rule sum_list_pair_sums)

lemma field_val_bits: "unat (x :: u64) = field_val 1 (map (\<lambda>i. of_bool (bit x i)) [0..<64])"
proof -
  have "field_val 1 (map of_bool bs) = horner_sum of_bool 2 bs" for bs
    by (induction bs) simp_all
  then have "field_val 1 (map of_bool (map (bit (unat x)) [0..<64])) = take_bit 64 (unat x)"
    by (simp only: horner_sum_bit_eq_take_bit)
  also have "\<dots> = unat x" using unat_less [of x] by (simp add: take_bit_nat_eq_self)
  finally show ?thesis by (simp add: bit_unsigned_iff comp_def del: upt.simps)
qed

text \<open>The multiplication adds all bytes up in the topmost one.\<close>

lemma sum_of_bytes:
  assumes "unat (x :: u64) = field_val 8 cs" and "length cs = 8" and "list_all (\<lambda>c. c \<le> 8) cs"
  shows "unat (drop_bit 56 (x * 0x0101010101010101)) = sum_list cs"
proof -
  obtain c0 c1 c2 c3 c4 c5 c6 c7 where cs: "cs = [c0, c1, c2, c3, c4, c5, c6, c7]"
    using assms(2) by (auto simp: numeral_eq_Suc length_Suc_conv)
  have le: "c0 \<le> 8" "c1 \<le> 8" "c2 \<le> 8" "c3 \<le> 8" "c4 \<le> 8" "c5 \<le> 8" "c6 \<le> 8" "c7 \<le> 8" using assms(3) by (simp_all add: cs)
  define low where "low = c0 + 2 ^ 8 * (c0 + c1) + 2 ^ 16 * (c0 + c1 + c2) + 2 ^ 24 * (c0 + c1 + c2 + c3) +
    2 ^ 32 * (c0 + c1 + c2 + c3 + c4) + 2 ^ 40 * (c0 + c1 + c2 + c3 + c4 + c5) + 2 ^ 48 * (c0 + c1 + c2 + c3 + c4 + c5 + c6)"
  define high where "high = (c1 + c2 + c3 + c4 + c5 + c6 + c7) + 2 ^ 8 * (c2 + c3 + c4 + c5 + c6 + c7) +
    2 ^ 16 * (c3 + c4 + c5 + c6 + c7) + 2 ^ 24 * (c4 + c5 + c6 + c7) + 2 ^ 32 * (c5 + c6 + c7) + 2 ^ 40 * (c6 + c7) + 2 ^ 48 * c7"
  have "unat x * 0x0101010101010101 = low + 2 ^ 56 * sum_list cs + 2 ^ 64 * high"
    unfolding assms(1) cs low_def high_def by simp
  moreover have "low < 2 ^ 56" using le unfolding low_def by simp
  moreover have "sum_list cs < 2 ^ 8" using le unfolding cs by simp
  ultimately have "unat x * 0x0101010101010101 mod 2 ^ 64 = low + 2 ^ 56 * sum_list cs"
    by simp
  then have "unat (x * 0x0101010101010101) = low + 2 ^ 56 * sum_list cs" by (simp add: unat_word_ariths)
  with \<open>low < 2 ^ 56\<close> show ?thesis by (simp add: unat_drop_bit_div)
qed

lemma card_word_bits: "sum_list (map (\<lambda>i. of_bool (bit (x :: u64) i)) [0..<64]) = card {i. bit x i}"
proof -
  have "{i. bit x i} = {i \<in> {0..<64}. bit x i}" using bit_imp_le_length [of x] by auto
  then have "card {i. bit x i} = (\<Sum>i = 0..<64. of_bool (bit x i))"
    by (simp add: of_bool_def sum.If_cases Int_def del: sum.op_ivl_Suc)
  also have "\<dots> = sum_list (map (\<lambda>i. of_bool (bit x i)) [0..<64])"
    by (simp only: interv_sum_list_conv_sum_set_nat set_upt)
  finally show ?thesis ..
qed

lemma field_val_replicate: "field_val k (replicate n a) * (2 ^ k - 1) + a = a * 2 ^ (k * n)"
proof (induction n)
  case (Suc n)
  let ?F = "field_val k (replicate n a)" and ?p = "(2 :: nat) ^ k"
  have p: "1 \<le> ?p" by simp
  have "field_val k (replicate (Suc n) a) * (?p - 1) + a = a * (?p - 1) + a + ?p * (?F * (?p - 1))"
    unfolding replicate.simps field_val.simps distrib_right mult.assoc by (simp only: ac_simps)
  also have "a * (?p - 1) + a = a * ?p" using p by (metis add.commute le_add_diff_inverse mult_Suc_right plus_1_eq_Suc)
  also have "a * ?p + ?p * (?F * (?p - 1)) = ?p * (?F * (?p - 1) + a)" by (simp add: algebra_simps)
  also have "\<dots> = ?p * (a * 2 ^ (k * n))" by (simp only: Suc.IH)
  also have "\<dots> = a * 2 ^ (k * Suc n)" by (simp add: power_add mult.left_commute)
  finally show ?case .
qed simp

lemma popcount_masks:
  "unat (0x5555555555555555 :: u64) = field_val (2 * 1) (replicate 32 (2 ^ 1 - 1))"
  "unat (0x3333333333333333 :: u64) = field_val (2 * 2) (replicate 16 (2 ^ 2 - 1))"
  "unat (0x0F0F0F0F0F0F0F0F :: u64) = field_val (2 * 4) (replicate 8 (2 ^ 4 - 1))"
  using field_val_replicate [of "2 * 1" 32 "2 ^ 1 - 1"] field_val_replicate [of "2 * 2" 16 "2 ^ 2 - 1"]
    field_val_replicate [of "2 * 4" 8 "2 ^ 4 - 1"] by simp_all

lemma ewah_bit_popcount64_ok: "unat (ewah_bit_popcount64 x) = card {i. bit x i}"
proof -
  define cs where "cs = map (\<lambda>i. of_bool (bit x i) :: nat) [0..<64]"
  define x1 where "x1 = (x AND 0x5555555555555555) + (drop_bit 1 x AND 0x5555555555555555)"
  define x2 where "x2 = (x1 AND 0x3333333333333333) + (drop_bit 2 x1 AND 0x3333333333333333)"
  define x3 where "x3 = (x2 AND 0x0F0F0F0F0F0F0F0F) + (drop_bit 4 x2 AND 0x0F0F0F0F0F0F0F0F)"
  have cs: "unat x = field_val 1 cs" "length cs = 64" "list_all (\<lambda>c. c \<le> 1) cs"
    unfolding cs_def by (rule field_val_bits) (simp_all add: list_all_iff del: upt.simps)
  have a: "1 * length cs = 64" "even (length cs)" "length cs div 2 = 32" using cs(2) by simp_all
  note 1 = popcount_step [where k = 1 and m = 1 and M = "0x5555555555555555", OF cs(1) a(1,2) _ cs(3) _ _
      popcount_masks(1) [folded a(3)], folded x1_def, simplified]
  have l1: "length (pair_sums cs) = 32" using 1(2) by simp
  have a: "2 * length (pair_sums cs) = 64" "even (length (pair_sums cs))" "length (pair_sums cs) div 2 = 16"
    using l1 by simp_all
  note 2 = popcount_step [where k = 2 and m = 2 and M = "0x3333333333333333", OF 1(1) a(1,2) _ 1(3) _ _
      popcount_masks(2) [folded a(3)], folded x2_def, simplified]
  have l2: "length (pair_sums (pair_sums cs)) = 16" using 2(2) by simp
  have a: "4 * length (pair_sums (pair_sums cs)) = 64" "even (length (pair_sums (pair_sums cs)))"
    "length (pair_sums (pair_sums cs)) div 2 = 8" using l2 by simp_all
  note 3 = popcount_step [where k = 4 and m = 4 and M = "0x0F0F0F0F0F0F0F0F", OF 2(1) a(1,2) _ 2(3) _ _
      popcount_masks(3) [folded a(3)], folded x3_def, simplified]
  have l3: "length (pair_sums (pair_sums (pair_sums cs))) = 8" using 3(2) by simp
  have "unat (drop_bit 56 (x3 * 0x0101010101010101)) = sum_list (pair_sums (pair_sums (pair_sums cs)))"
    by (rule sum_of_bytes [OF 3(1) l3 3(3)])
  also have "\<dots> = sum_list cs" using 1(4) 2(4) 3(4) by simp
  also have "\<dots> = card {i. bit x i}" unfolding cs_def by (rule card_word_bits)
  finally have count: "unat (drop_bit 56 (x3 * 0x0101010101010101)) = card {i. bit x i}" .
  have "unat (ewah_bit_popcount64 x) = unat (drop_bit 56 (x3 * 0x0101010101010101)) mod 2 ^ 32"
    unfolding ewah_bit_popcount64_def Let_def x3_def x2_def x1_def by (simp only: unat_ucast_mod) simp
  moreover have "unat (drop_bit 56 (x3 * 0x0101010101010101)) < 2 ^ 32"
    unfolding unat_drop_bit_div using unat_less [of "x3 * 0x0101010101010101"] by simp
  ultimately show ?thesis using count by simp
qed

lemma words_bits_Cons: "words_bits (w # ws) = {i. bit w i} \<union> (+) 64 ` words_bits ws"
proof (rule set_eqI)
  fix i
  show "i \<in> words_bits (w # ws) \<longleftrightarrow> i \<in> {i. bit w i} \<union> (+) 64 ` words_bits ws"
  proof (cases "i < 64")
    case True
    then show ?thesis by (auto simp: in_words_bits)
  next
    case False
    then obtain j where j: "i = 64 + j" using le_iff_add by (metis not_le)
    then have "\<not> bit w i" using bit_imp_le_length [of w i] by auto
    moreover have "(64 + j) div 64 = Suc (j div 64)" by simp
    ultimately show ?thesis unfolding j by (auto simp: in_words_bits)
  qed
qed

lemma words_bits_finite: "finite (words_bits ws)"
proof (induction ws)
  case (Cons w ws)
  then show ?case using bit_imp_le_length [of w] by (auto simp: words_bits_Cons intro: finite_subset [of _ "{..<64}"])
qed simp

lemma card_words_bits: "card (words_bits (w # ws)) = card {i. bit w i} + card (words_bits ws)"
proof -
  have "card (words_bits (w # ws)) = card {i. bit w i} + card ((+) 64 ` words_bits ws)"
    unfolding words_bits_Cons using bit_imp_le_length [of w] words_bits_finite [of ws]
    by (intro card_Un_disjoint) (auto intro: finite_subset [of _ "{..<64}"])
  then show ?thesis by (simp add: card_image)
qed

lemma foldl_popcount:
  "foldl (\<lambda>count w. count + unat (ewah_bit_popcount64 w)) n ws = n + card (words_bits ws)"
  by (induction ws arbitrary: n) (simp_all add: card_words_bits ewah_bit_popcount64_ok)

lemma for_words_count: "for_words count_word ws n = Inr (Inl (n + card (words_bits ws)))"
  by (induction ws arbitrary: n) (simp_all add: count_word_def card_words_bits ewah_bit_popcount64_ok)

lemma ewah_bitmap_popcount_ok:
  assumes "ewah_rep e ws"
  shows "ewah_bitmap_popcount e = Inr (card (words_bits ws))"
proof -
  obtain it where it: "ewah_iterator_init e = Inr it" "it_rep it ws" using ewah_iterator_init_ok [OF assms] by blast
  then show ?thesis by (simp add: ewah_bitmap_popcount_def while_ewah [OF assms it(2)] for_words_count)
qed

text \<open>Trailing zeros: after the step for \<open>k\<close> bits the lowest one of \<open>x\<close> is among its low \<open>k\<close> bits.\<close>

definition ctz_inv :: "u64 \<Rightarrow> nat \<Rightarrow> u64 \<times> nat \<Rightarrow> bool" where
  "ctz_inv x0 k s \<longleftrightarrow>
     fst s = drop_bit (snd s) x0 \<and> (\<forall>i < snd s. \<not> bit x0 i) \<and>
     (if x0 = 0 then snd s + k = 64 else \<exists>i < k. bit (fst s) i)"

lemma ctz_step_ok:
  assumes "ctz_inv x0 (2 * k) s" and "low = mask k"
  shows "ctz_inv x0 k (ctz_step low k s)"
proof -
  obtain x n where s: "s = (x, n)" by (cases s)
  have zero: "x AND low = 0 \<longleftrightarrow> (\<forall>i < k. \<not> bit x i)"
    unfolding assms(2) using bit_imp_le_length [of x] by (auto simp: bit_eq_iff bit_and_iff bit_mask_iff)
  show ?thesis
  proof (cases "x AND low = 0")
    case True
    have 1: "\<not> bit x0 i" if "i < n + k" for i
    proof (cases "i < n")
      case False
      then show ?thesis using True zero that assms(1) s
        by (auto simp: ctz_inv_def bit_drop_bit_eq dest!: spec [of _ "i - n"])
    qed (use assms(1) s in \<open>simp add: ctz_inv_def\<close>)
    have 2: "\<exists>i < k. bit (drop_bit k x) i" if "x0 \<noteq> 0"
    proof -
      have "\<exists>i < 2 * k. bit x i" using assms(1) that unfolding s ctz_inv_def fst_conv snd_conv by metis
      then obtain i where "i < 2 * k" "bit x i" by blast
      with True zero have "k \<le> i" by (meson not_le)
      with \<open>i < 2 * k\<close> \<open>bit x i\<close> show ?thesis by (intro exI [of _ "i - k"]) (simp add: bit_drop_bit_eq)
    qed
    have 3: "x0 = 0 \<Longrightarrow> n + k + k = 64" using assms(1) s by (simp add: ctz_inv_def)
    have 4: "drop_bit k x = drop_bit (n + k) x0" using assms(1) s by (simp add: ctz_inv_def add.commute)
    from True 1 2 3 show ?thesis unfolding ctz_step_def s ctz_inv_def by (simp add: 4 [symmetric])
  next
    case False
    then show ?thesis using assms(1) s zero by (auto simp: ctz_step_def ctz_inv_def)
  qed
qed

lemma ewah_bit_ctz64_ok:
  "ewah_bit_ctz64 x = (if x = 0 then 64 else LEAST i. bit x i)"
proof -
  have "ctz_inv x 64 (x, 0)"
  proof -
    have "\<exists>i < 64. bit x i" if "x \<noteq> 0"
      using that bit_imp_le_length [of x] by (auto simp: bit_eq_iff)
    then show ?thesis by (simp add: ctz_inv_def)
  qed
  then have 1: "ctz_inv x 32 (ctz_step 0xffffffff 32 (x, 0))" (is "ctz_inv x 32 ?s1")
    by (intro ctz_step_ok) (simp_all add: mask_eq_exp_minus_1)
  then have 2: "ctz_inv x 16 (ctz_step 0xffff 16 ?s1)" (is "ctz_inv x 16 ?s2")
    by (intro ctz_step_ok) (simp_all add: mask_eq_exp_minus_1)
  then have 3: "ctz_inv x 8 (ctz_step 0xff 8 ?s2)" (is "ctz_inv x 8 ?s3")
    by (intro ctz_step_ok) (simp_all add: mask_eq_exp_minus_1)
  then have 4: "ctz_inv x 4 (ctz_step 0xf 4 ?s3)" (is "ctz_inv x 4 ?s4")
    by (intro ctz_step_ok) (simp_all add: mask_eq_exp_minus_1)
  then have 5: "ctz_inv x 2 (ctz_step 0x3 2 ?s4)" (is "ctz_inv x 2 ?s5")
    by (intro ctz_step_ok) (simp_all add: mask_eq_exp_minus_1)
  then have 6: "ctz_inv x 1 (ctz_step 0x1 1 ?s5)" (is "ctz_inv x 1 ?s6")
    by (intro ctz_step_ok) (simp_all add: mask_eq_exp_minus_1)
  have eq: "ewah_bit_ctz64 x = snd ?s6 + (if fst ?s6 = 0 then 1 else 0)"
    by (simp only: ewah_bit_ctz64_def Let_def case_prod_unfold)
  show ?thesis
  proof (cases "x = 0")
    case True
    then show ?thesis using 6 unfolding eq by (simp add: ctz_inv_def)
  next
    case False
    then have low: "bit (fst ?s6) 0" using 6 unfolding ctz_inv_def by (metis less_one)
    then have "fst ?s6 \<noteq> 0" by auto
    moreover have "(LEAST i. bit x i) = snd ?s6"
      using low 6 by (intro Least_equality) (auto simp: ctz_inv_def bit_drop_bit_eq not_less [symmetric])
    ultimately show ?thesis using False unfolding eq by simp
  qed
qed

subsection \<open>Properties\<close>

text \<open>C15: the operations on uncompressed bitmaps are the operations on sets of positions their names
  promise: set, clear, test, copy, difference and union, for positions and bitmaps of any size; no
  access leaves the array of words, whatever the growth of the bitmap.\<close>

theorem bitmap_refines_sets:
  "(\<exists>bm. bitmap_set self pos = Inr bm \<and> bitmap_bits bm = insert pos (bitmap_bits self)) \<and>
   (\<exists>bm. bitmap_unset self pos = Inr bm \<and> bitmap_bits bm = bitmap_bits self - {pos}) \<and>
   bitmap_get self pos = Inr (pos \<in> bitmap_bits self) \<and>
   bitmap_bits bitmap_new = {} \<and> bitmap_dup self = Inr self \<and>
   (\<exists>bm. bitmap_and_not self other = Inr bm \<and> bitmap_bits bm = bitmap_bits self - bitmap_bits other) \<and>
   (\<exists>bm. bitmap_or self other = Inr bm \<and> bitmap_bits bm = bitmap_bits self \<union> bitmap_bits other)"
proof -
  have "bitmap_bits bitmap_new = {}"
    using words_bits_zeros [of "[]" 32] by (simp add: bitmap_bits_def bitmap_new_def bitmap_word_alloc_def del: words_bits_zeros)
  then show ?thesis
    using bitmap_set_ok bitmap_unset_ok bitmap_get_ok bitmap_dup_ok bitmap_and_not_ok bitmap_or_ok by simp
qed

text \<open>C16: emptiness and equality of bitmaps are those of the sets, although the arrays may have different
  lengths; \<^verbatim>\<open>bitmap_is_subset()\<close> answers 1 exactly when the first bitmap is \<^emph>\<open>not\<close> a subset of the
  second, the opposite of what its comment in ewok.h says.\<close>

theorem bitmap_comparisons:
  "bitmap_is_empty self = (bitmap_bits self = {}) \<and>
   bitmap_equals self other = Inr (bitmap_bits self = bitmap_bits other) \<and>
   bitmap_is_subset self other = (\<not> bitmap_bits self \<subseteq> bitmap_bits other)"
  by (simp add: bitmap_is_empty_ok bitmap_equals_ok bitmap_is_subset_ok)

text \<open>C17: compressing a bitmap and expanding the result again gives the same set, with no failed assertion
  and whatever the memory contains that the expansion allocates, for bitmaps of any size; while the number
  of bits fits into a \<^verbatim>\<open>size_t\<close>, the bit size of the compressed bitmap agrees with its words.\<close>

theorem bitmap_ewah_roundtrip:
  "\<exists>e bm. bitmap_to_ewah self = Inr e \<and>
     (\<exists>ws. ewah_rep e ws \<and> words_bits ws = bitmap_bits self \<and> eb_bit_size e = (length ws * 64) mod 2 ^ 64) \<and>
     (length (bm_words self) + 1 < 2 ^ 58 \<longrightarrow> ewah_bits e (bitmap_bits self)) \<and>
     ewah_to_bitmap junk e = Inr bm \<and> bitmap_equals self bm = Inr True"
proof -
  obtain e ws where e: "bitmap_to_ewah self = Inr e" "ewah_rep e ws" "words_bits ws = bitmap_bits self"
    "eb_bit_size e = size_t (length ws * 64)" "length ws \<le> length (bm_words self) + 1"
    using bitmap_to_ewah_ok by blast
  have "ewah_bits e (bitmap_bits self)" if "length (bm_words self) + 1 < 2 ^ 58"
    using ewah_bits_words [OF e(2)] e(3-5) that by (simp add: size_t_def)
  then show ?thesis
    using e by (intro exI [of _ e] exI [of _ "\<lparr>bm_words = ws\<rparr>"] conjI)
      (auto simp: ewah_to_bitmap_ok bitmap_equals_ok bitmap_bits_def size_t_def)
qed

theorem bitmap_ewah_roundtrip_witness:
  "\<exists>e bm. bitmap_to_ewah \<lparr>bm_words = [0, 6, 0]\<rparr> = Inr e \<and> ewah_bits e (bitmap_bits \<lparr>bm_words = [0, 6, 0]\<rparr>) \<and>
     ewah_to_bitmap (\<lambda>_. 7) e = Inr bm \<and> bitmap_equals \<lparr>bm_words = [0, 6, 0]\<rparr> bm = Inr True"
  using bitmap_ewah_roundtrip [of "\<lparr>bm_words = [0, 6, 0]\<rparr>" "\<lambda>_. 7"] by auto

text \<open>C18: the operations that mix a bitmap with a compressed one compute the union, the comparison, the
  inclusion and the number of bits of the sets both stand for, without leaving either buffer.\<close>

theorem bitmap_ewah_operations:
  assumes "ewah_bits e S"
  shows "(\<exists>bm'. bitmap_or_ewah bm e = Inr bm' \<and> bitmap_bits bm' = bitmap_bits bm \<union> S) \<and>
    bitmap_equals_ewah bm e = Inr (bitmap_bits bm = S) \<and>
    ewah_bitmap_is_subset e bm = Inr (S \<subseteq> bitmap_bits bm) \<and>
    ewah_bitmap_popcount e = Inr (card S)"
  using assms bitmap_or_ewah_ok [OF assms]
  by (auto simp: ewah_bits_iff bitmap_equals_ewah_ok ewah_bitmap_is_subset_ok ewah_bitmap_popcount_ok)

theorem bitmap_ewah_operations_witness:
  "\<exists>e. ewah_set ewah_new 70 = Inr e \<and> ewah_bits e {70} \<and> ewah_bitmap_is_subset e bitmap_new = Inr ({70} \<subseteq> bitmap_bits bitmap_new) \<and>
     ewah_bitmap_popcount e = Inr 1"
proof -
  obtain e where e: "ewah_set ewah_new 70 = Inr e" "ewah_bits e {70}"
    using ewah_set_ok [OF ewah_bits_new(1), of 70] ewah_bits_new(2) by auto
  with bitmap_ewah_operations [OF e(2), of bitmap_new] show ?thesis by simp
qed

text \<open>The bit tricks compute what they stand for: the population count of a word is the number of its
  bits, that of a bitmap the number of its positions, and the count of trailing zeros is the position
  of the lowest bit, 64 for the word 0.\<close>

lemma bit_counts:
  "unat (ewah_bit_popcount64 x) = card {i. bit x i} \<and>
   bitmap_popcount bm = card (bitmap_bits bm) \<and>
   ewah_bit_ctz64 x = (if x = 0 then 64 else LEAST i. bit x i)"
  using ewah_bit_popcount64_ok ewah_bit_ctz64_ok foldl_popcount [of 0]
  by (simp only: bitmap_popcount_def bitmap_bits_def add_0)

end
