(* ===== verification/Git_Prio_Queue.thy ===== *)
theory Git_Prio_Queue
  imports Git_Compat "HOL-Library.Multiset"
begin

section \<open>Priority queues: prio-queue.c\<close>

text \<open>
  A binary heap in an array that grows on demand, or a stack when the comparison function is NULL.
  Entries that compare equal are ordered by the counter they got when they were inserted.  The
  comparison function is an interface: the locale \<open>compare_fn\<close> holds its contract, a total preorder
  given by the sign of the result, and in it the heap is shown to be a stable sorting device.
  The comparison functions of commit.c are its interpretations.

  The first \<^verbatim>\<open>nr\<close> elements of the array are a list; the insertion counter is unbounded here.
\<close>

record 'a prio_queue_entry =
  pe_ctr :: nat
  pe_data :: 'a

record 'a prio_queue =
  pq_compare :: "('a \<Rightarrow> 'a \<Rightarrow> int) option"
  pq_insertion_ctr :: nat
  pq_alloc :: nat
  pq_array :: "'a prio_queue_entry list"

definition entry_cmp :: "('a \<Rightarrow> 'a \<Rightarrow> int) \<Rightarrow> 'a prio_queue_entry \<Rightarrow> 'a prio_queue_entry \<Rightarrow> int" where
  "entry_cmp cmp a b =
     (let c = cmp (pe_data a) (pe_data b) in
      if c = 0 then of_bool (pe_ctr a > pe_ctr b) - of_bool (pe_ctr a < pe_ctr b) else c)"

definition compare :: "('a \<Rightarrow> 'a \<Rightarrow> int) \<Rightarrow> 'a prio_queue_entry list \<Rightarrow> nat \<Rightarrow> nat \<Rightarrow> int result" where
  "compare cmp arr i j = rbind (rd arr i) (\<lambda>a. rbind (rd arr j) (\<lambda>b. Inr (entry_cmp cmp a b)))"

definition swap :: "'b list \<Rightarrow> nat \<Rightarrow> nat \<Rightarrow> 'b list result" where
  "swap arr i j =
     rbind (rd arr i) (\<lambda>a. rbind (rd arr j) (\<lambda>b. rbind (wr arr i b) (\<lambda>arr. wr arr j a)))"

lemma swap_ok: "i < length arr \<Longrightarrow> j < length arr \<Longrightarrow> swap arr i j = Inr (arr[i := arr ! j, j := arr ! i])"
  by (simp add: swap_def)

lemma swap_length: "swap arr i j = Inr arr' \<Longrightarrow> length arr' = length arr"
  by (auto simp: swap_def rbind_eq_Inr rd_def wr_def split: if_splits)

function reverse_loop :: "'b list \<Rightarrow> nat \<Rightarrow> 'b list result" where
  "reverse_loop arr i =
     (let j = (length arr - 1) - i in
      if i < j then rbind (swap arr i j) (\<lambda>arr. reverse_loop arr (i + 1)) else Inr arr)"
  by auto
termination
  by (relation "measure (\<lambda>(arr, i). length arr - i)") (auto dest: swap_length)

declare reverse_loop.simps [simp del]

definition prio_queue_reverse :: "'a prio_queue \<Rightarrow> 'a prio_queue result" where
  "prio_queue_reverse queue =
     (if pq_compare queue \<noteq> None then Inl Bug_called
      else if pq_array queue = [] then Inr queue
      else rbind (reverse_loop (pq_array queue) 0) (\<lambda>arr. Inr (queue\<lparr>pq_array := arr\<rparr>)))"

definition clear_prio_queue :: "'a prio_queue \<Rightarrow> 'a prio_queue" where
  "clear_prio_queue queue = queue\<lparr>pq_array := [], pq_alloc := 0, pq_insertion_ctr := 0\<rparr>"

function bubble_up :: "('a \<Rightarrow> 'a \<Rightarrow> int) \<Rightarrow> 'a prio_queue_entry list \<Rightarrow> nat \<Rightarrow> 'a prio_queue_entry list result" where
  "bubble_up cmp arr ix =
     (if ix = 0 then Inr arr
      else
        let parent = (ix - 1) div 2 in
        rbind (compare cmp arr parent ix) (\<lambda>c.
          if c \<le> 0 then Inr arr
          else rbind (swap arr parent ix) (\<lambda>arr. bubble_up cmp arr parent)))"
  by auto
termination
  by (relation "measure (\<lambda>(_, _, ix). ix)") auto

declare bubble_up.simps [simp del]

definition prio_queue_put :: "'a prio_queue \<Rightarrow> 'a \<Rightarrow> 'a prio_queue result" where
  "prio_queue_put queue thing =
     (let nr = length (pq_array queue);
          queue = queue\<lparr>pq_alloc := ALLOC_GROW (nr + 1) (pq_alloc queue)\<rparr>;
          queue = queue\<lparr>pq_array := pq_array queue @ [\<lparr>pe_ctr = pq_insertion_ctr queue, pe_data = thing\<rparr>],
                        pq_insertion_ctr := pq_insertion_ctr queue + 1\<rparr> in
      case pq_compare queue of
        None \<Rightarrow> Inr queue
      | Some cmp \<Rightarrow> rbind (bubble_up cmp (pq_array queue) nr) (\<lambda>arr. Inr (queue\<lparr>pq_array := arr\<rparr>)))"

text \<open>The smaller child of \<open>ix\<close>, which has one.\<close>

definition pick_child :: "('a \<Rightarrow> 'a \<Rightarrow> int) \<Rightarrow> 'a prio_queue_entry list \<Rightarrow> nat \<Rightarrow> nat result" where
  "pick_child cmp arr ix =
     (let child = ix * 2 + 1 in
      if child + 1 < length arr then
        rbind (compare cmp arr child (child + 1)) (\<lambda>c. Inr (if c \<ge> 0 then child + 1 else child))
      else Inr child)"

lemma pick_child_cases:
  "pick_child cmp arr ix = Inr child \<Longrightarrow> ix * 2 + 1 < length arr \<Longrightarrow>
   child < length arr \<and> (child = ix * 2 + 1 \<or> child = ix * 2 + 2)"
  by (auto simp: pick_child_def Let_def rbind_eq_Inr split: if_splits)

function sift_down :: "('a \<Rightarrow> 'a \<Rightarrow> int) \<Rightarrow> 'a prio_queue_entry list \<Rightarrow> nat \<Rightarrow> 'a prio_queue_entry list result" where
  "sift_down cmp arr ix =
     (if ix * 2 + 1 < length arr then
        rbind (pick_child cmp arr ix) (\<lambda>child.
        rbind (compare cmp arr ix child) (\<lambda>c.
          if c \<le> 0 then Inr arr
          else rbind (swap arr child ix) (\<lambda>arr. sift_down cmp arr child)))
      else Inr arr)"
  by auto
termination
  by (relation "measure (\<lambda>(_, arr, ix). length arr - ix)") (auto dest: swap_length dest!: pick_child_cases)

declare sift_down.simps [simp del]

definition sift_down_root :: "('a \<Rightarrow> 'a \<Rightarrow> int) \<Rightarrow> 'a prio_queue_entry list \<Rightarrow> 'a prio_queue_entry list result" where
  "sift_down_root cmp arr = sift_down cmp arr 0"

definition prio_queue_get :: "'a prio_queue \<Rightarrow> ('a \<times> 'a prio_queue) option result" where
  "prio_queue_get queue =
     (let nr = length (pq_array queue) in
      if nr = 0 then Inr None
      else case pq_compare queue of
        None \<Rightarrow>
          rbind (rd (pq_array queue) (nr - 1)) (\<lambda>e.
            Inr (Some (pe_data e, queue\<lparr>pq_array := take (nr - 1) (pq_array queue)\<rparr>)))
      | Some cmp \<Rightarrow>
          rbind (rd (pq_array queue) 0) (\<lambda>root.
          rbind (rd (pq_array queue) (nr - 1)) (\<lambda>last_entry.
            let arr = take (nr - 1) (pq_array queue) in
            if arr = [] then Inr (Some (pe_data root, queue\<lparr>pq_array := arr\<rparr>))
            else
              rbind (wr arr 0 last_entry) (\<lambda>arr.
              rbind (sift_down_root cmp arr) (\<lambda>arr.
                Inr (Some (pe_data root, queue\<lparr>pq_array := arr\<rparr>)))))))"

definition prio_queue_peek :: "'a prio_queue \<Rightarrow> 'a option result" where
  "prio_queue_peek queue =
     (let nr = length (pq_array queue) in
      if nr = 0 then Inr None
      else case pq_compare queue of
        None \<Rightarrow> rbind (rd (pq_array queue) (nr - 1)) (\<lambda>e. Inr (Some (pe_data e)))
      | Some _ \<Rightarrow> rbind (rd (pq_array queue) 0) (\<lambda>e. Inr (Some (pe_data e))))"

definition prio_queue_replace :: "'a prio_queue \<Rightarrow> 'a \<Rightarrow> 'a prio_queue result" where
  "prio_queue_replace queue thing =
     (let nr = length (pq_array queue);
          e = \<lparr>pe_ctr = pq_insertion_ctr queue, pe_data = thing\<rparr> in
      if nr = 0 then prio_queue_put queue thing
      else
        let queue = queue\<lparr>pq_insertion_ctr := pq_insertion_ctr queue + 1\<rparr> in
        case pq_compare queue of
          None \<Rightarrow> rbind (wr (pq_array queue) (nr - 1) e) (\<lambda>arr. Inr (queue\<lparr>pq_array := arr\<rparr>))
        | Some cmp \<Rightarrow>
            rbind (wr (pq_array queue) 0 e) (\<lambda>arr.
            rbind (sift_down_root cmp arr) (\<lambda>arr. Inr (queue\<lparr>pq_array := arr\<rparr>))))"

text \<open>A queue as callers set it up: all zero but for the comparison function.\<close>

definition prio_queue_init :: "('a \<Rightarrow> 'a \<Rightarrow> int) option \<Rightarrow> 'a prio_queue" where
  "prio_queue_init cmp = \<lparr>pq_compare = cmp, pq_insertion_ctr = 0, pq_alloc = 0, pq_array = []\<rparr>"

subsection \<open>The comparison functions of commit.c\<close>

record commit =
  cm_date :: u64
  cm_generation :: u64
  cm_id :: nat

definition compare_commits_by_author_date :: "('c \<Rightarrow> u64) \<Rightarrow> 'c \<Rightarrow> 'c \<Rightarrow> int" where
  "compare_commits_by_author_date author_date a b =
     (let a_date = author_date a; b_date = author_date b in
      if a_date < b_date then 1 else if a_date > b_date then - 1 else 0)"

definition compare_commits_by_gen_then_commit_date :: "commit \<Rightarrow> commit \<Rightarrow> int" where
  "compare_commits_by_gen_then_commit_date a b =
     (let generation_a = cm_generation a; generation_b = cm_generation b in
      if generation_a < generation_b then 1
      else if generation_a > generation_b then - 1
      else if cm_date a < cm_date b then 1
      else if cm_date a > cm_date b then - 1
      else 0)"

definition compare_commits_by_commit_date :: "commit \<Rightarrow> commit \<Rightarrow> int" where
  "compare_commits_by_commit_date a b =
     (if cm_date a < cm_date b then 1 else if cm_date a > cm_date b then - 1 else 0)"

subsection \<open>Heaps under a comparison function\<close>

definition heap_ordered :: "('a \<Rightarrow> 'a \<Rightarrow> int) \<Rightarrow> 'a prio_queue_entry list \<Rightarrow> bool" where
  "heap_ordered cmp arr \<longleftrightarrow>
     (\<forall>k. 0 < k \<longrightarrow> k < length arr \<longrightarrow> entry_cmp cmp (arr ! ((k - 1) div 2)) (arr ! k) \<le> 0)"

lemma entry_cmp_data: "entry_cmp cmp a b \<le> 0 \<Longrightarrow> cmp (pe_data a) (pe_data b) \<le> 0"
  by (auto simp: entry_cmp_def Let_def split: if_splits)

lemma parent_child: "0 < k \<Longrightarrow> (k - 1) div 2 = ix \<longleftrightarrow> k = 2 * ix + 1 \<or> k = 2 * ix + (2 :: nat)"
  by auto

text \<open>What holds while an entry is on its way up or down: the heap property except between \<open>ix\<close> and its
  parent or its children, and still between the neighbours of \<open>ix\<close>.\<close>

definition heap_up :: "('a \<Rightarrow> 'a \<Rightarrow> int) \<Rightarrow> 'a prio_queue_entry list \<Rightarrow> nat \<Rightarrow> bool" where
  "heap_up cmp arr ix \<longleftrightarrow>
     (\<forall>k. 0 < k \<longrightarrow> k < length arr \<longrightarrow> k \<noteq> ix \<longrightarrow> entry_cmp cmp (arr ! ((k - 1) div 2)) (arr ! k) \<le> 0) \<and>
     (\<forall>k. 0 < k \<longrightarrow> k < length arr \<longrightarrow> 0 < ix \<longrightarrow> (k - 1) div 2 = ix \<longrightarrow> entry_cmp cmp (arr ! ((ix - 1) div 2)) (arr ! k) \<le> 0)"

definition heap_down :: "('a \<Rightarrow> 'a \<Rightarrow> int) \<Rightarrow> 'a prio_queue_entry list \<Rightarrow> nat \<Rightarrow> bool" where
  "heap_down cmp arr ix \<longleftrightarrow>
     (\<forall>k. 0 < k \<longrightarrow> k < length arr \<longrightarrow> (k - 1) div 2 \<noteq> ix \<longrightarrow> entry_cmp cmp (arr ! ((k - 1) div 2)) (arr ! k) \<le> 0) \<and>
     (\<forall>k. 0 < k \<longrightarrow> k < length arr \<longrightarrow> 0 < ix \<longrightarrow> (k - 1) div 2 = ix \<longrightarrow> entry_cmp cmp (arr ! ((ix - 1) div 2)) (arr ! k) \<le> 0)"

definition pq_wf :: "'a prio_queue \<Rightarrow> bool" where
  "pq_wf q \<longleftrightarrow>
     length (pq_array q) \<le> pq_alloc q \<and> distinct (map pe_ctr (pq_array q)) \<and>
     (\<forall>e \<in> set (pq_array q). pe_ctr e < pq_insertion_ctr q) \<and>
     (case pq_compare q of None \<Rightarrow> True | Some cmp \<Rightarrow> heap_ordered cmp (pq_array q))"

lemma pq_entries_mset:
  assumes "mset arr = mset arr'"
  shows "set arr = set arr'" and "distinct (map pe_ctr arr) \<longleftrightarrow> distinct (map pe_ctr arr')" and "length arr = length arr'"
proof -
  from assms have "mset (map pe_ctr arr) = mset (map pe_ctr arr')" by simp
  then show "distinct (map pe_ctr arr) \<longleftrightarrow> distinct (map pe_ctr arr')" by (rule mset_eq_imp_distinct_iff)
  show "set arr = set arr'" "length arr = length arr'" using assms by (metis mset_eq_setD, metis mset_eq_length)
qed

text \<open>Filling and draining a queue.\<close>

fun put_all :: "'a prio_queue \<Rightarrow> 'a list \<Rightarrow> 'a prio_queue result" where
  "put_all q [] = Inr q"
| "put_all q (x # xs) = rbind (prio_queue_put q x) (\<lambda>q. put_all q xs)"

fun get_all :: "nat \<Rightarrow> 'a prio_queue \<Rightarrow> 'a list result" where
  "get_all 0 q = Inl No_fuel"
| "get_all (Suc fuel) q =
     rbind (prio_queue_get q) (\<lambda>r.
       case r of
         None \<Rightarrow> Inr []
       | Some (x, q) \<Rightarrow> rbind (get_all fuel q) (\<lambda>xs. Inr (x # xs)))"

definition entries_from :: "nat \<Rightarrow> 'a list \<Rightarrow> 'a prio_queue_entry list" where
  "entries_from n xs = map2 (\<lambda>i x. \<lparr>pe_ctr = i, pe_data = x\<rparr>) [n..<n + length xs] xs"

lemma entries_from_simps [simp]:
  "entries_from n [] = []" "entries_from n (x # xs) = \<lparr>pe_ctr = n, pe_data = x\<rparr> # entries_from (Suc n) xs"
  by (simp_all add: entries_from_def upt_conv_Cons del: upt_Suc)

lemma entries_from_data [simp]: "map pe_data (entries_from n xs) = xs"
  by (induction xs arbitrary: n) simp_all

lemma entries_from_ctr [simp]: "map pe_ctr (entries_from n xs) = [n..<n + length xs]"
  by (induction xs arbitrary: n) (simp_all add: upt_conv_Cons del: upt_Suc)

lemma pq_wf_init: "pq_wf (prio_queue_init cmp)"
  by (simp add: pq_wf_def prio_queue_init_def heap_ordered_def split: option.splits)

locale compare_fn =
  fixes cmp :: "'a \<Rightarrow> 'a \<Rightarrow> int"
  assumes cmp_swap: "sgn (cmp a b) = - sgn (cmp b a)"
    and cmp_trans: "cmp a b \<le> 0 \<Longrightarrow> cmp b c \<le> 0 \<Longrightarrow> cmp a c \<le> 0"
begin

lemma cmp_flip: "cmp a b \<le> 0 \<longleftrightarrow> 0 \<le> cmp b a" "cmp a b = 0 \<longleftrightarrow> cmp b a = 0" "cmp a b < 0 \<longleftrightarrow> 0 < cmp b a"
  using cmp_swap [of a b] by (auto simp: sgn_if split: if_splits)

lemma entry_flip: "entry_cmp cmp a b \<le> 0 \<longleftrightarrow> 0 \<le> entry_cmp cmp b a"
  using cmp_flip [of "pe_data a" "pe_data b"] by (auto simp: entry_cmp_def Let_def)

lemma entry_total: "\<not> entry_cmp cmp a b \<le> 0 \<Longrightarrow> entry_cmp cmp b a \<le> 0"
  using entry_flip [of b a] by linarith

lemma cmp_trans_0: "cmp a b \<le> 0 \<Longrightarrow> cmp b c \<le> 0 \<Longrightarrow> cmp a c = 0 \<Longrightarrow> cmp a b = 0 \<and> cmp b c = 0"
  by (metis cmp_flip(1,2) cmp_trans order_antisym)

lemma entry_trans:
  assumes "entry_cmp cmp a b \<le> 0" and "entry_cmp cmp b c \<le> 0"
  shows "entry_cmp cmp a c \<le> 0"
proof -
  have le: "cmp (pe_data a) (pe_data b) \<le> 0" "cmp (pe_data b) (pe_data c) \<le> 0"
    using assms by (auto simp: entry_cmp_def Let_def split: if_splits)
  then have ac: "cmp (pe_data a) (pe_data c) \<le> 0" by (rule cmp_trans)
  show ?thesis
  proof (cases "cmp (pe_data a) (pe_data c) = 0")
    case True
    then have "cmp (pe_data a) (pe_data b) = 0" "cmp (pe_data b) (pe_data c) = 0" using cmp_trans_0 [OF le] by auto
    with True assms show ?thesis by (auto simp: entry_cmp_def Let_def of_bool_def split: if_splits)
  qed (use ac in \<open>simp add: entry_cmp_def Let_def\<close>)
qed

lemma entry_refl: "entry_cmp cmp a a \<le> 0"
  using cmp_flip(1) [of "pe_data a" "pe_data a"] by (auto simp: entry_cmp_def Let_def)

lemma heap_up_step:
  assumes inv: "heap_up cmp arr ix" and ix: "ix < length arr" "0 < ix"
    and gt: "\<not> entry_cmp cmp (arr ! ((ix - 1) div 2)) (arr ! ix) \<le> 0"
  shows "heap_up cmp (arr[(ix - 1) div 2 := arr ! ix, ix := arr ! ((ix - 1) div 2)]) ((ix - 1) div 2)"
proof -
  let ?p = "(ix - 1) div 2"
  let ?a = "arr[?p := arr ! ix, ix := arr ! ?p]"
  have p: "?p < ix" "?p < length arr" using ix by auto
  have 1: "entry_cmp cmp (arr ! ((k - 1) div 2)) (arr ! k) \<le> 0" if "0 < k" "k < length arr" "k \<noteq> ix" for k
    using inv that by (simp add: heap_up_def)
  have 2: "entry_cmp cmp (arr ! ?p) (arr ! k) \<le> 0" if "0 < k" "k < length arr" "(k - 1) div 2 = ix" for k
    using inv that ix by (simp add: heap_up_def)
  have at: "?a ! k = (if k = ix then arr ! ?p else if k = ?p then arr ! ix else arr ! k)" if "k < length arr" for k
    using that p by (auto simp: nth_list_update)
  have swapped: "entry_cmp cmp (arr ! ix) (arr ! ?p) \<le> 0" by (rule entry_total [OF gt])
  have "entry_cmp cmp (?a ! ((k - 1) div 2)) (?a ! k) \<le> 0" if k: "0 < k" "k < length arr" "k \<noteq> ?p" for k
  proof (cases "k = ix")
    case True
    then show ?thesis using swapped p ix at by simp
  next
    case other: False
    have q: "(k - 1) div 2 < length arr" using k by auto
    consider "(k - 1) div 2 = ix" | "(k - 1) div 2 = ?p" | "(k - 1) div 2 \<noteq> ix" "(k - 1) div 2 \<noteq> ?p" by blast
    then show ?thesis
    proof cases
      case 1
      then show ?thesis using 2 [OF k(1,2)] at [OF k(2)] at [OF q] other k(3) by simp
    next
      case 2
      then show ?thesis using entry_trans [OF swapped] 1 [OF k(1,2) other] at [OF k(2)] at [OF q] other k(3) p by simp
    next
      case 3
      then show ?thesis using 1 [OF k(1,2) other] at [OF k(2)] at [OF q] other k(3) by simp
    qed
  qed
  moreover have "entry_cmp cmp (?a ! ((?p - 1) div 2)) (?a ! k) \<le> 0"
    if k: "0 < k" "k < length arr" "0 < ?p" "(k - 1) div 2 = ?p" for k
  proof -
    have g: "(?p - 1) div 2 < ?p" "(?p - 1) div 2 < length arr" using k(3) p by linarith+
    have up: "entry_cmp cmp (arr ! ((?p - 1) div 2)) (arr ! ?p) \<le> 0" using 1 [OF k(3) p(2)] p(1) by simp
    have a: "?a ! ((?p - 1) div 2) = arr ! ((?p - 1) div 2)" using at [OF g(2)] g(1) p(1) by simp
    show ?thesis
    proof (cases "k = ix")
      case True
      then show ?thesis using up a at [OF k(2)] by simp
    next
      case False
      have "k \<noteq> ?p" using k by linarith
      then show ?thesis using entry_trans [OF up] 1 [OF k(1,2) False] k(4) a at [OF k(2)] False by simp
    qed
  qed
  ultimately show ?thesis by (simp add: heap_up_def)
qed

lemma bubble_up_ok:
  "heap_up cmp arr ix \<Longrightarrow> ix < length arr \<Longrightarrow>
   \<exists>arr'. bubble_up cmp arr ix = Inr arr' \<and> heap_ordered cmp arr' \<and> mset arr' = mset arr"
proof (induction ix arbitrary: arr rule: less_induct)
  case (less ix)
  show ?case
  proof (cases "ix = 0")
    case True
    then show ?thesis using less.prems by (simp add: bubble_up.simps [of cmp arr 0] heap_up_def heap_ordered_def)
  next
    case False
    let ?p = "(ix - 1) div 2"
    have p: "?p < ix" "?p < length arr" using False less.prems(2) by auto
    show ?thesis
    proof (cases "entry_cmp cmp (arr ! ?p) (arr ! ix) \<le> 0")
      case True
      then have "heap_ordered cmp arr" using less.prems(1) by (auto simp: heap_up_def heap_ordered_def)
      then show ?thesis using True False p less.prems(2)
        by (simp add: bubble_up.simps [of cmp arr ix] compare_def Let_def)
    next
      case gt: False
      let ?a = "arr[?p := arr ! ix, ix := arr ! ?p]"
      have up: "heap_up cmp ?a ?p" by (rule heap_up_step [OF less.prems _ gt]) (use False in simp)
      have "bubble_up cmp arr ix = bubble_up cmp ?a ?p"
        using gt False p less.prems(2)
        by (simp add: bubble_up.simps [of cmp arr ix] compare_def Let_def swap_ok)
      moreover have "mset ?a = mset arr" using p less.prems(2) by (simp add: mset_swap)
      ultimately show ?thesis using less.IH [OF p(1) up] p by simp
    qed
  qed
qed

lemma pick_child_ok:
  assumes "ix * 2 + 1 < length arr"
  shows "\<exists>c. pick_child cmp arr ix = Inr c \<and> c < length arr \<and> 0 < c \<and> (c - 1) div 2 = ix \<and>
    (\<forall>k. 0 < k \<longrightarrow> k < length arr \<longrightarrow> (k - 1) div 2 = ix \<longrightarrow> entry_cmp cmp (arr ! c) (arr ! k) \<le> 0)"
proof -
  let ?l = "ix * 2 + 1"
  show ?thesis
  proof (cases "?l + 1 < length arr \<and> 0 \<le> entry_cmp cmp (arr ! ?l) (arr ! (?l + 1))")
    case True
    then have "pick_child cmp arr ix = Inr (?l + 1)" by (simp add: pick_child_def compare_def Let_def)
    moreover have "entry_cmp cmp (arr ! (?l + 1)) (arr ! k) \<le> 0"
      if "0 < k" "k < length arr" "(k - 1) div 2 = ix" for k
      using True that parent_child [OF that(1), of ix] entry_flip entry_refl by (auto simp: mult.commute)
    ultimately show ?thesis using True by auto
  next
    case False
    then have "pick_child cmp arr ix = Inr ?l" using assms by (auto simp: pick_child_def compare_def Let_def)
    moreover have "entry_cmp cmp (arr ! ?l) (arr ! k) \<le> 0"
      if "0 < k" "k < length arr" "(k - 1) div 2 = ix" for k
      using False that parent_child [OF that(1), of ix] entry_refl by (auto simp: mult.commute)
    ultimately show ?thesis using assms by auto
  qed
qed

lemma heap_down_step:
  assumes inv: "heap_down cmp arr ix" and c: "c < length arr" "0 < c" "(c - 1) div 2 = ix"
    and small: "\<And>k. 0 < k \<Longrightarrow> k < length arr \<Longrightarrow> (k - 1) div 2 = ix \<Longrightarrow> entry_cmp cmp (arr ! c) (arr ! k) \<le> 0"
    and gt: "\<not> entry_cmp cmp (arr ! ix) (arr ! c) \<le> 0"
  shows "heap_down cmp (arr[c := arr ! ix, ix := arr ! c]) c"
proof -
  let ?a = "arr[c := arr ! ix, ix := arr ! c]"
  have ix: "ix < c" "ix < length arr" using c by auto
  have above: "entry_cmp cmp (arr ! ((k - 1) div 2)) (arr ! k) \<le> 0" if "0 < k" "k < length arr" "(k - 1) div 2 \<noteq> ix" for k
    using inv that by (simp add: heap_down_def)
  have grand: "entry_cmp cmp (arr ! ((ix - 1) div 2)) (arr ! c) \<le> 0" if "0 < ix"
    using inv that c by (simp add: heap_down_def)
  have at: "?a ! k = (if k = ix then arr ! c else if k = c then arr ! ix else arr ! k)" if "k < length arr" for k
    using that ix c by (auto simp: nth_list_update)
  have "entry_cmp cmp (?a ! ((k - 1) div 2)) (?a ! k) \<le> 0" if k: "0 < k" "k < length arr" "(k - 1) div 2 \<noteq> c" for k
  proof -
    have q: "(k - 1) div 2 < length arr" "(k - 1) div 2 < k" using k by auto
    consider "k = c" | "k = ix" | "k \<noteq> c" "k \<noteq> ix" "(k - 1) div 2 = ix" | "k \<noteq> c" "k \<noteq> ix" "(k - 1) div 2 \<noteq> ix" by blast
    then show ?thesis
    proof cases
      case 1
      then show ?thesis using entry_total [OF gt] at c ix by simp
    next
      case 2
      then show ?thesis using grand at [OF q(1)] at [OF k(2)] q k by simp
    next
      case 3
      then show ?thesis using small [OF k(1,2)] at [OF q(1)] at [OF k(2)] by simp
    next
      case 4
      show ?thesis unfolding at [OF q(1)] at [OF k(2)] using above [OF k(1,2) 4(3)] by (simp only: 4 k(3) if_False)
    qed
  qed
  moreover have "entry_cmp cmp (?a ! ((c - 1) div 2)) (?a ! k) \<le> 0" if k: "0 < k" "k < length arr" "(k - 1) div 2 = c" for k
  proof -
    have "k \<noteq> c" "k \<noteq> ix" using k(1,3) ix(1) by auto
    then show ?thesis using above [OF k(1,2)] k(3) ix at [OF k(2)] at [OF ix(2)] c(3) by simp
  qed
  ultimately show ?thesis by (simp add: heap_down_def)
qed

lemma sift_down_ok:
  "heap_down cmp arr ix \<Longrightarrow> ix < length arr \<Longrightarrow>
   \<exists>arr'. sift_down cmp arr ix = Inr arr' \<and> heap_ordered cmp arr' \<and> mset arr' = mset arr"
proof (induction "length arr - ix" arbitrary: arr ix rule: less_induct)
  case less
  show ?case
  proof (cases "ix * 2 + 1 < length arr")
    case True
    obtain c where c: "pick_child cmp arr ix = Inr c" "c < length arr" "0 < c" "(c - 1) div 2 = ix"
      and small: "\<And>k. 0 < k \<Longrightarrow> k < length arr \<Longrightarrow> (k - 1) div 2 = ix \<Longrightarrow> entry_cmp cmp (arr ! c) (arr ! k) \<le> 0"
      using pick_child_ok [OF True] by blast
    have step: "sift_down cmp arr ix =
        (if entry_cmp cmp (arr ! ix) (arr ! c) \<le> 0 then Inr arr
         else sift_down cmp (arr[c := arr ! ix, ix := arr ! c]) c)"
      using True c less.prems(2) by (simp add: sift_down.simps [of cmp arr ix] compare_def swap_ok)
    show ?thesis
    proof (cases "entry_cmp cmp (arr ! ix) (arr ! c) \<le> 0")
      case le: True
      have "heap_ordered cmp arr"
        using less.prems(1) entry_trans [OF le small] by (auto simp: heap_down_def heap_ordered_def)
      then show ?thesis using step le by simp
    next
      case gt: False
      let ?a = "arr[c := arr ! ix, ix := arr ! c]"
      have "length ?a - c < length arr - ix" using c by auto
      from less.hyps [OF this heap_down_step [OF less.prems(1) c(2,3,4) small gt]]
      obtain arr' where "sift_down cmp ?a c = Inr arr'" "heap_ordered cmp arr'" "mset arr' = mset ?a"
        using c by auto
      moreover have "mset ?a = mset arr" using c less.prems(2) by (simp add: mset_swap)
      ultimately show ?thesis using step gt by simp
    qed
  next
    case False
    then have "heap_ordered cmp arr"
      using less.prems(1) parent_child by (auto simp: heap_down_def heap_ordered_def mult.commute)
    then show ?thesis using False by (simp add: sift_down.simps [of cmp arr ix])
  qed
qed

lemma heap_root: "heap_ordered cmp arr \<Longrightarrow> k < length arr \<Longrightarrow> entry_cmp cmp (arr ! 0) (arr ! k) \<le> 0"
proof (induction k rule: less_induct)
  case (less k)
  show ?case
  proof (cases "k = 0")
    case True
    then show ?thesis by (simp add: entry_refl)
  next
    case False
    then have "(k - 1) div 2 < k" "(k - 1) div 2 < length arr" using less.prems by auto
    from less.IH [OF this(1) less.prems(1) this(2)] show ?thesis
      using less.prems False by (auto simp: heap_ordered_def intro: entry_trans)
  qed
qed

lemma heap_down_root: "heap_ordered cmp arr \<Longrightarrow> heap_down cmp ((take n arr)[0 := e]) 0"
  by (auto simp: heap_down_def heap_ordered_def nth_list_update)

lemma put_ok:
  assumes "pq_wf q" and "pq_compare q = Some cmp"
  shows "\<exists>q'. prio_queue_put q x = Inr q' \<and> pq_wf q' \<and> pq_compare q' = Some cmp \<and>
    pq_insertion_ctr q' = pq_insertion_ctr q + 1 \<and>
    mset (pq_array q') = add_mset \<lparr>pe_ctr = pq_insertion_ctr q, pe_data = x\<rparr> (mset (pq_array q))"
proof -
  let ?e = "\<lparr>pe_ctr = pq_insertion_ctr q, pe_data = x\<rparr>" and ?n = "length (pq_array q)"
  let ?a = "pq_array q @ [?e]"
  have "heap_up cmp ?a ?n"
    using assms by (auto simp: pq_wf_def heap_ordered_def heap_up_def nth_append)
  then obtain arr where arr: "bubble_up cmp ?a ?n = Inr arr" "heap_ordered cmp arr" "mset arr = mset ?a"
    using bubble_up_ok [of ?a ?n] by auto
  let ?q = "q\<lparr>pq_alloc := ALLOC_GROW (?n + 1) (pq_alloc q), pq_array := arr, pq_insertion_ctr := pq_insertion_ctr q + 1\<rparr>"
  have put: "prio_queue_put q x = Inr ?q"
    using arr(1) assms(2) by (simp add: prio_queue_put_def Let_def)
  have "set arr = insert ?e (set (pq_array q))" "distinct (map pe_ctr arr)" "length arr = ?n + 1"
    using pq_entries_mset [OF arr(3)] assms(1) by (auto simp: pq_wf_def)
  then have "pq_wf ?q"
    using arr(2) assms ALLOC_GROW_ge(1) [of "?n + 1" "pq_alloc q"] by (auto simp: pq_wf_def)
  with put arr(3) assms(2) show ?thesis by simp
qed

lemma get_ok:
  assumes "pq_wf q" and "pq_compare q = Some cmp" and "pq_array q \<noteq> []"
  shows "\<exists>q'. prio_queue_get q = Inr (Some (pe_data (hd (pq_array q)), q')) \<and> pq_wf q' \<and> pq_compare q' = Some cmp \<and>
    pq_insertion_ctr q' = pq_insertion_ctr q \<and>
    mset (pq_array q) = add_mset (hd (pq_array q)) (mset (pq_array q'))"
proof -
  obtain r rest where q: "pq_array q = r # rest" using assms(3) by (cases "pq_array q") auto
  have heap: "heap_ordered cmp (r # rest)" using assms q by (simp add: pq_wf_def)
  have "\<exists>arr. prio_queue_get q = Inr (Some (pe_data r, q\<lparr>pq_array := arr\<rparr>)) \<and> heap_ordered cmp arr \<and> mset arr = mset rest"
  proof (cases "rest = []")
    case True
    then show ?thesis using assms(2) q by (simp add: prio_queue_get_def Let_def heap_ordered_def)
  next
    case False
    then obtain l init where rest: "rest = init @ [l]" by (metis rev_exhaust)
    have take: "take (length rest) (r # rest) = r # init" by (simp add: rest)
    have "heap_down cmp (l # init) 0" using heap_down_root [OF heap, of "length rest" l] unfolding take by simp
    then obtain arr where arr: "sift_down_root cmp (l # init) = Inr arr" "heap_ordered cmp arr" "mset arr = mset (l # init)"
      using sift_down_ok by (fastforce simp: sift_down_root_def)
    have "prio_queue_get q = Inr (Some (pe_data r, q\<lparr>pq_array := arr\<rparr>))"
      using assms(2) q arr(1) False take by (simp add: prio_queue_get_def Let_def rest nth_append)
    with arr rest show ?thesis by (intro exI [of _ arr]) simp
  qed
  then obtain arr where arr: "prio_queue_get q = Inr (Some (pe_data r, q\<lparr>pq_array := arr\<rparr>))" "heap_ordered cmp arr"
    "mset arr = mset rest" by blast
  have "pq_wf (q\<lparr>pq_array := arr\<rparr>)"
    using pq_entries_mset [OF arr(3)] arr(2) assms q by (auto simp: pq_wf_def)
  with arr assms(2) q show ?thesis by simp
qed

lemma replace_ok:
  assumes "pq_wf q" and "pq_compare q = Some cmp" and "pq_array q \<noteq> []"
  shows "\<exists>q'. prio_queue_replace q x = Inr q' \<and> pq_wf q' \<and> pq_compare q' = Some cmp \<and>
    pq_insertion_ctr q' = pq_insertion_ctr q + 1 \<and>
    add_mset (hd (pq_array q)) (mset (pq_array q')) =
      add_mset \<lparr>pe_ctr = pq_insertion_ctr q, pe_data = x\<rparr> (mset (pq_array q))"
proof -
  let ?e = "\<lparr>pe_ctr = pq_insertion_ctr q, pe_data = x\<rparr>"
  obtain r rest where q: "pq_array q = r # rest" using assms(3) by (cases "pq_array q") auto
  have heap: "heap_ordered cmp (r # rest)" using assms q by (simp add: pq_wf_def)
  have "heap_down cmp (?e # rest) 0" using heap_down_root [OF heap, of "length (r # rest)" ?e] by simp
  then obtain arr where arr: "sift_down_root cmp (?e # rest) = Inr arr" "heap_ordered cmp arr" "mset arr = mset (?e # rest)"
    using sift_down_ok by (fastforce simp: sift_down_root_def)
  let ?q = "q\<lparr>pq_insertion_ctr := pq_insertion_ctr q + 1, pq_array := arr\<rparr>"
  have rep: "prio_queue_replace q x = Inr ?q"
    using assms(2) q arr(1) by (simp add: prio_queue_replace_def Let_def)
  have "pq_wf ?q"
    using pq_entries_mset [OF arr(3)] arr(2) assms q by (auto simp: pq_wf_def)
  with rep arr(3) assms(2) q show ?thesis by simp
qed

lemma peek_ok:
  assumes "pq_wf q" and "pq_compare q = Some cmp" and "pq_array q \<noteq> []"
  shows "prio_queue_peek q = Inr (Some (pe_data (hd (pq_array q))))"
    and "\<forall>e \<in> set (pq_array q). entry_cmp cmp (hd (pq_array q)) e \<le> 0"
proof -
  show "prio_queue_peek q = Inr (Some (pe_data (hd (pq_array q))))"
    using assms by (simp add: prio_queue_peek_def Let_def hd_conv_nth)
  have "heap_ordered cmp (pq_array q)" using assms by (simp add: pq_wf_def)
  then show "\<forall>e \<in> set (pq_array q). entry_cmp cmp (hd (pq_array q)) e \<le> 0"
    using heap_root assms(3) by (auto simp: in_set_conv_nth hd_conv_nth)
qed

lemma put_all_ok:
  assumes "pq_wf q" and "pq_compare q = Some cmp"
  shows "\<exists>q'. put_all q xs = Inr q' \<and> pq_wf q' \<and> pq_compare q' = Some cmp \<and>
    mset (pq_array q') = mset (pq_array q) + mset (entries_from (pq_insertion_ctr q) xs)"
  using assms
proof (induction xs arbitrary: q)
  case (Cons x xs)
  obtain q1 where "prio_queue_put q x = Inr q1" "pq_wf q1" "pq_compare q1 = Some cmp"
    "pq_insertion_ctr q1 = pq_insertion_ctr q + 1"
    "mset (pq_array q1) = add_mset \<lparr>pe_ctr = pq_insertion_ctr q, pe_data = x\<rparr> (mset (pq_array q))"
    using put_ok [OF Cons.prems] by blast
  with Cons.IH [of q1] show ?case by auto
qed simp

lemma get_all_ok:
  assumes "pq_wf q" and "pq_compare q = Some cmp" and "length (pq_array q) < fuel"
  shows "\<exists>es. get_all fuel q = Inr (map pe_data es) \<and> mset es = mset (pq_array q) \<and>
    sorted_wrt (\<lambda>a b. entry_cmp cmp a b \<le> 0) es"
  using assms
proof (induction fuel arbitrary: q)
  case (Suc fuel)
  show ?case
  proof (cases "pq_array q = []")
    case True
    then show ?thesis by (simp add: prio_queue_get_def)
  next
    case False
    let ?r = "hd (pq_array q)"
    obtain q' where q': "prio_queue_get q = Inr (Some (pe_data ?r, q'))" "pq_wf q'" "pq_compare q' = Some cmp"
      "mset (pq_array q) = add_mset ?r (mset (pq_array q'))"
      using get_ok [OF Suc.prems(1,2) False] by blast
    have "length (pq_array q) = Suc (length (pq_array q'))" using arg_cong [OF q'(4), of size] by simp
    then obtain es where es: "get_all fuel q' = Inr (map pe_data es)" "mset es = mset (pq_array q')"
      "sorted_wrt (\<lambda>a b. entry_cmp cmp a b \<le> 0) es"
      using Suc.IH [OF q'(2,3)] Suc.prems(3) by auto
    have "entry_cmp cmp ?r e \<le> 0" if "e \<in> set es" for e
    proof -
      have "e \<in> set (pq_array q)" using that mset_eq_setD [OF es(2)] q'(4) by (metis insert_iff set_mset_add_mset_insert set_mset_mset)
      then show ?thesis using peek_ok(2) [OF Suc.prems(1,2) False] by blast
    qed
    with es q' show ?thesis by (intro exI [of _ "?r # es"]) simp
  qed
qed simp

lemma sorted_entries_data: "sorted_wrt (\<lambda>a b. entry_cmp cmp a b \<le> 0) es \<Longrightarrow> sorted_wrt (\<lambda>a b. cmp a b \<le> 0) (map pe_data es)"
  unfolding sorted_wrt_map
  by (erule sorted_wrt_mono_rel [rotated]) (rule entry_cmp_data)

lemma sorted_entries_class:
  assumes "sorted_wrt (\<lambda>a b. entry_cmp cmp a b \<le> 0) es"
  shows "sorted (map pe_ctr (filter (\<lambda>e. cmp x (pe_data e) = 0) es))"
proof -
  have eq: "cmp (pe_data a) (pe_data b) = 0" if "cmp x (pe_data a) = 0" "cmp x (pe_data b) = 0" for a b
  proof -
    have "cmp (pe_data a) x = 0" "cmp (pe_data b) x = 0" using that cmp_flip(2) by metis+
    with that have "cmp (pe_data a) x \<le> 0" "cmp (pe_data b) x \<le> 0" "cmp x (pe_data a) \<le> 0" "cmp x (pe_data b) \<le> 0"
      by linarith+
    then have "cmp (pe_data a) (pe_data b) \<le> 0" "cmp (pe_data b) (pe_data a) \<le> 0" by (blast intro: cmp_trans)+
    then show ?thesis using cmp_flip(1) by (metis order_antisym)
  qed
  have "sorted_wrt (\<lambda>a b. entry_cmp cmp a b \<le> 0) (filter (\<lambda>e. cmp x (pe_data e) = 0) es)"
    using assms by (rule sorted_wrt_filter)
  then have "sorted_wrt (\<lambda>a b. pe_ctr a \<le> pe_ctr b) (filter (\<lambda>e. cmp x (pe_data e) = 0) es)"
    by (rule sorted_wrt_mono_rel [rotated]) (auto simp: entry_cmp_def Let_def eq of_bool_def split: if_splits)
  then show ?thesis by (simp add: sorted_wrt_map)
qed

lemma drain_stable:
  assumes "mset es = mset (entries_from 0 xs)" and "sorted_wrt (\<lambda>a b. entry_cmp cmp a b \<le> 0) es"
  shows "filter (\<lambda>y. cmp x y = 0) (map pe_data es) = filter (\<lambda>y. cmp x y = 0) xs"
proof -
  let ?P = "\<lambda>e. cmp x (pe_data e) = 0" and ?L = "entries_from 0 xs"
  have sorted_L: "sorted (map pe_ctr (filter ?P ?L))"
  proof -
    have "sorted_wrt (\<lambda>a b. pe_ctr a \<le> pe_ctr b) ?L"
      using sorted_upt [of 0 "length xs"] sorted_wrt_map [of "(\<le>)" pe_ctr ?L] by simp
    then show ?thesis unfolding sorted_wrt_map by (rule sorted_wrt_filter)
  qed
  have mset: "mset (filter ?P ?L) = mset (filter ?P es)" using assms(1) by simp
  have inj: "inj_on pe_ctr (set (filter ?P ?L))"
    using distinct_map [of pe_ctr ?L] distinct_upt by (auto simp: inj_on_def)
  have "sort_key pe_ctr (filter ?P ?L) = filter ?P ?L" by (rule sort_key_inj_key_eq [OF refl inj sorted_L])
  moreover have "sort_key pe_ctr (filter ?P ?L) = filter ?P es"
    by (rule sort_key_inj_key_eq [OF mset inj sorted_entries_class [OF assms(2)]])
  ultimately have "map pe_data (filter ?P es) = map pe_data (filter ?P ?L)" by simp
  also have "\<dots> = filter (\<lambda>y. cmp x y = 0) (map pe_data ?L)" by (simp add: filter_map comp_def del: entries_from_data)
  finally show ?thesis by (simp add: filter_map comp_def)
qed

end

lemma three_way: "compare_fn (\<lambda>a b. if f a < (f b :: 'b :: linorder) then 1 else if f a > f b then - 1 else 0 :: int)"
  by unfold_locales (auto split: if_splits)

interpretation by_commit_date: compare_fn compare_commits_by_commit_date
  using three_way [of cm_date] by (simp add: compare_commits_by_commit_date_def [abs_def])

interpretation by_author_date: compare_fn "compare_commits_by_author_date author_date" for author_date :: "'c \<Rightarrow> u64"
  using three_way [of author_date] by (simp add: compare_commits_by_author_date_def [abs_def] Let_def)

interpretation by_gen: compare_fn compare_commits_by_gen_then_commit_date
  by unfold_locales (auto simp: compare_commits_by_gen_then_commit_date_def Let_def split: if_splits)

subsection \<open>The stack\<close>

lemma nth_swap:
  "i < length xs \<Longrightarrow> j < length xs \<Longrightarrow> k < length xs \<Longrightarrow>
   xs[i := xs ! j, j := xs ! i] ! k = (if k = j then xs ! i else if k = i then xs ! j else xs ! k)"
  by (auto simp: nth_list_update)

lemma reverse_loop_ok:
  "\<exists>r. reverse_loop arr i = Inr r \<and> length r = length arr \<and>
    (\<forall>k < length arr. r ! k = (if i \<le> k \<and> k + i < length arr then arr ! (length arr - 1 - k) else arr ! k))"
proof (induction "length arr - i" arbitrary: arr i rule: less_induct)
  case less
  let ?j = "length arr - 1 - i"
  show ?case
  proof (cases "i < ?j")
    case True
    let ?a = "arr[i := arr ! ?j, ?j := arr ! i]"
    have "length ?a - (i + 1) < length arr - i" using True by simp
    from less.hyps [OF this] obtain r where r: "reverse_loop ?a (i + 1) = Inr r" "length r = length arr"
      "\<forall>k < length arr. r ! k = (if i + 1 \<le> k \<and> k + (i + 1) < length arr then ?a ! (length arr - 1 - k) else ?a ! k)"
      by auto
    have "reverse_loop arr i = Inr r"
      using True r(1) by (simp add: reverse_loop.simps [of arr i] swap_ok Let_def)
    moreover have "r ! k = (if i \<le> k \<and> k + i < length arr then arr ! (length arr - 1 - k) else arr ! k)"
      if "k < length arr" for k
    proof -
      have "k = i \<or> k = ?j \<or> (i + 1 \<le> k \<and> k + (i + 1) < length arr) \<or> k < i \<or> length arr \<le> k + i" by linarith
      then show ?thesis
        using True that r(3) [rule_format, OF that] nth_swap [of i arr ?j]
        by (elim disjE) auto
    qed
    ultimately show ?thesis using r(2) by blast
  next
    case False
    have "i \<le> k \<Longrightarrow> k + i < length arr \<Longrightarrow> length arr - 1 - k = k" for k using False by linarith
    then show ?thesis using False by (simp add: reverse_loop.simps [of arr i])
  qed
qed

lemma reverse_loop_rev: "reverse_loop arr 0 = Inr (rev arr)"
  using reverse_loop_ok [of arr 0] by (auto simp: rev_nth intro!: nth_equalityI)

subsection \<open>The contract of a work list\<close>

text \<open>What the traversals that use a queue rely on, whatever the order: it is a bag of things.\<close>

locale work_queue =
  fixes put :: "'q \<Rightarrow> 'a \<Rightarrow> 'q result"
    and get :: "'q \<Rightarrow> ('a \<times> 'q) option result"
    and contents :: "'q \<Rightarrow> 'a multiset"
    and ok :: "'q \<Rightarrow> bool"
  assumes put_bag: "ok q \<Longrightarrow> \<exists>q'. put q x = Inr q' \<and> ok q' \<and> contents q' = add_mset x (contents q)"
    and get_empty: "ok q \<Longrightarrow> contents q = {#} \<Longrightarrow> get q = Inr None"
    and get_bag: "ok q \<Longrightarrow> contents q \<noteq> {#} \<Longrightarrow>
      \<exists>x q'. get q = Inr (Some (x, q')) \<and> ok q' \<and> contents q = add_mset x (contents q')"
begin

lemma get_cases:
  assumes "ok q"
  obtains "get q = Inr None" and "contents q = {#}"
  | x q' where "get q = Inr (Some (x, q'))" and "ok q'" and "contents q = add_mset x (contents q')"
  using get_empty [OF assms] get_bag [OF assms] by blast

lemma put_step:
  assumes "ok q"
  obtains q' where "put q x = Inr q'" and "ok q'" and "contents q' = add_mset x (contents q)"
  using put_bag [OF assms] by blast

end

definition pq_contents :: "'a prio_queue \<Rightarrow> 'a multiset" where
  "pq_contents q = image_mset pe_data (mset (pq_array q))"

definition pq_ok :: "'a prio_queue \<Rightarrow> bool" where
  "pq_ok q \<longleftrightarrow> pq_wf q \<and> (case pq_compare q of None \<Rightarrow> True | Some cmp \<Rightarrow> compare_fn cmp)"

lemma lifo_put:
  "pq_compare q = None \<Longrightarrow> prio_queue_put q x =
     Inr (q\<lparr>pq_alloc := ALLOC_GROW (length (pq_array q) + 1) (pq_alloc q),
            pq_array := pq_array q @ [\<lparr>pe_ctr = pq_insertion_ctr q, pe_data = x\<rparr>],
            pq_insertion_ctr := pq_insertion_ctr q + 1\<rparr>)"
  by (simp add: prio_queue_put_def Let_def)

lemma lifo_get:
  "pq_compare q = None \<Longrightarrow> pq_array q = es @ [e] \<Longrightarrow>
     prio_queue_get q = Inr (Some (pe_data e, q\<lparr>pq_array := es\<rparr>))"
  by (simp add: prio_queue_get_def Let_def nth_append)

lemma lifo_put_all:
  "pq_compare q = None \<Longrightarrow>
   \<exists>q'. put_all q xs = Inr q' \<and> pq_compare q' = None \<and> map pe_data (pq_array q') = map pe_data (pq_array q) @ xs"
proof (induction xs arbitrary: q)
  case (Cons x xs)
  let ?q = "q\<lparr>pq_alloc := ALLOC_GROW (length (pq_array q) + 1) (pq_alloc q),
      pq_array := pq_array q @ [\<lparr>pe_ctr = pq_insertion_ctr q, pe_data = x\<rparr>], pq_insertion_ctr := pq_insertion_ctr q + 1\<rparr>"
  from Cons.IH [of ?q] Cons.prems show ?case by (simp add: lifo_put)
qed simp

lemma lifo_get_all:
  "pq_compare q = None \<Longrightarrow> length (pq_array q) < fuel \<Longrightarrow> get_all fuel q = Inr (map pe_data (rev (pq_array q)))"
proof (induction fuel arbitrary: q)
  case (Suc fuel)
  show ?case
  proof (cases "pq_array q" rule: rev_cases)
    case Nil
    then show ?thesis by (simp add: prio_queue_get_def)
  next
    case (snoc es e)
    then show ?thesis using Suc.IH [of "q\<lparr>pq_array := es\<rparr>"] Suc.prems by (simp add: lifo_get)
  qed
qed simp

lemma pq_put_bag:
  assumes "pq_ok q"
  shows "\<exists>q'. prio_queue_put q x = Inr q' \<and> pq_ok q' \<and> pq_contents q' = add_mset x (pq_contents q)"
proof (cases "pq_compare q")
  case None
  then show ?thesis
    using assms ALLOC_GROW_ge(1) [of "length (pq_array q) + 1" "pq_alloc q"]
    by (auto simp: lifo_put pq_ok_def pq_wf_def pq_contents_def)
next
  case (Some cmp)
  then have "compare_fn cmp" "pq_wf q" using assms by (simp_all add: pq_ok_def)
  from compare_fn.put_ok [OF this Some, of x] obtain q' where "prio_queue_put q x = Inr q'" "pq_wf q'"
    "pq_compare q' = Some cmp" "mset (pq_array q') = add_mset \<lparr>pe_ctr = pq_insertion_ctr q, pe_data = x\<rparr> (mset (pq_array q))"
    by blast
  with \<open>compare_fn cmp\<close> show ?thesis by (intro exI [of _ q']) (simp add: pq_ok_def pq_contents_def)
qed

lemma pq_get_bag:
  assumes "pq_ok q" and "pq_contents q \<noteq> {#}"
  shows "\<exists>x q'. prio_queue_get q = Inr (Some (x, q')) \<and> pq_ok q' \<and> pq_contents q = add_mset x (pq_contents q')"
proof (cases "pq_compare q")
  case None
  obtain es e where q: "pq_array q = es @ [e]" using assms(2) by (cases "pq_array q" rule: rev_exhaust) (auto simp: pq_contents_def)
  from lifo_get [OF None q] None q assms show ?thesis by (auto simp: pq_ok_def pq_wf_def pq_contents_def)
next
  case (Some cmp)
  then have "compare_fn cmp" "pq_wf q" "pq_array q \<noteq> []" using assms by (auto simp: pq_ok_def pq_contents_def)
  from compare_fn.get_ok [OF this(1,2) Some this(3)] obtain q' where
    "prio_queue_get q = Inr (Some (pe_data (hd (pq_array q)), q'))" "pq_wf q'" "pq_compare q' = Some cmp"
    "mset (pq_array q) = add_mset (hd (pq_array q)) (mset (pq_array q'))" by blast
  with \<open>compare_fn cmp\<close> show ?thesis
    by (intro exI [of _ "pe_data (hd (pq_array q))"] exI [of _ q']) (simp add: pq_ok_def pq_contents_def)
qed

interpretation pq: work_queue prio_queue_put prio_queue_get pq_contents pq_ok
proof
  show "prio_queue_get q = Inr None" if "pq_contents q = {#}" for q :: "'a prio_queue"
    using that by (simp add: pq_contents_def prio_queue_get_def)
qed (auto intro: pq_put_bag pq_get_bag)

subsection \<open>Properties\<close>

text \<open>C20: with a comparison function that is a total preorder, filling an empty queue and draining it sorts,
  and the sort is stable: the things come out in increasing order, each as often as it was put in,
  and things that compare equal in the order they were inserted.  No access leaves the array.\<close>

theorem prio_queue_stable_sort:
  assumes "compare_fn cmp"
  shows "\<exists>q ys. put_all (prio_queue_init (Some cmp)) xs = Inr q \<and> get_all (length xs + 1) q = Inr ys \<and>
    mset ys = mset xs \<and> sorted_wrt (\<lambda>a b. cmp a b \<le> 0) ys \<and>
    (\<forall>x. filter (\<lambda>y. cmp x y = 0) ys = filter (\<lambda>y. cmp x y = 0) xs)"
proof -
  obtain q where q: "put_all (prio_queue_init (Some cmp)) xs = Inr q" "pq_wf q" "pq_compare q = Some cmp"
    "mset (pq_array q) = mset (entries_from 0 xs)"
    using compare_fn.put_all_ok [OF assms pq_wf_init, of "Some cmp" xs] by (auto simp: prio_queue_init_def)
  have "length (pq_array q) = length xs"
    using arg_cong [OF q(4), of size] by (simp add: entries_from_def)
  then obtain es where es: "get_all (length xs + 1) q = Inr (map pe_data es)" "mset es = mset (entries_from 0 xs)"
    "sorted_wrt (\<lambda>a b. entry_cmp cmp a b \<le> 0) es"
    using compare_fn.get_all_ok [OF assms q(2,3), of "length xs + 1"] q(4) by auto
  have "mset (map pe_data es) = mset xs" using es(2) by (metis entries_from_data mset_map)
  with q(1) es(1) show ?thesis
    using compare_fn.sorted_entries_data [OF assms es(3)] compare_fn.drain_stable [OF assms es(2,3)] by blast
qed

theorem prio_queue_stable_sort_witness:
  "\<exists>q ys. put_all (prio_queue_init (Some compare_commits_by_commit_date))
      [\<lparr>cm_date = 5, cm_generation = 1, cm_id = 0\<rparr>, \<lparr>cm_date = 9, cm_generation = 1, cm_id = 1\<rparr>] = Inr q \<and>
    get_all 3 q = Inr ys \<and> sorted_wrt (\<lambda>a b. compare_commits_by_commit_date a b \<le> 0) ys"
  using prio_queue_stable_sort [OF by_commit_date.compare_fn_axioms, of
      "[\<lparr>cm_date = 5, cm_generation = 1, cm_id = 0\<rparr>, \<lparr>cm_date = 9, cm_generation = 1, cm_id = 1\<rparr>]"]
  by (auto simp: numeral_3_eq_3)

text \<open>C21: the operations keep the invariant of the queue (the heap order, distinct counters below the
  insertion counter, an array within its allocation), and act on the bag of its things as their
  descriptions say: put adds, get takes out a smallest thing, peek shows what get would return,
  replace does what a get and a put would do.\<close>

theorem prio_queue_operations:
  assumes "pq_wf q" and "pq_compare q = Some cmp" and "compare_fn cmp" and "pq_array q \<noteq> []"
  shows "(\<exists>q'. prio_queue_put q x = Inr q' \<and> pq_wf q' \<and> pq_contents q' = add_mset x (pq_contents q)) \<and>
    (\<exists>y q'. prio_queue_get q = Inr (Some (y, q')) \<and> pq_wf q' \<and> pq_contents q = add_mset y (pq_contents q') \<and>
      prio_queue_peek q = Inr (Some y) \<and> (\<forall>z \<in># pq_contents q. cmp y z \<le> 0) \<and>
      (\<exists>q''. prio_queue_replace q x = Inr q'' \<and> pq_wf q'' \<and> pq_contents q'' = add_mset x (pq_contents q')))"
proof -
  let ?r = "hd (pq_array q)"
  obtain q1 where q1: "prio_queue_put q x = Inr q1" "pq_wf q1"
    "mset (pq_array q1) = add_mset \<lparr>pe_ctr = pq_insertion_ctr q, pe_data = x\<rparr> (mset (pq_array q))"
    using compare_fn.put_ok [OF assms(3,1,2)] by blast
  obtain q2 where q2: "prio_queue_get q = Inr (Some (pe_data ?r, q2))" "pq_wf q2"
    "mset (pq_array q) = add_mset ?r (mset (pq_array q2))"
    using compare_fn.get_ok [OF assms(3,1,2,4)] by blast
  obtain q3 where q3: "prio_queue_replace q x = Inr q3" "pq_wf q3"
    "add_mset ?r (mset (pq_array q3)) = add_mset \<lparr>pe_ctr = pq_insertion_ctr q, pe_data = x\<rparr> (mset (pq_array q))"
    using compare_fn.replace_ok [OF assms(3,1,2,4)] by blast
  have "mset (pq_array q3) = add_mset \<lparr>pe_ctr = pq_insertion_ctr q, pe_data = x\<rparr> (mset (pq_array q2))"
    using q3(3) unfolding q2(3) by (metis add_mset_add_mset_same_iff add_mset_commute)
  then have 3: "pq_contents q3 = add_mset x (pq_contents q2)" by (simp add: pq_contents_def)
  have "cmp (pe_data ?r) (pe_data e) \<le> 0" if "e \<in> set (pq_array q)" for e
    using compare_fn.peek_ok(2) [OF assms(3,1,2,4)] that entry_cmp_data by blast
  then have least: "\<forall>z \<in># pq_contents q. cmp (pe_data ?r) z \<le> 0" by (auto simp: pq_contents_def)
  have 1: "pq_contents q1 = add_mset x (pq_contents q)" unfolding pq_contents_def q1(3) by simp
  have 2: "pq_contents q = add_mset (pe_data ?r) (pq_contents q2)"
    unfolding pq_contents_def q2(3) image_mset_add_mset ..
  show ?thesis
    using q1(1,2) q2(1,2) q3(1,2) 1 2 3 least compare_fn.peek_ok(1) [OF assms(3,1,2,4)] by blast
qed

theorem prio_queue_operations_witness:
  "\<exists>q. prio_queue_put (prio_queue_init (Some compare_commits_by_gen_then_commit_date))
        \<lparr>cm_date = 5, cm_generation = 1, cm_id = 0\<rparr> = Inr q \<and>
     pq_wf q \<and> pq_array q \<noteq> [] \<and> (\<exists>y q'. prio_queue_get q = Inr (Some (y, q')) \<and> pq_wf q')"
proof -
  let ?c = "\<lparr>cm_date = 5, cm_generation = 1, cm_id = 0\<rparr>"
  obtain q where q: "prio_queue_put (prio_queue_init (Some compare_commits_by_gen_then_commit_date)) ?c = Inr q"
    "pq_wf q" "pq_compare q = Some compare_commits_by_gen_then_commit_date"
    "mset (pq_array q) = {#\<lparr>pe_ctr = 0, pe_data = ?c\<rparr>#}"
    using by_gen.put_ok [OF pq_wf_init, of "Some compare_commits_by_gen_then_commit_date" ?c]
    by (auto simp: prio_queue_init_def)
  then have "pq_array q \<noteq> []" by auto
  with prio_queue_operations [OF q(2,3) by_gen.compare_fn_axioms] q show ?thesis by blast
qed

text \<open>With a NULL comparison function the queue is a stack: get returns what was put last, and reversing
  the queue turns the stack around; reversing a queue that has a comparison function is a
  programming error that is reported as such.\<close>

lemma prio_queue_lifo:
  "(\<exists>q. put_all (prio_queue_init None) xs = Inr q \<and> get_all (length xs + 1) q = Inr (rev xs)) \<and>
   (\<exists>q q'. put_all (prio_queue_init None) xs = Inr q \<and> prio_queue_reverse q = Inr q' \<and> get_all (length xs + 1) q' = Inr xs) \<and>
   prio_queue_reverse (prio_queue_init (Some cmp)) = Inl Bug_called"
proof -
  obtain q where q: "put_all (prio_queue_init None) xs = Inr q" "pq_compare q = None" "map pe_data (pq_array q) = xs"
    using lifo_put_all [of "prio_queue_init None" xs] by (auto simp: prio_queue_init_def)
  have len: "length (pq_array q) = length xs" using q(3) by auto
  have "prio_queue_reverse q = Inr (q\<lparr>pq_array := rev (pq_array q)\<rparr>)"
    using q(2) by (cases "pq_array q = []") (simp_all add: prio_queue_reverse_def reverse_loop_rev)
  moreover have "get_all (length xs + 1) q = Inr (rev xs)"
    using lifo_get_all [OF q(2), of "length xs + 1"] q(3) len by (simp add: rev_map [symmetric] del: get_all.simps)
  moreover have "get_all (length xs + 1) (q\<lparr>pq_array := rev (pq_array q)\<rparr>) = Inr xs"
    using lifo_get_all [of "q\<lparr>pq_array := rev (pq_array q)\<rparr>" "length xs + 1"] q(2,3) len by (simp del: get_all.simps)
  moreover have "prio_queue_reverse (prio_queue_init (Some cmp)) = Inl Bug_called"
    by (simp add: prio_queue_reverse_def prio_queue_init_def)
  ultimately show ?thesis using q(1) by blast
qed

end
