(* ===== verification/Git_Toposort.thy ===== *)
theory Git_Toposort
  imports Git_Prio_Queue
begin

section \<open>Topological order of commits: commit.c\<close>

text \<open>
  \<^verbatim>\<open>sort_in_topological_order()\<close> counts for every commit of a list the children that have not been
  emitted yet, and emits from a priority queue the commits that have none left.  The parents of a
  commit are the function \<open>parents\<close>; \<open>author_date\<close> is what \<^verbatim>\<open>record_author_date()\<close> reads from the
  commit object, None for a malformed one, which leaves the date at zero.  A commit slab maps every
  commit to a number that starts at zero.

  Of the queue only the contract \<open>work_queue\<close> is used: the order is topological for each of the
  three sort orders.
\<close>

datatype rev_sort_order = REV_SORT_IN_GRAPH_ORDER | REV_SORT_BY_COMMIT_DATE | REV_SORT_BY_AUTHOR_DATE

type_synonym indegree_slab = "commit \<Rightarrow> nat"

definition recorded_date :: "(commit \<Rightarrow> u64 option) \<Rightarrow> commit list \<Rightarrow> commit \<Rightarrow> u64" where
  "recorded_date author_date orig c = (if c \<in> set orig then (case author_date c of Some d \<Rightarrow> d | None \<Rightarrow> 0) else 0)"

definition order_queue :: "(commit \<Rightarrow> u64 option) \<Rightarrow> commit list \<Rightarrow> rev_sort_order \<Rightarrow> commit prio_queue" where
  "order_queue author_date orig sort_order =
     prio_queue_init (case sort_order of
         REV_SORT_IN_GRAPH_ORDER \<Rightarrow> None
       | REV_SORT_BY_COMMIT_DATE \<Rightarrow> Some compare_commits_by_commit_date
       | REV_SORT_BY_AUTHOR_DATE \<Rightarrow> Some (compare_commits_by_author_date (recorded_date author_date orig)))"

definition mark_commits :: "commit list \<Rightarrow> indegree_slab" where
  "mark_commits orig = foldl (\<lambda>indegree commit. indegree(commit := 1)) (\<lambda>_. 0) orig"

definition count_parents :: "commit list \<Rightarrow> indegree_slab \<Rightarrow> indegree_slab" where
  "count_parents ps indegree =
     foldl (\<lambda>indegree parent. if indegree parent \<noteq> 0 then indegree(parent := indegree parent + 1) else indegree) indegree ps"

definition count_children :: "(commit \<Rightarrow> commit list) \<Rightarrow> commit list \<Rightarrow> indegree_slab \<Rightarrow> indegree_slab" where
  "count_children parents orig indegree = foldl (\<lambda>indegree commit. count_parents (parents commit) indegree) indegree orig"

fun put_tips :: "indegree_slab \<Rightarrow> commit list \<Rightarrow> commit prio_queue \<Rightarrow> commit prio_queue result" where
  "put_tips indegree [] queue = Inr queue"
| "put_tips indegree (commit # orig) queue =
     (if indegree commit = 1 then rbind (prio_queue_put queue commit) (put_tips indegree orig)
      else put_tips indegree orig queue)"

fun release_parents ::
  "commit list \<Rightarrow> indegree_slab \<Rightarrow> commit prio_queue \<Rightarrow> (indegree_slab \<times> commit prio_queue) result"
where
  "release_parents [] indegree queue = Inr (indegree, queue)"
| "release_parents (parent # ps) indegree queue =
     (if indegree parent = 0 then release_parents ps indegree queue
      else
        let indegree = indegree(parent := indegree parent - 1) in
        if indegree parent = 1 then rbind (prio_queue_put queue parent) (release_parents ps indegree)
        else release_parents ps indegree queue)"

fun emit_loop ::
  "nat \<Rightarrow> (commit \<Rightarrow> commit list) \<Rightarrow> indegree_slab \<Rightarrow> commit prio_queue \<Rightarrow> commit list \<Rightarrow> commit list result"
where
  "emit_loop 0 parents indegree queue lst = Inl No_fuel"
| "emit_loop (Suc fuel) parents indegree queue lst =
     rbind (prio_queue_get queue) (\<lambda>r.
       case r of
         None \<Rightarrow> Inr lst
       | Some (commit, queue) \<Rightarrow>
           rbind (release_parents (parents commit) indegree queue) (\<lambda>(indegree, queue).
             emit_loop fuel parents (indegree(commit := 0)) queue (lst @ [commit])))"

definition sort_in_topological_order ::
  "(commit \<Rightarrow> commit list) \<Rightarrow> (commit \<Rightarrow> u64 option) \<Rightarrow> rev_sort_order \<Rightarrow> commit list \<Rightarrow> commit list result"
where
  "sort_in_topological_order parents author_date sort_order orig =
     (if orig = [] then Inr []
      else
        let queue = order_queue author_date orig sort_order;
            indegree = count_children parents orig (mark_commits orig) in
        rbind (put_tips indegree orig queue) (\<lambda>queue.
        rbind (if sort_order = REV_SORT_IN_GRAPH_ORDER then prio_queue_reverse queue else Inr queue) (\<lambda>queue.
          emit_loop (length orig + 1) parents indegree queue [])))"

subsection \<open>The indegrees\<close>

definition children_left :: "(commit \<Rightarrow> commit list) \<Rightarrow> commit list \<Rightarrow> commit \<Rightarrow> nat" where
  "children_left parents cs p = sum_list (map (\<lambda>c. count_list (parents c) p) cs)"

lemma children_left_simps [simp]:
  "children_left parents [] p = 0"
  "children_left parents (c # cs) p = count_list (parents c) p + children_left parents cs p"
  by (simp_all add: children_left_def)

lemma mark_commits_eq: "mark_commits orig p = (if p \<in> set orig then 1 else 0)"
proof -
  have "foldl (\<lambda>indegree commit. indegree(commit := 1)) d orig p = (if p \<in> set orig then 1 else d p)" for d :: indegree_slab
    by (induction orig arbitrary: d) simp_all
  then show ?thesis by (simp add: mark_commits_def)
qed

lemma count_parents_eq: "count_parents ps d p = (if d p = 0 then 0 else d p + count_list ps p)"
  unfolding count_parents_def by (induction ps arbitrary: d) auto

lemma count_children_eq: "count_children parents orig d p = (if d p = 0 then 0 else d p + children_left parents orig p)"
  unfolding count_children_def by (induction orig arbitrary: d) (auto simp: count_parents_eq)

subsection \<open>The queue\<close>

lemma pq_ok_init: "pq_ok (order_queue author_date orig sort_order)" "pq_contents (order_queue author_date orig sort_order) = {#}"
  using pq_wf_init by_commit_date.compare_fn_axioms by_author_date.compare_fn_axioms
  by (auto simp: order_queue_def pq_ok_def pq_contents_def prio_queue_init_def split: rev_sort_order.splits)

lemma put_compare: "prio_queue_put q x = Inr q' \<Longrightarrow> pq_compare q' = pq_compare q"
  by (auto simp: prio_queue_put_def Let_def rbind_eq_Inr split: option.splits)

lemma put_tips_ok:
  "pq_ok q \<Longrightarrow> \<exists>q'. put_tips d cs q = Inr q' \<and> pq_ok q' \<and> pq_compare q' = pq_compare q \<and>
     pq_contents q' = pq_contents q + mset (filter (\<lambda>c. d c = 1) cs)"
proof (induction cs arbitrary: q)
  case (Cons c cs)
  show ?case
  proof (cases "d c = 1")
    case True
    obtain q1 where q1: "prio_queue_put q c = Inr q1" "pq_ok q1" "pq_contents q1 = add_mset c (pq_contents q)"
      using Cons.prems by (rule pq.put_step)
    from Cons.IH [OF q1(2)] q1 put_compare [OF q1(1)] True show ?thesis by auto
  qed (use Cons in simp)
qed simp

lemma reverse_bag:
  assumes "pq_ok q" and "pq_compare q = None"
  shows "\<exists>q'. prio_queue_reverse q = Inr q' \<and> pq_ok q' \<and> pq_contents q' = pq_contents q"
proof (cases "pq_array q = []")
  case False
  have "pq_ok (q\<lparr>pq_array := rev (pq_array q)\<rparr>)"
    using assms by (auto simp: pq_ok_def pq_wf_def rev_map [symmetric])
  then show ?thesis using assms(2) False by (simp add: prio_queue_reverse_def reverse_loop_rev pq_contents_def)
qed (use assms in \<open>simp add: prio_queue_reverse_def\<close>)

text \<open>Releasing the parents of a commit: the count of each goes down once for every time it is named, and
  those that are left with the mark only enter the queue, once.\<close>

lemma release_parents_ok:
  "pq_ok q \<Longrightarrow> (\<And>p. d p \<noteq> 0 \<Longrightarrow> count_list ps p < d p) \<Longrightarrow>
   \<exists>d' q'. release_parents ps d q = Inr (d', q') \<and> pq_ok q' \<and> (\<forall>p. d' p = d p - count_list ps p) \<and>
     pq_contents q' = pq_contents q + mset_set {p \<in> set ps. d p = Suc (count_list ps p)}"
proof (induction ps arbitrary: d q)
  case (Cons p ps)
  show ?case
  proof (cases "d p = 0")
    case True
    have less: "d r \<noteq> 0 \<Longrightarrow> count_list ps r < d r" for r
      using Cons.prems(2) [of r] by (simp split: if_splits)
    from Cons.IH [OF Cons.prems(1) less] obtain d' q' where 1: "release_parents ps d q = Inr (d', q')" "pq_ok q'"
      "\<forall>r. d' r = d r - count_list ps r"
      "pq_contents q' = pq_contents q + mset_set {r \<in> set ps. d r = Suc (count_list ps r)}" by blast
    have "{r \<in> set (p # ps). d r = Suc (count_list (p # ps) r)} = {r \<in> set ps. d r = Suc (count_list ps r)}"
      using True by auto
    with 1 True show ?thesis by (intro exI [of _ d'] exI [of _ q']) auto
  next
    case False
    let ?d = "d(p := d p - 1)"
    have less: "?d r \<noteq> 0 \<Longrightarrow> count_list ps r < ?d r" for r
      using Cons.prems(2) [of r] by (auto split: if_splits)
    show ?thesis
    proof (cases "d p = 2")
      case True
      obtain q1 where q1: "prio_queue_put q p = Inr q1" "pq_ok q1" "pq_contents q1 = add_mset p (pq_contents q)"
        using Cons.prems(1) by (rule pq.put_step)
      from Cons.IH [OF q1(2) less] obtain d' q' where 1: "release_parents ps ?d q1 = Inr (d', q')" "pq_ok q'"
        "\<forall>r. d' r = ?d r - count_list ps r"
        "pq_contents q' = pq_contents q1 + mset_set {r \<in> set ps. ?d r = Suc (count_list ps r)}" by blast
      have 0: "count_list ps p = 0" using Cons.prems(2) [of p] True by simp
      then have "p \<notin> set ps" by (simp add: count_list_0_iff)
      then have "{r \<in> set (p # ps). d r = Suc (count_list (p # ps) r)} = insert p {r \<in> set ps. ?d r = Suc (count_list ps r)}"
        using True 0 by auto
      with \<open>p \<notin> set ps\<close> have "mset_set {r \<in> set (p # ps). d r = Suc (count_list (p # ps) r)} =
          add_mset p (mset_set {r \<in> set ps. ?d r = Suc (count_list ps r)})" by simp
      with 1 q1 True show ?thesis by (intro exI [of _ d'] exI [of _ q']) auto
    next
      case other: False
      from Cons.IH [OF Cons.prems(1) less] obtain d' q' where 1: "release_parents ps ?d q = Inr (d', q')" "pq_ok q'"
        "\<forall>r. d' r = ?d r - count_list ps r"
        "pq_contents q' = pq_contents q + mset_set {r \<in> set ps. ?d r = Suc (count_list ps r)}" by blast
      have "d p \<noteq> Suc (Suc 0)" using other by simp
      then have eq: "{r \<in> set (p # ps). d r = Suc (count_list (p # ps) r)} = {r \<in> set ps. ?d r = Suc (count_list ps r)}"
        using False count_list_0_iff [of ps p] by (auto split: if_splits)
      have "release_parents (p # ps) d q = Inr (d', q')"
      proof -
        have "d p - 1 \<noteq> 1" using False other by linarith
        then show ?thesis using 1(1) False by (simp add: Let_def)
      qed
      moreover have "\<forall>r. d' r = d r - count_list (p # ps) r" using 1(3) by simp
      ultimately show ?thesis unfolding eq using 1(2,4) by blast
    qed
  qed
qed simp

subsection \<open>The invariant of the traversal\<close>

definition topo_inv ::
  "(commit \<Rightarrow> commit list) \<Rightarrow> commit list \<Rightarrow> indegree_slab \<Rightarrow> commit prio_queue \<Rightarrow> commit list \<Rightarrow> commit list \<Rightarrow> bool"
where
  "topo_inv parents orig d q lst left \<longleftrightarrow>
     pq_ok q \<and> mset orig = mset lst + mset left \<and>
     (\<forall>p. d p = (if p \<in> set left then Suc (children_left parents left p) else 0)) \<and>
     pq_contents q = mset_set {p \<in> set left. children_left parents left p = 0} \<and>
     sorted_wrt (\<lambda>a b. a \<notin> set (parents b)) lst \<and>
     (\<forall>a \<in> set lst. \<forall>b \<in> set left. a \<notin> set (parents b))"

lemma children_left_0: "children_left parents cs p = 0 \<longleftrightarrow> (\<forall>c \<in> set cs. p \<notin> set (parents c))"
  by (induction cs) (auto simp: count_list_0_iff)

lemma children_left_mset: "mset cs = mset cs' \<Longrightarrow> children_left parents cs p = children_left parents cs' p"
  unfolding children_left_def by (metis mset_map sum_mset_sum_list)

lemma children_left_remove1:
  "c \<in> set cs \<Longrightarrow> children_left parents cs p = count_list (parents c) p + children_left parents (remove1 c cs) p"
  using children_left_mset [of cs "c # remove1 c cs" parents p] by simp

lemma topo_step:
  assumes inv: "topo_inv parents orig d q lst left" and "distinct orig"
    and get: "prio_queue_get q = Inr (Some (c, q1))" "pq_ok q1" "pq_contents q = add_mset c (pq_contents q1)"
  shows "\<exists>d' q2. release_parents (parents c) d q1 = Inr (d', q2) \<and>
    topo_inv parents orig (d'(c := 0)) q2 (lst @ [c]) (remove1 c left) \<and> c \<in> set left"
proof -
  have dist: "distinct left" using inv assms(2) unfolding topo_inv_def
    by (metis distinct_append mset_append mset_eq_imp_distinct_iff)
  have deg: "d p = (if p \<in> set left then Suc (children_left parents left p) else 0)" for p
    using inv by (simp add: topo_inv_def)
  have Q: "mset_set {p \<in> set left. children_left parents left p = 0} = add_mset c (pq_contents q1)"
    using inv get(3) by (simp add: topo_inv_def)
  then have "c \<in># mset_set {p \<in> set left. children_left parents left p = 0}" by simp
  then have c: "c \<in> set left" "children_left parents left c = 0" by simp_all
  let ?left = "remove1 c left"
  have split: "children_left parents left p = count_list (parents c) p + children_left parents ?left p" for p
    by (rule children_left_remove1 [OF c(1)])
  have less: "count_list (parents c) p < d p" if "d p \<noteq> 0" for p
    using that deg [of p] split [of p] by (auto split: if_splits)
  obtain d' q2 where 1: "release_parents (parents c) d q1 = Inr (d', q2)" "pq_ok q2"
    "\<forall>p. d' p = d p - count_list (parents c) p"
    "pq_contents q2 = pq_contents q1 + mset_set {p \<in> set (parents c). d p = Suc (count_list (parents c) p)}"
    using release_parents_ok [OF get(2) less] by blast
  have set_left: "set ?left = set left - {c}" using dist by simp
  have self: "count_list (parents c) c = 0" using c(2) split [of c] by simp
  have deg': "(d'(c := 0)) p = (if p \<in> set ?left then Suc (children_left parents ?left p) else 0)" for p
    using 1(3) deg [of p] split [of p] set_left by auto
  let ?ready = "{p \<in> set left. children_left parents left p = 0}"
  have "mset_set ?ready = add_mset c (mset_set (?ready - {c}))" using c by (intro mset_set.remove) simp_all
  with Q have Q1: "pq_contents q1 = mset_set (?ready - {c})" by simp
  have new: "{p \<in> set (parents c). d p = Suc (count_list (parents c) p)} =
      {p \<in> set ?left. children_left parents ?left p = 0 \<and> p \<in> set (parents c)}"
    using deg split set_left self by (auto simp: count_list_0_iff)
  have old: "?ready - {c} = {p \<in> set ?left. children_left parents ?left p = 0 \<and> p \<notin> set (parents c)}"
    using split set_left by (auto simp: count_list_0_iff)
  have "{p \<in> set ?left. children_left parents ?left p = 0} = (?ready - {c}) \<union> {p \<in> set (parents c). d p = Suc (count_list (parents c) p)}"
    unfolding new old by blast
  then have Q2: "pq_contents q2 = mset_set {p \<in> set ?left. children_left parents ?left p = 0}"
    unfolding 1(4) Q1 new old by (simp only:) (rule mset_set_Union [symmetric], auto)
  have "\<forall>b \<in> set left. c \<notin> set (parents b)" using c(2) by (simp add: children_left_0)
  then have "topo_inv parents orig (d'(c := 0)) q2 (lst @ [c]) ?left"
    using inv 1(2) deg' Q2 c(1) set_left unfolding topo_inv_def by (auto simp: sorted_wrt_append)
  with 1(1) c(1) show ?thesis by blast
qed

lemma emit_loop_ok:
  assumes "topo_inv parents orig d q lst left" and "distinct orig"
    and "acyclic {(c, p). c \<in> set orig \<and> p \<in> set orig \<and> p \<in> set (parents c)}" and "length left < fuel"
  shows "\<exists>out. emit_loop fuel parents d q lst = Inr out \<and> mset out = mset orig \<and>
    sorted_wrt (\<lambda>a b. a \<notin> set (parents b)) out"
  using assms(1,4)
proof (induction fuel arbitrary: d q lst left)
  case (Suc fuel)
  have ok: "pq_ok q" using Suc.prems(1) by (simp add: topo_inv_def)
  then show ?case
  proof (cases rule: pq.get_cases)
    case 1
    let ?r = "{(c, p). c \<in> set orig \<and> p \<in> set orig \<and> p \<in> set (parents c)}"
    have sub: "set left \<subseteq> set orig" using Suc.prems(1) unfolding topo_inv_def
      by (metis mset_append set_append set_mset_mset sup_ge2)
    have "{p \<in> set left. children_left parents left p = 0} = {}"
      using Suc.prems(1) 1(2) by (simp add: topo_inv_def mset_set_empty_iff)
    then have all: "\<exists>c \<in> set left. (c, p) \<in> ?r" if "p \<in> set left" for p
      using that sub by (fastforce simp: children_left_0)
    have "finite ?r" by (rule finite_subset [of _ "set orig \<times> set orig"]) auto
    then have "wf ?r" using assms(3) by (rule finite_acyclic_wf)
    then have "left = []" using all by (metis (no_types, lifting) list.set_intros(1) neq_Nil_conv wfE_min)
    then show ?thesis using Suc.prems(1) 1(1) by (simp add: topo_inv_def)
  next
    case (2 c q1)
    obtain d' q2 where step: "release_parents (parents c) d q1 = Inr (d', q2)"
      "topo_inv parents orig (d'(c := 0)) q2 (lst @ [c]) (remove1 c left)" "c \<in> set left"
      using topo_step [OF Suc.prems(1) assms(2) 2] by blast
    have "length (remove1 c left) = length left - 1" using step(3) by (simp add: length_remove1)
    then have "length (remove1 c left) < fuel" using Suc.prems(2) length_pos_if_in_set [OF step(3)] by linarith
    from Suc.IH [OF step(2) this] show ?thesis using 2(1) step(1) by (simp del: fun_upd_apply)
  qed
qed simp

subsection \<open>Properties\<close>

text \<open>C19: sorting a list of distinct commits whose parent relation has no cycle returns, for every sort
  order, exactly the commits of the list, and no commit comes after one of its parents.  The loop
  ends after as many rounds as there are commits.\<close>

theorem topological_order:
  assumes "distinct orig" and "acyclic {(c, p). c \<in> set orig \<and> p \<in> set orig \<and> p \<in> set (parents c)}"
  shows "\<exists>out. sort_in_topological_order parents author_date sort_order orig = Inr out \<and> mset out = mset orig \<and>
    sorted_wrt (\<lambda>a b. a \<notin> set (parents b)) out"
proof (cases "orig = []")
  case False
  let ?d = "count_children parents orig (mark_commits orig)"
  let ?q = "order_queue author_date orig sort_order"
  have d: "?d p = (if p \<in> set orig then Suc (children_left parents orig p) else 0)" for p
    by (simp add: count_children_eq mark_commits_eq)
  obtain q1 where q1: "put_tips ?d orig ?q = Inr q1" "pq_ok q1" "pq_compare q1 = pq_compare ?q"
    "pq_contents q1 = mset (filter (\<lambda>c. ?d c = 1) orig)"
    using put_tips_ok [OF pq_ok_init(1)] pq_ok_init(2) by (metis add_0)
  obtain q2 where q2: "(if sort_order = REV_SORT_IN_GRAPH_ORDER then prio_queue_reverse q1 else Inr q1) = Inr q2"
    "pq_ok q2" "pq_contents q2 = pq_contents q1"
    using reverse_bag [OF q1(2)] q1(2,3) by (cases sort_order) (auto simp: order_queue_def prio_queue_init_def)
  have "mset (filter (\<lambda>c. ?d c = 1) orig) = mset_set (set (filter (\<lambda>c. ?d c = 1) orig))"
    using assms(1) by (simp only: mset_set_set distinct_filter)
  also have "set (filter (\<lambda>c. ?d c = 1) orig) = {p \<in> set orig. children_left parents orig p = 0}"
    using d by auto
  finally have "topo_inv parents orig ?d q2 [] orig"
    using q2 q1(4) d by (simp add: topo_inv_def)
  from emit_loop_ok [OF this assms, of "length orig + 1"] show ?thesis
    using q1(1) q2(1) False by (simp add: sort_in_topological_order_def Let_def del: emit_loop.simps)
qed (simp add: sort_in_topological_order_def)

theorem topological_order_witness:
  "\<exists>out. sort_in_topological_order
      (\<lambda>c. if cm_id c = 2 then [\<lparr>cm_date = 1, cm_generation = 1, cm_id = 1\<rparr>] else [])
      (\<lambda>_. None) REV_SORT_BY_COMMIT_DATE
      [\<lparr>cm_date = 1, cm_generation = 1, cm_id = 1\<rparr>, \<lparr>cm_date = 0, cm_generation = 2, cm_id = 2\<rparr>] = Inr out \<and>
    mset out = {#\<lparr>cm_date = 1, cm_generation = 1, cm_id = 1\<rparr>, \<lparr>cm_date = 0, cm_generation = 2, cm_id = 2\<rparr>#}"
proof -
  let ?a = "\<lparr>cm_date = 1, cm_generation = 1, cm_id = 1\<rparr>" and ?b = "\<lparr>cm_date = 0, cm_generation = 2, cm_id = 2\<rparr>"
  let ?parents = "\<lambda>c. if cm_id c = 2 then [?a] else []"
  have "{(c, p). c \<in> set [?a, ?b] \<and> p \<in> set [?a, ?b] \<and> p \<in> set (?parents c)} = {(?b, ?a)}"
    by (auto split: if_splits)
  moreover have "acyclic {(?b, ?a)}" by (simp add: wf_acyclic)
  ultimately have "acyclic {(c, p). c \<in> set [?a, ?b] \<and> p \<in> set [?a, ?b] \<and> p \<in> set (?parents c)}" by simp
  from topological_order [OF _ this] show ?thesis by (simp, metis (no_types, lifting))
qed

end
