(* ===== verification/Git_Hex.thy ===== *)
theory Git_Hex
  imports Git_Compat
begin

unbundle bit_operations_syntax

section \<open>Hexadecimal object names: hex-ll.c, hex-ll.h and hex.c\<close>

text \<open>
  A C string is the list of its bytes followed by the NUL byte and whatever memory comes after it;
  reading behind the list is a fault.  \<^verbatim>\<open>the_hash_algo\<close> is the argument \<open>the_algo\<close>, an index into
  \<open>hash_algos\<close>.  \<^verbatim>\<open>hash_to_hex_algop()\<close> and its callers add a rotating static buffer to
  \<open>hash_to_hex_algop_r\<close> and are not modelled.
\<close>

definition hexval_table :: "int list" where
  "hexval_table =
     replicate 48 (- 1) @ map int [0..<10] @ replicate 7 (- 1) @ map int [10..<16] @ replicate 26 (- 1) @
     map int [10..<16] @ replicate 153 (- 1)"

definition hexval :: "byte \<Rightarrow> u32" where
  "hexval c = of_int (hexval_table ! unat c)"

definition hex2chr :: "byte list \<Rightarrow> u32 result" where
  "hex2chr s =
     rbind (rd s 0) (\<lambda>c.
       let val = hexval c in
       if val AND NOT 0xf \<noteq> 0 then Inr val
       else rbind (rd s 1) (\<lambda>c. Inr (push_bit 4 val OR hexval c)))"

fun hex_to_bytes :: "byte list \<Rightarrow> nat \<Rightarrow> byte list option result" where
  "hex_to_bytes hex 0 = Inr (Some [])"
| "hex_to_bytes hex (Suc len) =
     rbind (rd hex 0) (\<lambda>c0. rbind (rd hex 1) (\<lambda>c1.
       let val = push_bit 4 (hexval c0) OR hexval c1 in
       if val AND NOT 0xff \<noteq> 0 then Inr None
       else rbind (hex_to_bytes (drop 2 hex) len) (\<lambda>r.
         Inr (map_option (\<lambda>binary. ucast val # binary) r))))"

record git_hash_algo =
  ha_name :: "string option"
  ha_format_id :: u32
  ha_rawsz :: nat
  ha_hexsz :: nat
  ha_blksz :: nat

definition hash_algos :: "git_hash_algo list" where
  "hash_algos =
     [\<lparr>ha_name = None, ha_format_id = 0, ha_rawsz = 0, ha_hexsz = 0, ha_blksz = 0\<rparr>,
      \<lparr>ha_name = Some ''sha1'', ha_format_id = 0x73686131, ha_rawsz = 20, ha_hexsz = 2 * 20, ha_blksz = 64\<rparr>,
      \<lparr>ha_name = Some ''sha256'', ha_format_id = 0x73323536, ha_rawsz = 32, ha_hexsz = 2 * 32, ha_blksz = 64\<rparr>]"

definition GIT_MAX_RAWSZ :: nat where "GIT_MAX_RAWSZ = 32"

definition GIT_HASH_NALGOS :: nat where "GIT_HASH_NALGOS = 2 + 1"

text \<open>The lookups try the known algorithms in order; 0 is \<^verbatim>\<open>GIT_HASH_UNKNOWN\<close>.\<close>

definition algo_index :: "(git_hash_algo \<Rightarrow> bool) \<Rightarrow> nat" where
  "algo_index P = (case find (\<lambda>i. P (hash_algos ! i)) [1..<GIT_HASH_NALGOS] of Some i \<Rightarrow> i | None \<Rightarrow> 0)"

definition hash_algo_by_name :: "string option \<Rightarrow> nat" where
  "hash_algo_by_name name = (case name of None \<Rightarrow> 0 | Some n \<Rightarrow> algo_index (\<lambda>a. ha_name a = Some n))"

definition hash_algo_by_id :: "u32 \<Rightarrow> nat" where
  "hash_algo_by_id format_id = algo_index (\<lambda>a. ha_format_id a = format_id)"

definition hash_algo_by_length :: "nat \<Rightarrow> nat" where
  "hash_algo_by_length len = algo_index (\<lambda>a. ha_rawsz a = len)"

record object_id =
  oid_hash :: "byte list"
  oid_algo :: nat

fun get_hash_hex_loop :: "nat \<Rightarrow> byte list \<Rightarrow> byte list option result" where
  "get_hash_hex_loop 0 hex = Inr (Some [])"
| "get_hash_hex_loop (Suc n) hex =
     rbind (hex2chr hex) (\<lambda>val.
       if sint val < 0 then Inr None
       else rbind (get_hash_hex_loop n (drop 2 hex)) (\<lambda>r. Inr (map_option (\<lambda>hash. ucast val # hash) r)))"

definition get_hash_hex_algop :: "byte list \<Rightarrow> git_hash_algo \<Rightarrow> byte list option result" where
  "get_hash_hex_algop hex algop = get_hash_hex_loop (ha_rawsz algop) hex"

definition get_oid_hex_algop :: "byte list \<Rightarrow> nat \<Rightarrow> object_id option result" where
  "get_oid_hex_algop hex algo =
     rbind (rd hash_algos algo) (\<lambda>algop.
     rbind (get_hash_hex_algop hex algop) (\<lambda>r.
       Inr (map_option (\<lambda>hash.
         \<lparr>oid_hash = (if ha_rawsz algop \<noteq> GIT_MAX_RAWSZ
                      then hash @ replicate (GIT_MAX_RAWSZ - ha_rawsz algop) 0 else hash),
          oid_algo = algo\<rparr>) r)))"

text \<open>The loop of \<^verbatim>\<open>get_oid_hex_any()\<close>, from the longest algorithm down; 0 is \<^verbatim>\<open>GIT_HASH_UNKNOWN\<close>.\<close>

fun get_oid_hex_any_loop :: "nat \<Rightarrow> byte list \<Rightarrow> (nat \<times> object_id option) result" where
  "get_oid_hex_any_loop 0 hex = Inr (0, None)"
| "get_oid_hex_any_loop (Suc i) hex =
     rbind (get_oid_hex_algop hex (Suc i)) (\<lambda>r.
       case r of Some oid \<Rightarrow> Inr (Suc i, Some oid) | None \<Rightarrow> get_oid_hex_any_loop i hex)"

definition get_oid_hex_any :: "byte list \<Rightarrow> (nat \<times> object_id option) result" where
  "get_oid_hex_any hex = get_oid_hex_any_loop (GIT_HASH_NALGOS - 1) hex"

definition get_oid_hex :: "nat \<Rightarrow> byte list \<Rightarrow> object_id option result" where
  "get_oid_hex the_algo hex = get_oid_hex_algop hex the_algo"

definition parse_oid_hex_algop :: "byte list \<Rightarrow> nat \<Rightarrow> (object_id \<times> byte list) option result" where
  "parse_oid_hex_algop hex algo =
     rbind (get_oid_hex_algop hex algo) (\<lambda>r.
     rbind (rd hash_algos algo) (\<lambda>algop.
       Inr (map_option (\<lambda>oid. (oid, drop (ha_hexsz algop) hex)) r)))"

definition parse_oid_hex_any :: "byte list \<Rightarrow> (nat \<times> object_id option \<times> byte list option) result" where
  "parse_oid_hex_any hex =
     rbind (get_oid_hex_any hex) (\<lambda>(ret, oid).
       if ret \<noteq> 0 then rbind (rd hash_algos ret) (\<lambda>algop. Inr (ret, oid, Some (drop (ha_hexsz algop) hex)))
       else Inr (ret, oid, None))"

definition parse_oid_hex :: "nat \<Rightarrow> byte list \<Rightarrow> (object_id \<times> byte list) option result" where
  "parse_oid_hex the_algo hex = parse_oid_hex_algop hex the_algo"

definition hex_digits :: "byte list" where
  "hex_digits = map of_char ''0123456789abcdef''"

fun to_hex_loop :: "nat \<Rightarrow> byte list \<Rightarrow> byte list result" where
  "to_hex_loop 0 hash = Inr [0]"
| "to_hex_loop (Suc n) hash =
     rbind (rd hash 0) (\<lambda>b.
       let val = ucast b :: u32 in
       rbind (rd hex_digits (unat (drop_bit 4 val))) (\<lambda>hi.
       rbind (rd hex_digits (unat (val AND 0xf))) (\<lambda>lo.
       rbind (to_hex_loop n (drop 1 hash)) (\<lambda>rest. Inr (hi # lo # rest)))))"

text \<open>The algorithm is given by its index; for an object name whose algorithm was never set it is the one of
  the repository.\<close>

definition hash_to_hex_algop_r :: "nat \<Rightarrow> byte list \<Rightarrow> nat \<Rightarrow> byte list result" where
  "hash_to_hex_algop_r the_algo hash algo =
     (let algo = (if algo = 0 then the_algo else algo) in
      rbind (rd hash_algos algo) (\<lambda>algop. to_hex_loop (ha_rawsz algop) hash))"

definition oid_to_hex_r :: "nat \<Rightarrow> object_id \<Rightarrow> byte list result" where
  "oid_to_hex_r the_algo oid = hash_to_hex_algop_r the_algo (oid_hash oid) (oid_algo oid)"

subsection \<open>Hexadecimal digits\<close>

definition digit_of :: "byte \<Rightarrow> nat option" where
  "digit_of c =
     (let i = unat c in
      if 48 \<le> i \<and> i < 58 then Some (i - 48)
      else if 65 \<le> i \<and> i < 71 then Some (i - 55)
      else if 97 \<le> i \<and> i < 103 then Some (i - 87)
      else None)"

lemma nth_map_upt: "k < n - m \<Longrightarrow> map int [m..<n] ! k = int (m + k)"
  by simp

lemma nth_hexval_table:
  assumes "i < 256"
  shows "hexval_table ! i =
    (if 48 \<le> i \<and> i < 58 then int i - 48 else if 65 \<le> i \<and> i < 71 then int i - 55
     else if 97 \<le> i \<and> i < 103 then int i - 87 else - 1)"
proof -
  define D where "D = map int [0..<10]"
  define X where "X = map int [10..<16]"
  have len: "length D = 10" "length X = 6" by (simp_all only: D_def X_def length_map length_upt)
  have D: "k < 10 \<Longrightarrow> D ! k = int k" and X: "k < 6 \<Longrightarrow> X ! k = int (10 + k)" for k
    unfolding D_def X_def using nth_map_upt [of k 10 0] nth_map_upt [of k 16 10] by auto
  have table: "hexval_table = replicate 48 (- 1) @ D @ replicate 7 (- 1) @ X @ replicate 26 (- 1) @ X @ replicate 153 (- 1)"
    unfolding hexval_table_def D_def X_def ..
  consider "i < 48" | "48 \<le> i" "i < 58" | "58 \<le> i" "i < 65" | "65 \<le> i" "i < 71" | "71 \<le> i" "i < 97"
    | "97 \<le> i" "i < 103" | "103 \<le> i" by linarith
  then show ?thesis
    using assms by cases (simp_all add: table nth_append len D X less_diff_conv2)
qed

lemma hexval_digit: "hexval c = (case digit_of c of Some d \<Rightarrow> of_nat d | None \<Rightarrow> - 1)"
proof -
  have "unat c < 256" using unat_less [of c] by simp
  then show ?thesis
    by (simp add: hexval_def nth_hexval_table digit_of_def Let_def)
qed

lemma digit_of_less: "digit_of c = Some d \<Longrightarrow> d < 16"
  by (auto simp: digit_of_def Let_def split: if_splits)

lemma digit_of_0 [simp]: "digit_of 0 = None"
  by (simp add: digit_of_def)

lemma of_nat_less_16:
  assumes "d < 16"
  shows "(of_nat d :: u32) AND - 16 = 0" and "unat (of_nat d :: u32) = d"
proof -
  show unat: "unat (of_nat d :: u32) = d" using assms by (simp add: unat_of_nat take_bit_nat_eq_self)
  have "(of_nat d :: u32) AND mask 4 = of_nat d"
    by (rule word_unat_eq_iff [THEN iffD2]) (use assms in \<open>simp add: unat_and_mask unat\<close>)
  then have "(of_nat d :: u32) AND NOT (mask 4) = 0"
    by (metis and.assoc and_zero_eq bit.conj_cancel_right)
  then show "(of_nat d :: u32) AND - 16 = 0" by (simp add: mask_eq_exp_minus_1)
qed

lemma unat_two_digits:
  assumes "d < 16" and "e < 16"
  shows "unat (push_bit 4 (of_nat d :: u32) OR of_nat e) = 16 * d + e"
proof -
  have "unat (push_bit 4 (of_nat d :: u32)) = d * 16"
    using assms by (simp add: unat_push_bit_mod of_nat_less_16(2))
  then show ?thesis
    using unat_or_add' [of "of_nat e :: u32" 4 "push_bit 4 (of_nat d)"] assms by (simp add: of_nat_less_16(2))
qed

lemma hex2chr_cases:
  "hex2chr s = (case s of
     [] \<Rightarrow> Inl Oob
   | c # s' \<Rightarrow> (case digit_of c of
       None \<Rightarrow> Inr (- 1)
     | Some d \<Rightarrow> (case s' of
         [] \<Rightarrow> Inl Oob
       | c' # _ \<Rightarrow> Inr (case digit_of c' of None \<Rightarrow> - 1 | Some e \<Rightarrow> push_bit 4 (of_nat d) OR of_nat e))))"
proof -
  have "(- 1 :: u32) AND NOT 0xf \<noteq> 0" by simp
  then show ?thesis
    by (auto simp: hex2chr_def rd_def Let_def hexval_digit of_nat_less_16 digit_of_less
        split: list.splits option.splits)
qed

text \<open>What a string of digit pairs stands for.\<close>

fun unhex :: "nat \<Rightarrow> byte list \<Rightarrow> byte list option" where
  "unhex 0 s = Some []"
| "unhex (Suc n) (c # c' # s) =
     (case (digit_of c, digit_of c') of
        (Some d, Some e) \<Rightarrow> map_option ((#) (of_nat (16 * d + e))) (unhex n s)
      | _ \<Rightarrow> None)"
| "unhex (Suc n) s = None"

lemma two_digits_word:
  assumes "d < 16" and "e < 16"
  shows "\<not> sint (push_bit 4 (of_nat d :: u32) OR of_nat e) < 0"
    and "ucast (push_bit 4 (of_nat d :: u32) OR of_nat e) = (of_nat (16 * d + e) :: byte)"
proof -
  let ?w = "push_bit 4 (of_nat d :: u32) OR of_nat e"
  have w: "?w = of_nat (16 * d + e)"
    using unat_two_digits [OF assms] by (metis word_of_nat_eq_iff of_nat_unat ucast_id)
  have "16 * d + e < 256" using assms by simp
  then show "\<not> sint ?w < 0" unfolding w signed_of_nat using signed_take_bit_int_eq_self [of 31 "int (16 * d + e)"] by simp
  show "ucast ?w = (of_nat (16 * d + e) :: byte)"
    unfolding w unsigned_of_nat using \<open>16 * d + e < 256\<close> by (subst take_bit_nat_eq_self) simp_all
qed

lemma get_hash_hex_loop_ok: "0 \<in> set s \<Longrightarrow> get_hash_hex_loop n s = Inr (unhex n s)"
proof (induction n s rule: unhex.induct)
  case (2 n c c' s)
  show ?case
  proof (cases "digit_of c")
    case None
    then show ?thesis by (simp add: hex2chr_cases)
  next
    case (Some d)
    then have "c \<noteq> 0" by auto
    show ?thesis
    proof (cases "digit_of c'")
      case None
      with Some show ?thesis by (simp add: hex2chr_cases)
    next
      case e: (Some e)
      then have "c' \<noteq> 0" by auto
      with \<open>c \<noteq> 0\<close> "2.prems" have "0 \<in> set s" by auto
      with "2.IH" Some e digit_of_less show ?thesis by (simp add: hex2chr_cases two_digits_word)
    qed
  qed
qed (simp_all add: hex2chr_cases)

definition hex_prefix :: "nat \<Rightarrow> byte list \<Rightarrow> bool" where
  "hex_prefix n s \<longleftrightarrow> n \<le> length s \<and> (\<forall>i < n. digit_of (s ! i) \<noteq> None)"

lemma hex_prefix_Suc: "hex_prefix (2 * Suc n) (c # c' # s) \<longleftrightarrow> digit_of c \<noteq> None \<and> digit_of c' \<noteq> None \<and> hex_prefix (2 * n) s"
  by (auto simp: hex_prefix_def All_less_Suc2)

lemma unhex_None: "unhex n s = None \<longleftrightarrow> \<not> hex_prefix (2 * n) s"
proof (induction n s rule: unhex.induct)
  case (2 n c c' s)
  then show ?case unfolding hex_prefix_Suc by (auto split: option.splits)
qed (simp_all add: hex_prefix_def)

lemma length_unhex: "unhex n s = Some h \<Longrightarrow> length h = n"
  by (induction n s arbitrary: h rule: unhex.induct) (auto split: option.splits)

definition hex_of :: "byte \<Rightarrow> byte list" where
  "hex_of b = [hex_digits ! (unat b div 16), hex_digits ! (unat b mod 16)]"

lemma length_hex_digits [simp]: "length hex_digits = 16"
  by (simp add: hex_digits_def)

lemma digit_of_hex_digits: "d < 16 \<Longrightarrow> digit_of (hex_digits ! d) = Some d"
proof -
  have "map digit_of hex_digits = map Some [0..<16]" by (simp add: hex_digits_def digit_of_def upt_conv_Cons)
  then show "d < 16 \<Longrightarrow> digit_of (hex_digits ! d) = Some d"
    by (metis add_0 diff_zero length_hex_digits length_upt nth_map nth_upt)
qed

lemma to_hex_loop_ok: "n \<le> length h \<Longrightarrow> to_hex_loop n h = Inr (concat (map hex_of (take n h)) @ [0])"
proof (induction n arbitrary: h)
  case (Suc n)
  then obtain b h' where h: "h = b # h'" by (cases h) auto
  have "unat (drop_bit 4 (ucast b :: u32)) = unat b div 16" "unat ((ucast b :: u32) AND 0xf) = unat b mod 16"
    using unat_less [of b] by (simp_all add: unat_simps)
  moreover have "unat b div 16 < 16" "unat b mod 16 < 16" using unat_less [of b] by auto
  ultimately show ?case using Suc h by (simp add: hex_of_def Let_def)
qed simp

lemma unhex_hex: "unhex (length h) (concat (map hex_of h) @ rest) = Some h"
proof (induction h)
  case (Cons b h)
  have "unat b div 16 < 16" "unat b mod 16 < 16" using unat_less [of b] by auto
  moreover have "(of_nat (16 * (unat b div 16) + unat b mod 16) :: byte) = b" by (simp only: mult_div_mod_eq of_nat_unat ucast_id)
  ultimately show ?case using Cons by (simp add: hex_of_def digit_of_hex_digits)
qed simp

lemma nul_behind_digits: "hex_prefix n s \<Longrightarrow> 0 \<in> set (take n s) \<Longrightarrow> False"
  by (auto simp: hex_prefix_def in_set_conv_nth)

lemma hash_algos_cases:
  "i < length hash_algos \<Longrightarrow> ha_rawsz (hash_algos ! i) \<le> GIT_MAX_RAWSZ \<and> ha_hexsz (hash_algos ! i) = 2 * ha_rawsz (hash_algos ! i)"
  by (auto simp: hash_algos_def GIT_MAX_RAWSZ_def less_Suc_eq)

definition pad_hash :: "byte list \<Rightarrow> byte list" where
  "pad_hash h = h @ replicate (GIT_MAX_RAWSZ - length h) 0"

lemma get_oid_hex_algop_ok:
  assumes "0 \<in> set s" and "algo < length hash_algos"
  shows "get_oid_hex_algop s algo =
    Inr (map_option (\<lambda>h. \<lparr>oid_hash = pad_hash h, oid_algo = algo\<rparr>) (unhex (ha_rawsz (hash_algos ! algo)) s))"
  using assms by (auto simp: get_oid_hex_algop_def get_hash_hex_algop_def get_hash_hex_loop_ok pad_hash_def length_unhex
      intro!: map_option_cong)

lemma algo_index_cases:
  "algo_index P = (if P (hash_algos ! 1) then 1 else if P (hash_algos ! 2) then 2 else 0)"
  by (simp add: algo_index_def GIT_HASH_NALGOS_def upt_conv_Cons numeral_2_eq_2)

subsection \<open>Properties\<close>

text \<open>C22: the name printed for an object id is read back as the same id, whatever text follows it, and the parser
  stops right behind the name.\<close>

theorem oid_hex_roundtrip:
  assumes "algo = 1 \<or> algo = 2" and "length h = ha_rawsz (hash_algos ! algo)" and "0 \<in> set rest"
  shows "\<exists>name. oid_to_hex_r the_algo \<lparr>oid_hash = pad_hash h, oid_algo = algo\<rparr> = Inr (name @ [0]) \<and>
    length name = ha_hexsz (hash_algos ! algo) \<and>
    parse_oid_hex_algop (name @ rest) algo = Inr (Some (\<lparr>oid_hash = pad_hash h, oid_algo = algo\<rparr>, rest))"
proof -
  have algo: "algo < length hash_algos" "algo \<noteq> 0" using assms(1) by (auto simp: hash_algos_def)
  let ?name = "concat (map hex_of h)"
  have len: "length ?name = ha_hexsz (hash_algos ! algo)"
    using hash_algos_cases [OF algo(1)] assms(2) by (simp add: length_concat hex_of_def comp_def sum_list_triv)
  have "oid_to_hex_r the_algo \<lparr>oid_hash = pad_hash h, oid_algo = algo\<rparr> = Inr (?name @ [0])"
    using algo assms(2) by (simp add: oid_to_hex_r_def hash_to_hex_algop_r_def to_hex_loop_ok pad_hash_def)
  moreover have "parse_oid_hex_algop (?name @ rest) algo = Inr (Some (\<lparr>oid_hash = pad_hash h, oid_algo = algo\<rparr>, rest))"
    using algo assms(2,3) len unhex_hex [of h rest] by (simp add: parse_oid_hex_algop_def get_oid_hex_algop_ok)
  ultimately show ?thesis using len by blast
qed

theorem oid_hex_roundtrip_witness:
  "length (replicate 20 (7 :: byte)) = ha_rawsz (hash_algos ! 1) \<and>
   (\<exists>name. oid_to_hex_r 2 \<lparr>oid_hash = pad_hash (replicate 20 7), oid_algo = 1\<rparr> = Inr (name @ [0]) \<and>
      parse_oid_hex_algop (name @ [32, 0]) 1 = Inr (Some (\<lparr>oid_hash = pad_hash (replicate 20 7), oid_algo = 1\<rparr>, [32, 0])))"
proof -
  have len: "length (replicate 20 (7 :: byte)) = ha_rawsz (hash_algos ! 1)" by (simp add: hash_algos_def)
  have "(1 :: nat) = 1 \<or> 1 = (2 :: nat)" "0 \<in> set [32, 0 :: byte]" by simp_all
  from oid_hex_roundtrip [OF this(1) len this(2), of 2] len show ?thesis by blast
qed

text \<open>C23: reading an object name from an arbitrary NUL-terminated string never looks behind the terminator,
  and succeeds exactly if the string starts with enough hexadecimal digits of either case; the search
  for the algorithm finds the longest name.\<close>

theorem oid_hex_reader:
  assumes "0 \<in> set s"
  shows "(\<forall>algo. algo < length hash_algos \<longrightarrow> (case get_oid_hex_algop s algo of
        Inl _ \<Rightarrow> False
      | Inr None \<Rightarrow> \<not> hex_prefix (ha_hexsz (hash_algos ! algo)) s
      | Inr (Some oid) \<Rightarrow> hex_prefix (ha_hexsz (hash_algos ! algo)) s \<and> length (oid_hash oid) = GIT_MAX_RAWSZ)) \<and>
    (\<exists>r. get_oid_hex_any s = Inr (if hex_prefix 64 s then 2 else if hex_prefix 40 s then 1 else 0, r))"
proof (intro conjI allI impI)
  fix algo assume algo: "algo < length hash_algos"
  show "case get_oid_hex_algop s algo of
        Inl _ \<Rightarrow> False
      | Inr None \<Rightarrow> \<not> hex_prefix (ha_hexsz (hash_algos ! algo)) s
      | Inr (Some oid) \<Rightarrow> hex_prefix (ha_hexsz (hash_algos ! algo)) s \<and> length (oid_hash oid) = GIT_MAX_RAWSZ"
    using hash_algos_cases [OF algo] unhex_None [of "ha_rawsz (hash_algos ! algo)" s] length_unhex [of "ha_rawsz (hash_algos ! algo)" s]
    by (auto simp: get_oid_hex_algop_ok [OF assms algo] pad_hash_def split: option.splits)
next
  have "get_oid_hex_algop s 2 = Inr (map_option (\<lambda>h. \<lparr>oid_hash = pad_hash h, oid_algo = 2\<rparr>) (unhex 32 s))"
    "get_oid_hex_algop s 1 = Inr (map_option (\<lambda>h. \<lparr>oid_hash = pad_hash h, oid_algo = 1\<rparr>) (unhex 20 s))"
    using get_oid_hex_algop_ok [OF assms, of 2] get_oid_hex_algop_ok [OF assms, of 1] by (simp_all add: hash_algos_def)
  then show "\<exists>r. get_oid_hex_any s = Inr (if hex_prefix 64 s then 2 else if hex_prefix 40 s then 1 else 0, r)"
    using unhex_None [of 32 s] unhex_None [of 20 s]
    by (auto simp: get_oid_hex_any_def GIT_HASH_NALGOS_def numeral_2_eq_2 split: option.splits)
qed

theorem oid_hex_reader_witness:
  "\<exists>r. get_oid_hex_any (replicate 40 48 @ [0]) = Inr (1, r)"
proof -
  have "(0 :: byte) \<in> set (replicate 40 48 @ [0])" by simp
  from conjunct2 [OF oid_hex_reader [OF this]] show ?thesis
    by (auto simp: hex_prefix_def digit_of_def nth_append)
qed

end
