(* ===== verification/Git_Base85.thy ===== *)
theory Git_Base85
  imports Git_Compat
begin

unbundle bit_operations_syntax

section \<open>Base 85: base85.c\<close>

text \<open>
  The encoding of binary patches: four bytes are a 32-bit number in big-endian order, written as five
  digits.  The lookup table \<^verbatim>\<open>de85\<close>, which the code fills on first use, is a constant here.  A short
  last group is padded with zero bytes by the encoder and cut by the decoder, which knows the length.
\<close>

definition en85 :: "byte list" where
  "en85 = map of_char (''0123456789'' @ ''ABCDEFGHIJ'' @ ''KLMNOPQRST'' @ ''UVWXYZ'' @ ''abcdefghij'' @ ''klmnopqrst'' @
     ''uvwxyz'' @ ''!#$%&()*+-'' @ '';<=>?@^_`{'' @ ''|}~'')"

definition prep_base85 :: "nat list" where
  "prep_base85 = foldl (\<lambda>de85 (i, ch). de85[unat ch := i + 1]) (replicate 256 0) (enumerate 0 en85)"

definition de85 :: "byte \<Rightarrow> int" where
  "de85 ch = int (prep_base85 ! unat ch)"

text \<open>\<open>n\<close> rounds of the inner loop of \<^verbatim>\<open>decode_85()\<close>; None is the error return.\<close>

fun decode_digits :: "nat \<Rightarrow> byte list \<Rightarrow> u32 \<Rightarrow> (u32 \<times> byte list) option result" where
  "decode_digits 0 buffer acc = Inr (Some (acc, buffer))"
| "decode_digits (Suc n) buffer acc =
     rbind (rd buffer 0) (\<lambda>ch.
       let de = de85 ch - 1 in
       if de < 0 then Inr None
       else decode_digits n (drop 1 buffer) (acc * 85 + of_int de))"

definition decode_group :: "byte list \<Rightarrow> (u32 \<times> byte list) option result" where
  "decode_group buffer =
     rbind (decode_digits 4 buffer 0) (\<lambda>r.
       case r of
         None \<Rightarrow> Inr None
       | Some (acc, buffer) \<Rightarrow>
           rbind (rd buffer 0) (\<lambda>ch.
             let de = de85 ch - 1 in
             if de < 0 then Inr None
             else if 0xffffffff div 85 < acc \<or> 0xffffffff - of_int de < acc * 85 then Inr None
             else Inr (Some (acc * 85 + of_int de, drop 1 buffer))))"

fun put_bytes :: "nat \<Rightarrow> u32 \<Rightarrow> byte list" where
  "put_bytes 0 acc = []"
| "put_bytes (Suc cnt) acc = (let acc = push_bit 8 acc OR drop_bit 24 acc in ucast acc # put_bytes cnt acc)"

function decode_85 :: "byte list \<Rightarrow> nat \<Rightarrow> byte list option result" where
  "decode_85 buffer len =
     (if len = 0 then Inr (Some [])
      else
        rbind (decode_group buffer) (\<lambda>r.
          case r of
            None \<Rightarrow> Inr None
          | Some (acc, buffer) \<Rightarrow>
              let cnt = (if len < 4 then len else 4) in
              rbind (decode_85 buffer (len - cnt)) (\<lambda>r.
                Inr (map_option ((@) (put_bytes cnt acc)) r))))"
  by auto
termination
  by (relation "measure snd") auto

declare decode_85.simps [simp del]

text \<open>The bytes of one group; the second result is the data that is left.\<close>

fun get_bytes :: "nat \<Rightarrow> byte list \<Rightarrow> u32 \<Rightarrow> u32 \<times> byte list" where
  "get_bytes cnt [] acc = (acc, [])"
| "get_bytes cnt (ch # data) acc =
     (let acc = acc OR push_bit cnt (ucast ch) in
      if data = [] then (acc, []) else if cnt < 8 then (acc, data) else get_bytes (cnt - 8) data acc)"

fun put_digits :: "nat \<Rightarrow> u32 \<Rightarrow> byte list \<Rightarrow> byte list result" where
  "put_digits 0 acc buf = Inr buf"
| "put_digits (Suc cnt) acc buf =
     rbind (rd en85 (unat (acc mod 85))) (\<lambda>c. put_digits cnt (acc div 85) (c # buf))"

lemma get_bytes_length: "length (snd (get_bytes cnt data acc)) \<le> length data - 1"
  by (induction cnt data acc rule: get_bytes.induct) (auto simp: Let_def)

function encode_85 :: "byte list \<Rightarrow> byte list result" where
  "encode_85 data =
     (if data = [] then Inr [0]
      else
        let (acc, data) = get_bytes 24 data 0 in
        rbind (put_digits 5 acc []) (\<lambda>digits. rbind (encode_85 data) (\<lambda>buf. Inr (digits @ buf))))"
  by auto
termination
proof (relation "measure length")
  fix data :: "byte list" and p acc rest digits
  assume "data \<noteq> []" "p = get_bytes 24 data 0" "(acc, rest) = p"
  then show "(rest, data) \<in> measure length"
    using get_bytes_length [of 24 data 0] by (cases data) (auto simp: less_Suc_eq_le dest: sym)
qed simp

declare encode_85.simps [simp del]

subsection \<open>The alphabet\<close>

lemma length_en85: "length en85 = 85"
  by (simp add: en85_def)

lemma distinct_en85: "distinct en85"
  unfolding en85_def by simp

lemma prep_table:
  "distinct xs \<Longrightarrow> length t = 256 \<Longrightarrow>
   (\<forall>i < length xs. foldl (\<lambda>t (i, ch). t[unat ch := i + 1]) t (enumerate n xs) ! unat (xs ! i) = n + i + 1) \<and>
   (\<forall>ch. ch \<notin> set xs \<longrightarrow> foldl (\<lambda>t (i, ch). t[unat ch := i + 1]) t (enumerate n xs) ! unat ch = t ! unat (ch :: byte))"
proof (induction xs arbitrary: n t)
  case (Cons x xs)
  let ?t = "t[unat x := n + 1]"
  have x: "unat x < 256" using unat_less [of x] by simp
  have IH: "(\<forall>i < length xs. foldl (\<lambda>t (i, ch). t[unat ch := i + 1]) ?t (enumerate (Suc n) xs) ! unat (xs ! i) = Suc n + i + 1) \<and>
    (\<forall>ch. ch \<notin> set xs \<longrightarrow> foldl (\<lambda>t (i, ch). t[unat ch := i + 1]) ?t (enumerate (Suc n) xs) ! unat ch = ?t ! unat ch)"
    by (rule Cons.IH) (use Cons.prems in simp_all)
  have "unat x \<noteq> unat ch" if "ch \<noteq> x" for ch using that by (simp add: word_unat_eq_iff)
  with IH x Cons.prems show ?case by (auto simp: nth_Cons split: nat.splits)
qed simp

lemma de85_digit: "i < 85 \<Longrightarrow> de85 (en85 ! i) = int i + 1"
  using prep_table [OF distinct_en85, of "replicate 256 0" 0] by (simp add: de85_def prep_base85_def length_en85)

lemma de85_other: "ch \<notin> set en85 \<Longrightarrow> de85 ch = 0"
  using prep_table [OF distinct_en85, of "replicate 256 0" 0] unat_less [of ch] by (simp add: de85_def prep_base85_def)

subsection \<open>Groups of four bytes\<close>

definition word4 :: "byte \<Rightarrow> byte \<Rightarrow> byte \<Rightarrow> byte \<Rightarrow> u32" where
  "word4 a b c d = push_bit 24 (ucast a) OR push_bit 16 (ucast b) OR push_bit 8 (ucast c) OR ucast d"

lemma bit_word4:
  "bit (word4 a b c d) n \<longleftrightarrow>
     n < 8 \<and> bit d n \<or> 8 \<le> n \<and> n < 16 \<and> bit c (n - 8) \<or> 16 \<le> n \<and> n < 24 \<and> bit b (n - 16) \<or>
     24 \<le> n \<and> n < 32 \<and> bit a (n - 24)"
  using bit_imp_le_length [of a "n - 24"] bit_imp_le_length [of b "n - 16"] bit_imp_le_length [of c "n - 8"] bit_imp_le_length [of d n]
  by (auto simp: word4_def bit_simps)

lemma word4_rotate: "push_bit 8 (word4 a b c d) OR drop_bit 24 (word4 a b c d) = word4 b c d a"
proof (rule bit_eqI)
  fix n assume "possible_bit TYPE(u32) n"
  then have n: "n < 32" by simp
  have p: "bit (push_bit 8 (word4 a b c d)) n \<longleftrightarrow> 8 \<le> n \<and> bit (word4 a b c d) (n - 8)" using n by (auto simp: bit_push_bit_iff)
  have q: "bit (drop_bit 24 (word4 a b c d)) n \<longleftrightarrow> bit (word4 a b c d) (24 + n)" by (simp add: bit_drop_bit_eq)
  consider "n < 8" | "8 \<le> n" "n < 16" | "16 \<le> n" "n < 24" | "24 \<le> n" by linarith
  then show "bit (push_bit 8 (word4 a b c d) OR drop_bit 24 (word4 a b c d)) n = bit (word4 b c d a) n"
    unfolding bit_or_iff p q using n by cases (auto simp: bit_word4 less_diff_conv2 le_diff_conv2)
qed

lemma ucast_word4: "ucast (word4 a b c d) = d"
  by (rule bit_eqI) (auto simp: bit_ucast_iff bit_word4)

lemma put_bytes_Suc: "put_bytes (Suc k) (word4 a b c d) = a # put_bytes k (word4 b c d a)"
  by (simp only: put_bytes.simps Let_def word4_rotate ucast_word4)

lemma put_bytes_word4: "k \<le> 4 \<Longrightarrow> put_bytes k (word4 a b c d) = take k [a, b, c, d]"
proof -
  assume "k \<le> 4"
  then consider "k = 0" | "k = Suc 0" | "k = Suc (Suc 0)" | "k = Suc (Suc (Suc 0))" | "k = Suc (Suc (Suc (Suc 0)))"
    by linarith
  then show ?thesis by cases (simp_all only: put_bytes_Suc put_bytes.simps(1) take_Suc_Cons take_0)
qed

lemma word4_exists: "\<exists>a b c d. w = word4 a b c d"
proof (intro exI)
  show "w = word4 (ucast (drop_bit 24 w)) (ucast (drop_bit 16 w)) (ucast (drop_bit 8 w)) (ucast w)"
  proof (rule bit_eqI)
    fix n assume "possible_bit TYPE(u32) n"
    then consider "n < 8" | "8 \<le> n" "n < 16" | "16 \<le> n" "n < 24" | "24 \<le> n" "n < 32" by (simp, linarith)
    then show "bit w n = bit (word4 (ucast (drop_bit 24 w)) (ucast (drop_bit 16 w)) (ucast (drop_bit 8 w)) (ucast w)) n"
      by cases (simp_all add: bit_word4 bit_ucast_iff bit_drop_bit_eq less_diff_conv2)
  qed
qed

lemma get_bytes_group:
  "get_bytes 24 [a] 0 = (word4 a 0 0 0, [])" "get_bytes 24 [a, b] 0 = (word4 a b 0 0, [])"
  "get_bytes 24 [a, b, c] 0 = (word4 a b c 0, [])" "get_bytes 24 (a # b # c # d # rest) 0 = (word4 a b c d, rest)"
  by (simp_all add: word4_def or.assoc Let_def)

lemma get_bytes_data:
  assumes "data \<noteq> []"
  obtains a b c d where "get_bytes 24 data 0 = (word4 a b c d, drop 4 data)"
    and "take (length data) [a, b, c, d] = take 4 data"
proof -
  consider a where "data = [a]" | a b where "data = [a, b]" | a b c where "data = [a, b, c]"
    | a b c d rest where "data = a # b # c # d # rest"
    using assms by (metis neq_Nil_conv)
  then show thesis
  proof cases
    case 1 then show thesis using get_bytes_group(1) by (intro that) simp_all
  next
    case 2 then show thesis using get_bytes_group(2) by (intro that) simp_all
  next
    case 3 then show thesis using get_bytes_group(3) by (intro that) simp_all
  next
    case (4 a b c d rest) then show thesis using get_bytes_group(4) by (intro that [of a b c d]) simp_all
  qed
qed

subsection \<open>Groups of five digits\<close>

definition digits85 :: "nat \<Rightarrow> nat list" where
  "digits85 n = [n div 85 ^ 4, n div 85 ^ 3 mod 85, n div 85 ^ 2 mod 85, n div 85 mod 85, n mod 85]"

definition value85 :: "nat list \<Rightarrow> nat" where
  "value85 ds = foldl (\<lambda>acc d. acc * 85 + d) 0 ds"

lemma value_digits85: "value85 (digits85 n) = n"
proof -
  have step: "n div (m * 85) * 85 + n div m mod 85 = n div m" for m
    unfolding div_mult2_eq by (rule div_mult_mod_eq)
  have s: "n div 85 ^ 4 * 85 + n div 85 ^ 3 mod 85 = n div 85 ^ 3"
    "n div 85 ^ 3 * 85 + n div 85 ^ 2 mod 85 = n div 85 ^ 2"
    "n div 85 ^ 2 * 85 + n div 85 mod 85 = n div 85"
    using step [of "85 ^ 3"] step [of "85 ^ 2"] step [of 85] by simp_all
  show ?thesis
    unfolding value85_def digits85_def by (simp only: foldl.simps mult_0 add_0 s div_mult_mod_eq)
qed

lemma digits85_value:
  assumes "length ds = 5" and "list_all (\<lambda>d. d < 85) ds"
  shows "digits85 (value85 ds) = ds"
proof -
  obtain a b c d e where ds: "ds = [a, b, c, d, e]"
    using assms(1) by (auto simp: numeral_eq_Suc length_Suc_conv)
  have less: "a < 85" "b < 85" "c < 85" "d < 85" "e < 85" using assms(2) by (simp_all add: ds)
  define v where "v = value85 ds"
  have v: "v = (((a * 85 + b) * 85 + c) * 85 + d) * 85 + e" by (simp add: v_def ds value85_def)
  have gen: "(x * 85 + y) div 85 = x" "(x * 85 + y) mod 85 = y" if "y < 85" for x y :: nat using that by simp_all
  have 1: "v div 85 = ((a * 85 + b) * 85 + c) * 85 + d" "v mod 85 = e" unfolding v by (rule gen [OF less(5)])+
  have 2: "v div 85 ^ 2 = (a * 85 + b) * 85 + c" "v div 85 mod 85 = d"
    unfolding power2_eq_square div_mult2_eq 1 by (rule gen [OF less(4)])+
  have 3: "v div 85 ^ 3 = a * 85 + b" "v div 85 ^ 2 mod 85 = c"
  proof -
    have "v div 85 ^ 3 = v div 85 ^ 2 div 85" by (simp add: div_mult2_eq [symmetric])
    then show "v div 85 ^ 3 = a * 85 + b" "v div 85 ^ 2 mod 85 = c" unfolding 2 by (simp_all only: gen [OF less(3)])
  qed
  have 4: "v div 85 ^ 4 = a" "v div 85 ^ 3 mod 85 = b"
  proof -
    have "v div 85 ^ 4 = v div 85 ^ 3 div 85" by (simp add: div_mult2_eq [symmetric])
    then show "v div 85 ^ 4 = a" "v div 85 ^ 3 mod 85 = b" unfolding 3 by (simp_all only: gen [OF less(2)])
  qed
  have "digits85 v = [a, b, c, d, e]" unfolding digits85_def 1 2 3 4 by (simp only: gen [OF less(2)] gen [OF less(3)] gen [OF less(4)])
  then show ?thesis by (simp only: v_def ds)
qed

lemma digits85_less: "n < 2 ^ 32 \<Longrightarrow> list_all (\<lambda>d. d < 85) (digits85 n)"
  by (simp add: digits85_def div_less_iff_less_mult)

lemma unat_mod_div: "unat (acc mod 85 :: u32) = unat acc mod 85" "unat (acc div 85 :: u32) = unat acc div 85"
  by (simp_all add: unat_mod unat_div)

lemma put_digits_ok: "put_digits 5 acc [] = Inr (map ((!) en85) (digits85 (unat acc)))"
proof -
  let ?n = "unat acc"
  have step: "put_digits (Suc k) w buf = put_digits k (w div 85) (en85 ! (unat w mod 85) # buf)" for k w buf
    by (simp add: unat_mod_div length_en85)
  have small: "?n div 85 ^ 4 mod 85 = ?n div 85 ^ 4"
    using digits85_less [of ?n] unat_less [of acc] by (simp add: digits85_def)
  have pow: "?n div 85 div 85 = ?n div 85 ^ 2" "?n div 85 ^ 2 div 85 = ?n div 85 ^ 3"
    "?n div 85 ^ 3 div 85 = ?n div 85 ^ 4"
    by (simp_all add: div_mult2_eq [symmetric])
  have "put_digits 5 acc [] = put_digits (Suc (Suc (Suc (Suc (Suc 0))))) acc []" by (simp add: numeral_eq_Suc)
  also have "\<dots> = Inr (map ((!) en85) (digits85 ?n))"
    unfolding step put_digits.simps(1) unat_mod_div pow small digits85_def by simp
  finally show ?thesis .
qed

lemma decode_digits_ok:
  "list_all (\<lambda>d. d < 85) ds \<Longrightarrow>
   decode_digits (length ds) (map ((!) en85) ds @ rest) (of_nat n) = Inr (Some (of_nat (foldl (\<lambda>acc d. acc * 85 + d) n ds), rest))"
proof (induction ds arbitrary: n)
  case (Cons d ds)
  then show ?case using Cons.IH [of "n * 85 + d"] by (simp add: de85_digit)
qed simp

lemma en85_digits: "set cs \<subseteq> set en85 \<Longrightarrow> \<exists>ds. cs = map ((!) en85) ds \<and> list_all (\<lambda>d. d < 85) ds"
proof (induction cs)
  case (Cons c cs)
  then obtain ds i where "cs = map ((!) en85) ds" "list_all (\<lambda>d. d < 85) ds" "i < 85" "c = en85 ! i"
    by (auto simp: in_set_conv_nth length_en85)
  then show ?case by (intro exI [of _ "i # ds"]) simp
qed simp

lemma decode_digits_bad:
  "n \<le> length buffer \<Longrightarrow> \<not> set (take n buffer) \<subseteq> set en85 \<Longrightarrow> decode_digits n buffer acc = Inr None"
proof (induction n arbitrary: buffer acc)
  case (Suc n)
  then obtain ch buf where buffer: "buffer = ch # buf" by (cases buffer) auto
  show ?case
  proof (cases "ch \<in> set en85")
    case False
    then show ?thesis by (simp add: buffer de85_other)
  next
    case True
    then obtain i where "i < 85" "ch = en85 ! i" by (auto simp: in_set_conv_nth length_en85)
    then have "\<not> de85 ch - 1 < 0" by (simp add: de85_digit)
    moreover have "decode_digits n buf a = Inr None" for a using Suc True buffer by (intro Suc.IH) auto
    ultimately show ?thesis by (simp add: buffer Let_def)
  qed
qed simp

lemma decode_group_ok:
  assumes "length ds = 5" and "list_all (\<lambda>d. d < 85) ds"
  shows "decode_group (map ((!) en85) ds @ rest) =
    Inr (if value85 ds < 2 ^ 32 then Some (of_nat (value85 ds), rest) else None)"
proof -
  obtain ds4 d where ds: "ds = ds4 @ [d]" "length ds4 = 4" using assms(1) by (cases ds rule: rev_exhaust) auto
  define n where "n = value85 ds4"
  have d: "d < 85" and all: "list_all (\<lambda>d. d < 85) ds4" using assms(2) ds(1) by auto
  have val: "value85 ds = n * 85 + d" by (simp add: ds(1) n_def value85_def)
  have four: "decode_digits 4 (map ((!) en85) ds @ rest) 0 = Inr (Some (of_nat n, en85 ! d # rest))"
    using decode_digits_ok [OF all, of "en85 ! d # rest" 0] ds(2) by (simp add: ds(1) n_def value85_def)
  have n: "n < 85 ^ 4"
  proof -
    obtain a b c e where "ds4 = [a, b, c, e]" using ds(2) by (auto simp: numeral_eq_Suc length_Suc_conv)
    then show ?thesis using all by (simp add: n_def value85_def)
  qed
  then have un: "unat (of_nat n :: u32) = n" by (simp add: unat_of_nat take_bit_nat_eq_self)
  have ud: "unat (of_nat d :: u32) = d" using d by (simp add: unat_of_nat take_bit_nat_eq_self)
  have 1: "(0xffffffff div 85 :: u32) < of_nat n \<longleftrightarrow> 0xffffffff div 85 < n"
    unfolding word_less_nat_alt un by (simp add: unat_div)
  have 2: "(0xffffffff - of_nat d :: u32) < of_nat n * 85 \<longleftrightarrow> 0xffffffff - d < n * 85" if "n \<le> 0xffffffff div 85"
  proof -
    have "unat (0xffffffff - of_nat d :: u32) = 0xffffffff - d" using d ud by (subst unat_sub) (simp_all add: word_le_nat_alt)
    moreover have "unat (of_nat n * 85 :: u32) = n * 85" using that un by (simp add: unat_word_ariths)
    ultimately show ?thesis by (simp add: word_less_nat_alt)
  qed
  have bad: "(0xffffffff div 85 :: u32) < of_nat n \<or> (0xffffffff - of_nat d :: u32) < of_nat n * 85 \<longleftrightarrow> \<not> value85 ds < 2 ^ 32"
    using 1 2 d by (cases "n \<le> 0xffffffff div 85") (auto simp: val)
  have de: "de85 (en85 ! d) = int d + 1" using d by (rule de85_digit)
  have "(of_nat n * 85 + of_nat d :: u32) = of_nat (value85 ds)" by (simp add: val)
  then show ?thesis
    unfolding decode_group_def four using bad by (simp add: de Let_def)
qed

lemma decode_group_bad:
  assumes "5 \<le> length buffer" and "\<not> set (take 5 buffer) \<subseteq> set en85"
  shows "decode_group buffer = Inr None"
proof (cases "set (take 4 buffer) \<subseteq> set en85")
  case False
  then show ?thesis using decode_digits_bad [of 4 buffer 0] assms(1) by (simp add: decode_group_def)
next
  case True
  have split: "take 5 buffer = take 4 buffer @ [buffer ! 4]"
    using take_Suc_conv_app_nth [of 4 buffer] assms(1) by simp
  then have "buffer ! 4 \<notin> set en85" using True assms(2) by auto
  have "\<exists>ds. take 4 buffer = map ((!) en85) ds \<and> list_all (\<lambda>d. d < 85) ds" using True by (rule en85_digits)
  then obtain ds where ds: "take 4 buffer = map ((!) en85) ds" "list_all (\<lambda>d. d < 85) ds" by blast
  have len: "length ds = 4" using arg_cong [OF ds(1), of length] assms(1) by simp
  have "buffer = map ((!) en85) ds @ drop 4 buffer" using ds(1) by (metis append_take_drop_id)
  then have "decode_digits 4 buffer 0 = Inr (Some (of_nat (value85 ds), drop 4 buffer))"
    using decode_digits_ok [OF ds(2), of "drop 4 buffer" 0] len by (simp add: value85_def)
  then show ?thesis
    using \<open>buffer ! 4 \<notin> set en85\<close> assms(1) by (simp add: decode_group_def de85_other)
qed

subsection \<open>Whole buffers\<close>

lemma group_count:
  assumes "0 < (n :: nat)"
  shows "(n + 3) div 4 = Suc ((n - 4 + 3) div 4)"
proof (cases "4 \<le> n")
  case True
  then obtain m where "n = m + 4" by (metis le_add_diff_inverse2)
  then have "n + 3 = (m + 3) + 4" "n - 4 + 3 = m + 3" by simp_all
  then show ?thesis by simp
next
  case False
  then have "n = 1 \<or> n = 2 \<or> n = 3" using assms by linarith
  then show ?thesis by auto
qed

lemma encode_85_step:
  assumes "data \<noteq> []"
  obtains a b c d where "take (length data) [a, b, c, d] = take 4 data"
    and "encode_85 data = rbind (encode_85 (drop 4 data)) (\<lambda>buf. Inr (map ((!) en85) (digits85 (unat (word4 a b c d))) @ buf))"
proof -
  obtain a b c d where "get_bytes 24 data 0 = (word4 a b c d, drop 4 data)" "take (length data) [a, b, c, d] = take 4 data"
    using get_bytes_data [OF assms] by blast
  with assms show thesis by (intro that) (simp_all add: encode_85.simps [of data] put_digits_ok)
qed

lemma decode_85_step:
  assumes "0 < len" and "decode_group buffer = Inr (Some (word4 a b c d, rest))"
  shows "decode_85 buffer len = rbind (decode_85 rest (len - 4)) (\<lambda>r. Inr (map_option ((@) (take len [a, b, c, d])) r))"
proof -
  let ?cnt = "if len < 4 then len else 4"
  have "put_bytes ?cnt (word4 a b c d) = take len [a, b, c, d]" by (simp add: put_bytes_word4)
  moreover have "len - ?cnt = len - 4" by simp
  ultimately show ?thesis using assms by (simp add: decode_85.simps [of buffer len] Let_def)
qed

lemma digits85_unat: "list_all (\<lambda>d. d < 85) (digits85 (unat (w :: u32)))" "length (digits85 n) = 5"
  using digits85_less [of "unat w"] unat_less [of w] by (simp_all add: digits85_def)

lemma decode_group_encoded: "decode_group (map ((!) en85) (digits85 (unat w)) @ rest) = Inr (Some (w, rest))"
  using decode_group_ok [OF digits85_unat(2) digits85_unat(1) [of w], of rest] unat_less [of w]
  by (simp add: value_digits85)

lemma encode_decode:
  "\<exists>enc. encode_85 data = Inr (enc @ [0]) \<and> length enc = 5 * ((length data + 3) div 4) \<and>
    (\<forall>rest. decode_85 (enc @ rest) (length data) = Inr (Some data))"
proof (induction data rule: length_induct)
  case (1 data)
  show ?case
  proof (cases "data = []")
    case True
    then show ?thesis by (simp add: encode_85.simps [of "[]"] decode_85.simps [of _ 0])
  next
    case False
    obtain a b c d where abcd: "take (length data) [a, b, c, d] = take 4 data"
      and step: "encode_85 data = rbind (encode_85 (drop 4 data)) (\<lambda>buf. Inr (map ((!) en85) (digits85 (unat (word4 a b c d))) @ buf))"
      using encode_85_step [OF False] by blast
    let ?g = "map ((!) en85) (digits85 (unat (word4 a b c d)))"
    have "length (drop 4 data) < length data" using False by simp
    then obtain enc where enc: "encode_85 (drop 4 data) = Inr (enc @ [0])" "length enc = 5 * ((length data - 4 + 3) div 4)"
      "\<And>rest. decode_85 (enc @ rest) (length data - 4) = Inr (Some (drop 4 data))"
      using 1 [rule_format, of "drop 4 data"] by auto
    have len: "0 < length data" using False by simp
    have "decode_85 ((?g @ enc) @ rest) (length data) = Inr (Some data)" for rest
      using decode_85_step [OF len decode_group_encoded [of "word4 a b c d" "enc @ rest"]] enc(3) [of rest] abcd by simp
    moreover have "length (?g @ enc) = 5 * ((length data + 3) div 4)"
      using enc(2) digits85_unat(2) group_count [OF len] by simp
    ultimately show ?thesis using step enc(1) by (intro exI [of _ "?g @ enc"]) simp
  qed
qed

text \<open>The groups an accepted buffer encodes: the decoded bytes and, when their number is no multiple of four, the
  bytes of the last group that are not asked for.\<close>

abbreviation encodes :: "byte list \<Rightarrow> nat \<Rightarrow> byte list \<Rightarrow> byte list \<Rightarrow> bool" where
  "encodes buffer len out pad \<equiv> length out = len \<and> length (out @ pad) = 4 * ((len + 3) div 4) \<and>
     encode_85 (out @ pad) = Inr (take (5 * ((len + 3) div 4)) buffer @ [0])"

lemma encodes_step:
  assumes "0 < len" and "take 5 buffer = map ((!) en85) ds" and "length ds = 5" and "list_all (\<lambda>d. d < 85) ds"
    and "unat (word4 a b c d) = value85 ds" and "encodes (drop 5 buffer) (len - 4) out pad"
  shows "\<exists>pad. encodes buffer len (take len [a, b, c, d] @ out) pad"
proof -
  let ?k = "(len - 4 + 3) div 4"
  have k: "(len + 3) div 4 = Suc ?k" using group_count [OF assms(1)] .
  have out: "take len [a, b, c, d] @ out @ (if len < 4 then drop len [a, b, c, d] else pad) = [a, b, c, d] @ out @ pad"
  proof (cases "len < 4")
    case True
    then have "?k = 0" by simp
    then have "out = []" "pad = []" using assms(6) True by simp_all
    then show ?thesis using True by simp
  qed simp
  have "take (5 * Suc ?k) buffer = take 5 buffer @ take (5 * ?k) (drop 5 buffer)"
    using take_add [of 5 "5 * ?k" buffer] by (simp add: add.commute)
  moreover have "encode_85 ([a, b, c, d] @ out @ pad) = Inr (take 5 buffer @ take (5 * ?k) (drop 5 buffer) @ [0])"
    using assms(6) digits85_value [OF assms(3,4)] assms(2,5)
    by (simp add: encode_85.simps [of "a # b # c # d # out @ pad"] get_bytes_group(4) put_digits_ok del: get_bytes.simps)
  moreover have "length ([a, b, c, d] @ out @ pad) = 4 * Suc ?k" using assms(6) by simp
  moreover have "length (take len [a, b, c, d] @ out) = len" using assms(1,6) by auto
  ultimately show ?thesis
    unfolding k by (intro exI [of _ "if len < 4 then drop len [a, b, c, d] else pad"]) (simp only: out append_assoc)
qed

lemma decode_85_sound:
  "5 * ((len + 3) div 4) \<le> length buffer \<Longrightarrow>
   \<exists>r. decode_85 buffer len = Inr r \<and> (\<forall>out. r = Some out \<longrightarrow> (\<exists>pad. encodes buffer len out pad))"
proof (induction len arbitrary: buffer rule: less_induct)
  case (less len)
  show ?case
  proof (cases "len = 0")
    case True
    then show ?thesis by (simp add: decode_85.simps [of _ 0] encode_85.simps [of "[]"])
  next
    case False
    have "1 \<le> (len + 3) div 4" using False by (simp add: Suc_le_eq div_greater_zero_iff)
    then have five: "5 \<le> length buffer" using less.prems by linarith
    show ?thesis
    proof (cases "set (take 5 buffer) \<subseteq> set en85")
      case bad: False
      then show ?thesis using decode_group_bad [OF five bad] False by (simp add: decode_85.simps [of buffer len])
    next
      case True
      then obtain ds where ds: "take 5 buffer = map ((!) en85) ds" "list_all (\<lambda>d. d < 85) ds" using en85_digits by blast
      have len5: "length ds = 5" using arg_cong [OF ds(1), of length] five by simp
      have buf: "buffer = map ((!) en85) ds @ drop 5 buffer" using ds(1) by (metis append_take_drop_id)
      have grp: "decode_group buffer = Inr (if value85 ds < 2 ^ 32 then Some (of_nat (value85 ds), drop 5 buffer) else None)"
        using decode_group_ok [OF len5 ds(2), of "drop 5 buffer"] buf by simp
      show ?thesis
      proof (cases "value85 ds < 2 ^ 32")
        case big: False
        then show ?thesis using grp False by (simp add: decode_85.simps [of buffer len])
      next
        case small: True
        obtain a b c d where w: "of_nat (value85 ds) = word4 a b c d" using word4_exists by blast
        have uw: "unat (word4 a b c d) = value85 ds" using small by (simp add: w [symmetric] unat_of_nat take_bit_nat_eq_self)
        have step: "decode_85 buffer len =
            rbind (decode_85 (drop 5 buffer) (len - 4)) (\<lambda>r. Inr (map_option ((@) (take len [a, b, c, d])) r))"
          using decode_85_step [of len buffer a b c d "drop 5 buffer"] grp small False w by simp
        have "5 * ((len - 4 + 3) div 4) \<le> length (drop 5 buffer)" using less.prems group_count [of len] False by simp
        then obtain r where r: "decode_85 (drop 5 buffer) (len - 4) = Inr r"
          "\<And>out. r = Some out \<Longrightarrow> \<exists>pad. encodes (drop 5 buffer) (len - 4) out pad"
          using less.IH [of "len - 4" "drop 5 buffer"] False by auto
        have "\<exists>pad. encodes buffer len out pad" if res: "map_option ((@) (take len [a, b, c, d])) r = Some out" for out
        proof -
          obtain out' where o: "r = Some out'" "out = take len [a, b, c, d] @ out'"
            using res by (auto simp: map_option_case split: option.splits)
          obtain pad where pad: "encodes (drop 5 buffer) (len - 4) out' pad" using r(2) [OF o(1)] by blast
          show ?thesis unfolding o(2) by (rule encodes_step [OF _ ds(1) len5 ds(2) uw pad]) (use False in simp)
        qed
        moreover have "decode_85 buffer len = Inr (map_option ((@) (take len [a, b, c, d])) r)" using step r(1) by simp
        ultimately show ?thesis by blast
      qed
    qed
  qed
qed

lemma decode_85_take:
  "decode_85 buffer n = Inr (Some out) \<Longrightarrow> (n + 3) div 4 = (len + 3) div 4 \<Longrightarrow> len \<le> n \<Longrightarrow>
   decode_85 buffer len = Inr (Some (take len out))"
proof (induction n arbitrary: buffer len out rule: less_induct)
  case (less n)
  show ?case
  proof (cases "len = 0")
    case True
    then show ?thesis by (simp add: decode_85.simps [of _ 0])
  next
    case False
    then have pos: "0 < n" "0 < len" using less.prems(3) by simp_all
    obtain w rest where grp: "decode_group buffer = Inr (Some (w, rest))"
      using less.prems(1) pos by (auto simp: decode_85.simps [of buffer n] rbind_eq_Inr split: option.splits)
    obtain a b c d where w: "w = word4 a b c d" using word4_exists by blast
    note step = decode_85_step [OF _ grp [unfolded w]]
    obtain out' where o: "decode_85 rest (n - 4) = Inr (Some out')" "out = take n [a, b, c, d] @ out'"
      using less.prems(1) step [OF pos(1)] by (auto simp: rbind_eq_Inr)
    have "decode_85 rest (len - 4) = Inr (Some (take (len - 4) out'))"
      using less.prems(2,3) group_count [OF pos(1)] group_count [OF pos(2)] pos by (intro less.IH [OF _ o(1)]) (simp_all add: diff_le_mono)
    moreover have "take len (take n [a, b, c, d] @ out') = take len [a, b, c, d] @ take (len - 4) out'"
      using less.prems(3) take_append [of len "[a, b, c, d]" out'] by (cases "n < 4") (simp_all add: min_absorb1 numeral_eq_Suc)
    ultimately show ?thesis using step [OF pos(2)] o(2) by simp
  qed
qed

lemma decode_85_complete:
  assumes "encodes buffer len out pad"
  shows "decode_85 buffer len = Inr (Some out)"
proof -
  let ?k = "(len + 3) div 4"
  obtain enc where enc: "encode_85 (out @ pad) = Inr (enc @ [0])"
    "\<And>rest. decode_85 (enc @ rest) (length (out @ pad)) = Inr (Some (out @ pad))"
    using encode_decode [of "out @ pad"] by blast
  have "enc = take (5 * ?k) buffer" using enc(1) assms by simp
  then have "decode_85 buffer (4 * ?k) = Inr (Some (out @ pad))"
    using enc(2) [of "drop (5 * ?k) buffer"] assms by (simp del: length_append)
  moreover have "(4 * ?k + 3) div 4 = ?k" by simp
  moreover have "len \<le> 4 * ?k" using assms by auto
  ultimately have "decode_85 buffer len = Inr (Some (take len (out @ pad)))" by (rule decode_85_take)
  then show ?thesis using assms by simp
qed

subsection \<open>Properties\<close>

text \<open>C24: whatever the bytes and their number, decoding an encoded buffer gives them back, and every group of up
  to four bytes takes five digits.\<close>

theorem base85_roundtrip:
  "\<exists>enc. encode_85 data = Inr (enc @ [0]) \<and> length enc = 5 * ((length data + 3) div 4) \<and>
    (\<forall>rest. decode_85 (enc @ rest) (length data) = Inr (Some data))"
  by (rule encode_decode)

text \<open>C25: on arbitrary bytes the decoder reads only the five bytes of each group it needs, and accepts the buffer
  with the result \<open>out\<close> exactly when these bytes are the encoding of \<open>out\<close> followed by the bytes that fill the
  last group up to four.  For a multiple of four bytes nothing is filled up and an accepted buffer is the
  very encoding of the result; foreign characters and groups of \<open>2\<^sup>3\<^sup>2\<close> and above are never accepted.\<close>

theorem base85_decode_canonical:
  assumes "5 * ((len + 3) div 4) \<le> length buffer"
  shows "(\<exists>r. decode_85 buffer len = Inr r) \<and>
    (decode_85 buffer len = Inr (Some out) \<longleftrightarrow>
      (\<exists>pad. length out = len \<and> length (out @ pad) = 4 * ((len + 3) div 4) \<and>
         encode_85 (out @ pad) = Inr (take (5 * ((len + 3) div 4)) buffer @ [0])))"
proof -
  obtain r where r: "decode_85 buffer len = Inr r" "\<forall>out. r = Some out \<longrightarrow> (\<exists>pad. encodes buffer len out pad)"
    using decode_85_sound [OF assms] by blast
  then have "decode_85 buffer len = Inr (Some out) \<longleftrightarrow> (\<exists>pad. encodes buffer len out pad)"
    using decode_85_complete [where out = out and len = len and buffer = buffer] by (metis sum.inject(2))
  with r(1) show ?thesis by blast
qed

theorem base85_decode_canonical_witness:
  "5 * ((1 + 3) div 4) \<le> length [48, 48, 48, 48, 49 :: byte] \<and>
   decode_85 [48, 48, 48, 48, 49] 1 = Inr (Some [0]) \<and> decode_85 [48, 48, 48, 48, 49] 1 \<noteq> Inr (Some [1])"
proof -
  have n: "5 * ((1 + 3) div 4) \<le> length [48, 48, 48, 48, 49 :: byte]" by simp
  have "encode_85 ([0] @ [0, 0, 1]) = Inr ([48, 48, 48, 48, 49] @ [0])"
    by (simp add: encode_85.simps [of "_ # _"] encode_85.simps [of "[]"] get_bytes_group(4) put_digits_ok word4_def digits85_def
        en85_def del: get_bytes.simps)
  then have d: "decode_85 [48, 48, 48, 48, 49] 1 = Inr (Some [0])"
    by (intro iffD2 [OF conjunct2 [OF base85_decode_canonical [OF n, of "[0]"]]] exI [of _ "[0, 0, 1]"]) simp
  show ?thesis using n unfolding d by simp
qed

end
