(* ===== verification/Git_Ctype.thy ===== *)
theory Git_Ctype
  imports Git_Compat
begin

unbundle bit_operations_syntax

section \<open>Character classes and C strings: ctype.c, sane-ctype.h, git-compat-util.h\<close>

text \<open>
  The locale independent character table with the tests that read it, and the prefix and suffix
  helpers of \<^verbatim>\<open>git-compat-util.h\<close> and \<^verbatim>\<open>strbuf.c\<close>.  A value of type \<open>cstring\<close> is a C string that
  the code only reads up to its terminator: the list of the bytes before the NUL.  Reading the byte
  at the pointer is \<open>chr\<close>, which is the NUL at the end.
\<close>

type_synonym cstring = "byte list"

definition GIT_SPACE :: byte where "GIT_SPACE = 0x01"
definition GIT_DIGIT :: byte where "GIT_DIGIT = 0x02"
definition GIT_ALPHA :: byte where "GIT_ALPHA = 0x04"
definition GIT_GLOB_SPECIAL :: byte where "GIT_GLOB_SPECIAL = 0x08"
definition GIT_REGEX_SPECIAL :: byte where "GIT_REGEX_SPECIAL = 0x10"
definition GIT_PATHSPEC_MAGIC :: byte where "GIT_PATHSPEC_MAGIC = 0x20"
definition GIT_CNTRL :: byte where "GIT_CNTRL = 0x40"
definition GIT_PUNCT :: byte where "GIT_PUNCT = 0x80"

lemmas ctype_masks = GIT_SPACE_def GIT_DIGIT_def GIT_ALPHA_def GIT_GLOB_SPECIAL_def
  GIT_REGEX_SPECIAL_def GIT_PATHSPEC_MAGIC_def GIT_CNTRL_def GIT_PUNCT_def

definition sane_ctype :: "byte list" where
  "sane_ctype =
     (let S = GIT_SPACE; A = GIT_ALPHA; D = GIT_DIGIT; G = GIT_GLOB_SPECIAL; R = GIT_REGEX_SPECIAL;
          P = GIT_PATHSPEC_MAGIC; X = GIT_CNTRL; U = GIT_PUNCT; Z = GIT_CNTRL OR GIT_SPACE in
      [X, X, X, X, X, X, X, X, X, Z, Z, X, X, Z, X, X,
       X, X, X, X, X, X, X, X, X, X, X, X, X, X, X, X,
       S, P, P, P, R, P, P, P, R, R, G, R, P, P, R, P,
       D, D, D, D, D, D, D, D, D, D, P, P, P, P, P, G,
       P, A, A, A, A, A, A, A, A, A, A, A, A, A, A, A,
       A, A, A, A, A, A, A, A, A, A, A, G, G, U, R, P,
       P, A, A, A, A, A, A, A, A, A, A, A, A, A, A, A,
       A, A, A, A, A, A, A, A, A, A, A, R, R, U, P, X] @ replicate 128 0)"

definition sane_istest :: "byte \<Rightarrow> byte \<Rightarrow> bool" where
  "sane_istest x msk = ((sane_ctype ! unat x) AND msk \<noteq> 0)"

definition isspace :: "byte \<Rightarrow> bool" where "isspace x = sane_istest x GIT_SPACE"
definition isdigit :: "byte \<Rightarrow> bool" where "isdigit x = sane_istest x GIT_DIGIT"
definition isalpha :: "byte \<Rightarrow> bool" where "isalpha x = sane_istest x GIT_ALPHA"
definition isalnum :: "byte \<Rightarrow> bool" where "isalnum x = sane_istest x (GIT_ALPHA OR GIT_DIGIT)"
definition is_glob_special :: "byte \<Rightarrow> bool" where "is_glob_special x = sane_istest x GIT_GLOB_SPECIAL"
definition is_regex_special :: "byte \<Rightarrow> bool" where
  "is_regex_special x = sane_istest x (GIT_GLOB_SPECIAL OR GIT_REGEX_SPECIAL)"
definition iscntrl :: "byte \<Rightarrow> bool" where "iscntrl x = sane_istest x GIT_CNTRL"
definition ispunct :: "byte \<Rightarrow> bool" where
  "ispunct x =
     sane_istest x (GIT_PUNCT OR GIT_REGEX_SPECIAL OR GIT_GLOB_SPECIAL OR GIT_PATHSPEC_MAGIC)"
definition isascii :: "byte \<Rightarrow> bool" where "isascii x = (x AND NOT 0x7f = 0)"
definition isprint :: "byte \<Rightarrow> bool" where "isprint x = (x \<ge> 0x20 \<and> x \<le> 0x7e)"

definition sane_case :: "byte \<Rightarrow> byte \<Rightarrow> byte" where
  "sane_case x high = (if sane_istest x GIT_ALPHA then (x AND NOT 0x20) OR high else x)"

definition sane_iscase :: "byte \<Rightarrow> bool \<Rightarrow> bool" where
  "sane_iscase x is_lower =
     (if \<not> sane_istest x GIT_ALPHA then False
      else if is_lower then x AND 0x20 \<noteq> 0 else x AND 0x20 = 0)"

definition tolower :: "byte \<Rightarrow> byte" where "tolower x = sane_case x 0x20"
definition toupper :: "byte \<Rightarrow> byte" where "toupper x = sane_case x 0"
definition islower :: "byte \<Rightarrow> bool" where "islower x = sane_iscase x True"
definition isupper :: "byte \<Rightarrow> bool" where "isupper x = sane_iscase x False"

definition git_is_dir_sep :: "byte \<Rightarrow> bool" where "git_is_dir_sep c = (c = 0x2f)"

definition chr :: "cstring \<Rightarrow> byte" where
  "chr s = (case s of [] \<Rightarrow> 0 | c # _ \<Rightarrow> c)"

text \<open>The string at a position of a block.\<close>

definition cstr_at :: "byte list \<Rightarrow> nat \<Rightarrow> cstring" where
  "cstr_at mem i = takeWhile (\<lambda>c. c \<noteq> 0) (drop i mem)"

fun starts_with :: "cstring \<Rightarrow> cstring \<Rightarrow> bool" where
  "starts_with str [] = True"
| "starts_with str (p # prefix) = (if chr str \<noteq> p then False else starts_with (tl str) prefix)"

fun istarts_with :: "cstring \<Rightarrow> cstring \<Rightarrow> bool" where
  "istarts_with str [] = True"
| "istarts_with str (p # prefix) =
     (if tolower (chr str) \<noteq> tolower p then False else istarts_with (tl str) prefix)"

fun starts_with_mem :: "byte list \<Rightarrow> cstring \<Rightarrow> bool" where
  "starts_with_mem str [] = True"
| "starts_with_mem str (p # prefix) =
     (case str of [] \<Rightarrow> False | c # cs \<Rightarrow> if c \<noteq> p then False else starts_with_mem cs prefix)"

fun skip_prefix :: "cstring \<Rightarrow> cstring \<Rightarrow> cstring option" where
  "skip_prefix str [] = Some str"
| "skip_prefix str (p # prefix) = (if chr str = p then skip_prefix (tl str) prefix else None)"

fun skip_iprefix :: "cstring \<Rightarrow> cstring \<Rightarrow> cstring option" where
  "skip_iprefix str [] = Some str"
| "skip_iprefix str (p # prefix) =
     (if tolower (chr str) = tolower p then skip_iprefix (tl str) prefix else None)"

definition skip_prefix_mem :: "byte list \<Rightarrow> cstring \<Rightarrow> byte list option" where
  "skip_prefix_mem buf prefix =
     (let prefix_len = length prefix in
      if prefix_len \<le> length buf \<and> take prefix_len buf = prefix then Some (drop prefix_len buf) else None)"

text \<open>\<^verbatim>\<open>strip_suffix_mem()\<close> and \<^verbatim>\<open>strip_suffix()\<close>: the shortened length.\<close>

definition strip_suffix_mem :: "byte list \<Rightarrow> nat \<Rightarrow> cstring \<Rightarrow> nat option" where
  "strip_suffix_mem buf len suffix =
     (let suflen = length suffix in
      if len < suflen \<or> take suflen (drop (len - suflen) buf) \<noteq> suffix then None else Some (len - suflen))"

definition strip_suffix :: "cstring \<Rightarrow> cstring \<Rightarrow> nat option" where
  "strip_suffix str suffix = strip_suffix_mem str (length str) suffix"

definition ends_with :: "cstring \<Rightarrow> cstring \<Rightarrow> bool" where
  "ends_with str suffix = (strip_suffix str suffix \<noteq> None)"

text \<open>\<^verbatim>\<open>*arg\<close> is the second component; it is \<open>def\<close> when the option has no argument.\<close>

definition skip_to_optional_arg_default :: "cstring \<Rightarrow> cstring \<Rightarrow> cstring \<Rightarrow> cstring option" where
  "skip_to_optional_arg_default str prefix def =
     (case skip_prefix str prefix of
        None \<Rightarrow> None
      | Some p \<Rightarrow> if chr p = 0 then Some def else if chr p \<noteq> 0x3d then None else Some (tl p))"

definition skip_to_optional_arg :: "cstring \<Rightarrow> cstring \<Rightarrow> cstring option" where
  "skip_to_optional_arg str prefix = skip_to_optional_arg_default str prefix []"

subsection \<open>The classes, byte by byte\<close>

lemma length_sane_ctype: "length sane_ctype = 256"
  by (simp add: sane_ctype_def Let_def)

text \<open>A statement about every byte and its table entry is checked at the 256 entries.\<close>

primrec byte_seq :: "nat \<Rightarrow> byte \<Rightarrow> byte list" where
  "byte_seq 0 c = []"
| "byte_seq (Suc n) c = c # byte_seq n (c + 1)"

lemma byte_seq_props:
  "length (byte_seq n c) = n" "i < n \<Longrightarrow> byte_seq n c ! i = c + word_of_nat i"
  by (induction n arbitrary: c i) (auto simp: nth_Cons')

lemma byte_table_allI:
  assumes "length tab = 256" "list_all (\<lambda>(c, t). P c t) (zip (byte_seq 256 0) tab)"
  shows "P c (tab ! unat c)"
proof -
  have c: "unat c < 256" using unat_less [of c] by simp
  then have "zip (byte_seq 256 0) tab ! unat c = (c, tab ! unat c)"
    by (simp add: byte_seq_props assms(1))
  moreover have "unat c < length (zip (byte_seq 256 0) tab)"
    using c by (simp add: byte_seq_props assms(1))
  ultimately show ?thesis using assms(2) by (metis (no_types, lifting) list_all_length case_prodD)
qed

lemmas table_bytesI = byte_table_allI [OF length_sane_ctype]

lemmas ctype_defs = isspace_def isdigit_def isalpha_def isalnum_def iscntrl_def ispunct_def
  isascii_def isprint_def tolower_def toupper_def islower_def isupper_def sane_case_def
  sane_iscase_def sane_istest_def

lemma isspace_iff: "isspace c \<longleftrightarrow> c \<in> {9, 10, 13, 32}"
  unfolding ctype_defs by (rule table_bytesI) code_simp

lemma isdigit_iff: "isdigit c \<longleftrightarrow> 0x30 \<le> c \<and> c \<le> 0x39"
  unfolding ctype_defs by (rule table_bytesI) code_simp

lemma isalpha_iff: "isalpha c \<longleftrightarrow> 0x41 \<le> c \<and> c \<le> 0x5a \<or> 0x61 \<le> c \<and> c \<le> 0x7a"
  unfolding ctype_defs by (rule table_bytesI) code_simp

lemma isalnum_iff: "isalnum c \<longleftrightarrow> isalpha c \<or> isdigit c"
  unfolding ctype_defs by (rule table_bytesI) code_simp

lemma ispunct_iff: "ispunct c \<longleftrightarrow> isprint c \<and> \<not> isalnum c \<and> c \<noteq> 0x20"
  unfolding ctype_defs by (rule table_bytesI) code_simp

lemma tolower_iff: "tolower c = (if 0x41 \<le> c \<and> c \<le> 0x5a then c + 0x20 else c)"
  unfolding ctype_defs by (rule table_bytesI) code_simp

lemma toupper_iff: "toupper c = (if 0x61 \<le> c \<and> c \<le> 0x7a then c - 0x20 else c)"
  unfolding ctype_defs by (rule table_bytesI) code_simp

lemma isupper_iff: "isupper c \<longleftrightarrow> 0x41 \<le> c \<and> c \<le> 0x5a"
  unfolding ctype_defs by (rule table_bytesI) code_simp

lemma islower_iff: "islower c \<longleftrightarrow> 0x61 \<le> c \<and> c \<le> 0x7a"
  unfolding ctype_defs by (rule table_bytesI) code_simp

lemma iscntrl_iff: "iscntrl c \<longleftrightarrow> c < 0x20 \<or> c = 0x7f"
  unfolding ctype_defs by (rule table_bytesI) code_simp

lemma isascii_iff: "isascii c \<longleftrightarrow> c < 0x80"
  unfolding isascii_def by (rule table_bytesI) code_simp

text \<open>The character table of \<^verbatim>\<open>ctype.c\<close> gives every test its ASCII meaning: space is tab, newline,
  carriage return and blank; digits, upper and lower case letters are their ranges; punctuation is
  every other printing character; control characters are those below the blank and DEL; no test
  accepts a byte with the high bit set; and changing case moves exactly the letters by 32.\<close>

lemma sane_ctype_classes:
  "(isspace c \<longleftrightarrow> c \<in> {0x09, 0x0a, 0x0d, 0x20}) \<and>
   (isdigit c \<longleftrightarrow> 0x30 \<le> c \<and> c \<le> 0x39) \<and>
   (isupper c \<longleftrightarrow> 0x41 \<le> c \<and> c \<le> 0x5a) \<and>
   (islower c \<longleftrightarrow> 0x61 \<le> c \<and> c \<le> 0x7a) \<and>
   (isalpha c \<longleftrightarrow> isupper c \<or> islower c) \<and>
   (isalnum c \<longleftrightarrow> isalpha c \<or> isdigit c) \<and>
   (ispunct c \<longleftrightarrow> isprint c \<and> \<not> isalnum c \<and> c \<noteq> 0x20) \<and>
   (iscntrl c \<longleftrightarrow> c < 0x20 \<or> c = 0x7f) \<and>
   (isascii c \<longleftrightarrow> c < 0x80) \<and>
   tolower c = (if isupper c then c + 0x20 else c) \<and>
   toupper c = (if islower c then c - 0x20 else c)"
  by (simp only: isspace_iff isdigit_iff isupper_iff islower_iff isalpha_iff isalnum_iff ispunct_iff
      iscntrl_iff isascii_iff tolower_iff toupper_iff)

subsection \<open>Prefixes and suffixes\<close>

definition cstring_ok :: "cstring \<Rightarrow> bool" where
  "cstring_ok s \<longleftrightarrow> 0 \<notin> set s"

lemma cstring_ok_simps [simp]:
  "cstring_ok []" "cstring_ok (c # s) \<longleftrightarrow> c \<noteq> 0 \<and> cstring_ok s"
  "cstring_ok (s @ t) \<longleftrightarrow> cstring_ok s \<and> cstring_ok t"
  by (auto simp: cstring_ok_def)

lemma chr_simps [simp]: "chr [] = 0" "chr (c # s) = c"
  by (simp_all add: chr_def)

lemma chr_eq_0: "cstring_ok s \<Longrightarrow> chr s = 0 \<longleftrightarrow> s = []"
  by (cases s) auto

lemma takeWhile_stop: "\<forall>c\<in>set a. P c \<Longrightarrow> \<not> P x \<Longrightarrow> takeWhile P (a @ x # b) = a"
  by (induction a) simp_all

lemma takeWhile_nul: "cstring_ok s \<Longrightarrow> takeWhile (\<lambda>c. c \<noteq> 0) (s @ 0 # r) = s"
  by (rule takeWhile_stop) (auto simp: cstring_ok_def)

lemma starts_with_iff: "cstring_ok prefix \<Longrightarrow> starts_with str prefix \<longleftrightarrow> take (length prefix) str = prefix"
proof (induction prefix arbitrary: str)
  case (Cons p prefix)
  then show ?case by (cases str) auto
qed simp

lemma starts_with_prefix: "cstring_ok prefix \<Longrightarrow> starts_with str prefix \<longleftrightarrow> (\<exists>r. str = prefix @ r)"
  by (metis append_eq_conv_conj append_take_drop_id starts_with_iff)

lemma starts_with_mem_iff: "starts_with_mem str prefix \<longleftrightarrow> (\<exists>r. str = prefix @ r)"
  by (induction str prefix rule: starts_with_mem.induct) (auto split: list.splits)

lemma skip_prefix_eq: "cstring_ok prefix \<Longrightarrow> skip_prefix str prefix = Some r \<longleftrightarrow> str = prefix @ r"
proof (induction prefix arbitrary: str)
  case (Cons p prefix)
  then show ?case by (cases str) auto
qed auto

lemma skip_prefix_mem_eq: "skip_prefix_mem buf prefix = Some r \<longleftrightarrow> buf = prefix @ r"
  by (auto simp: skip_prefix_mem_def Let_def) (metis append_take_drop_id)

lemma tolower_0: "tolower 0 = tolower p \<longleftrightarrow> p = 0"
  unfolding ctype_defs by (rule table_bytesI) code_simp

lemma istarts_with_iff:
  "cstring_ok prefix \<Longrightarrow>
   istarts_with str prefix \<longleftrightarrow> map tolower (take (length prefix) str) = map tolower prefix"
proof (induction prefix arbitrary: str)
  case (Cons p prefix)
  have "tolower 0 \<noteq> tolower p" using Cons.prems by (simp add: tolower_0)
  then show ?case using Cons by (cases str) auto
qed simp

lemma strip_suffix_eq:
  "strip_suffix str suffix = Some n \<longleftrightarrow> str = take n str @ suffix \<and> n + length suffix = length str"
  by (auto simp: strip_suffix_def strip_suffix_mem_def Let_def not_less)
     (metis add_diff_cancel_right' append_eq_conv_conj length_take min.absorb2 le_add1, metis append_take_drop_id)

end
