(* ===== verification/Git_Strbuf.thy ===== *)
theory Git_Strbuf
  imports Git_Ctype
begin

section \<open>String buffers: strbuf.c and strbuf.h\<close>

text \<open>
  A \<open>strbuf\<close> is modelled with its memory: \<open>sb_buf\<close> is the whole block the pointer \<^verbatim>\<open>buf\<close> points to,
  the terminating NUL and the unused bytes behind it included, so that every access is checked
  against the block.  A buffer without an allocation (\<open>sb_alloc = 0\<close>) points to the one byte
  \<^verbatim>\<open>strbuf_slopbuf\<close>.  \<open>junk\<close> is the content of freshly allocated memory.  Sizes are natural numbers;
  the code's overflow tests are made against \<^verbatim>\<open>size_t\<close> of 64 bits, and an allocation that fails dies
  inside \<^verbatim>\<open>xrealloc()\<close>, which is not modelled.
\<close>

record strbuf =
  sb_alloc :: nat
  sb_len :: nat
  sb_buf :: "byte list"

definition strbuf_slopbuf :: "byte list" where "strbuf_slopbuf = [0]"

definition STRBUF_INIT :: strbuf where
  "STRBUF_INIT = \<lparr>sb_alloc = 0, sb_len = 0, sb_buf = strbuf_slopbuf\<rparr>"

definition size_add_overflows :: "nat \<Rightarrow> nat \<Rightarrow> bool" where
  "size_add_overflows a b \<longleftrightarrow> b > (2 ^ 64 - 1) - a"

definition size_mult_overflows :: "nat \<Rightarrow> nat \<Rightarrow> bool" where
  "size_mult_overflows a b \<longleftrightarrow> a \<noteq> 0 \<and> b > (2 ^ 64 - 1) div a"

text \<open>Checked block writes and moves inside one block of memory.\<close>

definition memcpy :: "byte list \<Rightarrow> nat \<Rightarrow> byte list \<Rightarrow> byte list result" where
  "memcpy mem off data =
     (if off + length data \<le> length mem then Inr (take off mem @ data @ drop (off + length data) mem)
      else Inl Oob)"

definition memmove :: "byte list \<Rightarrow> nat \<Rightarrow> nat \<Rightarrow> nat \<Rightarrow> byte list result" where
  "memmove mem dst src n = rbind (slice mem src n) (memcpy mem dst)"

definition put_nul :: "strbuf \<Rightarrow> strbuf result" where
  "put_nul sb = rbind (wr (sb_buf sb) (sb_len sb) 0) (\<lambda>mem. Inr (sb\<lparr>sb_buf := mem\<rparr>))"

definition strbuf_avail :: "strbuf \<Rightarrow> nat" where
  "strbuf_avail sb = (if sb_alloc sb \<noteq> 0 then sb_alloc sb - sb_len sb - 1 else 0)"

definition strbuf_grow :: "(nat \<Rightarrow> byte) \<Rightarrow> strbuf \<Rightarrow> nat \<Rightarrow> strbuf result" where
  "strbuf_grow junk sb extra =
     (let new_buf = (sb_alloc sb = 0) in
      if size_add_overflows extra 1 \<or> size_add_overflows (sb_len sb) (extra + 1) then Inl Died
      else let mem = (if new_buf then [] else sb_buf sb);
               alloc = ALLOC_GROW (sb_len sb + extra + 1) (sb_alloc sb);
               mem = mem @ map junk [length mem..<alloc]
           in rbind (if new_buf then wr mem 0 0 else Inr mem) (\<lambda>mem.
                Inr (sb\<lparr>sb_alloc := alloc, sb_buf := mem\<rparr>)))"

definition strbuf_setlen :: "strbuf \<Rightarrow> nat \<Rightarrow> strbuf result" where
  "strbuf_setlen sb len =
     (if len > (if sb_alloc sb \<noteq> 0 then sb_alloc sb - 1 else 0) then Inl Bug_called
      else let sb = sb\<lparr>sb_len := len\<rparr> in
           if sb_alloc sb \<noteq> 0 then put_nul sb
           else rbind (rd (sb_buf sb) 0) (\<lambda>c. if c = 0 then Inr sb else Inl Assert_failed))"

definition strbuf_reset :: "strbuf \<Rightarrow> strbuf result" where
  "strbuf_reset sb = strbuf_setlen sb 0"

definition strbuf_init :: "(nat \<Rightarrow> byte) \<Rightarrow> nat \<Rightarrow> strbuf result" where
  "strbuf_init junk hint = (if hint \<noteq> 0 then strbuf_grow junk STRBUF_INIT hint else Inr STRBUF_INIT)"

definition strbuf_release :: "(nat \<Rightarrow> byte) \<Rightarrow> strbuf \<Rightarrow> strbuf result" where
  "strbuf_release junk sb = (if sb_alloc sb \<noteq> 0 then strbuf_init junk 0 else Inr sb)"

text \<open>The detached block and its length, and the reinitialised buffer.\<close>

definition strbuf_detach :: "(nat \<Rightarrow> byte) \<Rightarrow> strbuf \<Rightarrow> (byte list \<times> nat \<times> strbuf) result" where
  "strbuf_detach junk sb =
     rbind (strbuf_grow junk sb 0) (\<lambda>sb.
     rbind (strbuf_init junk 0) (\<lambda>sb'. Inr (sb_buf sb, sb_len sb, sb')))"

definition strbuf_attach ::
  "(nat \<Rightarrow> byte) \<Rightarrow> strbuf \<Rightarrow> byte list \<Rightarrow> nat \<Rightarrow> nat \<Rightarrow> strbuf result" where
  "strbuf_attach junk sb buf len alloc =
     rbind (strbuf_release junk sb) (\<lambda>sb.
     rbind (strbuf_grow junk (sb\<lparr>sb_buf := buf, sb_len := len, sb_alloc := alloc\<rparr>) 0) put_nul)"

text \<open>\<^verbatim>\<open>strbuf_swap()\<close>: the buffers in exchanged order.\<close>

definition strbuf_swap :: "strbuf \<Rightarrow> strbuf \<Rightarrow> strbuf \<times> strbuf" where
  "strbuf_swap a b = (b, a)"

subsection \<open>Trimming and case\<close>

text \<open>The loop that shortens \<^verbatim>\<open>len\<close> while the last byte satisfies \<open>P\<close>.\<close>

fun shrink_loop :: "(byte \<Rightarrow> bool) \<Rightarrow> byte list \<Rightarrow> nat \<Rightarrow> nat result" where
  "shrink_loop P mem 0 = Inr 0"
| "shrink_loop P mem (Suc len) =
     rbind (rd mem len) (\<lambda>c. if P c then shrink_loop P mem len else Inr (Suc len))"

definition strbuf_rtrim :: "strbuf \<Rightarrow> strbuf result" where
  "strbuf_rtrim sb =
     rbind (shrink_loop isspace (sb_buf sb) (sb_len sb)) (\<lambda>len. put_nul (sb\<lparr>sb_len := len\<rparr>))"

definition strbuf_trim_trailing_dir_sep :: "strbuf \<Rightarrow> strbuf result" where
  "strbuf_trim_trailing_dir_sep sb =
     rbind (shrink_loop git_is_dir_sep (sb_buf sb) (sb_len sb)) (\<lambda>len. put_nul (sb\<lparr>sb_len := len\<rparr>))"

definition strbuf_trim_trailing_newline :: "strbuf \<Rightarrow> strbuf result" where
  "strbuf_trim_trailing_newline sb =
     (if sb_len sb > 0 then
        rbind (rd (sb_buf sb) (sb_len sb - 1)) (\<lambda>c.
          if c = 0x0a then
            let sb = sb\<lparr>sb_len := sb_len sb - 1\<rparr> in
            rbind (if sb_len sb > 0 then
                     rbind (rd (sb_buf sb) (sb_len sb - 1)) (\<lambda>c.
                       Inr (if c = 0x0d then sb\<lparr>sb_len := sb_len sb - 1\<rparr> else sb))
                   else Inr sb) put_nul
          else Inr sb)
      else Inr sb)"

fun ltrim_loop :: "byte list \<Rightarrow> nat \<Rightarrow> nat \<Rightarrow> (nat \<times> nat) result" where
  "ltrim_loop mem b 0 = Inr (b, 0)"
| "ltrim_loop mem b (Suc len) =
     rbind (rd mem b) (\<lambda>c. if isspace c then ltrim_loop mem (Suc b) len else Inr (b, Suc len))"

definition strbuf_ltrim :: "strbuf \<Rightarrow> strbuf result" where
  "strbuf_ltrim sb =
     rbind (ltrim_loop (sb_buf sb) 0 (sb_len sb)) (\<lambda>(b, len).
     rbind (memmove (sb_buf sb) 0 b len) (\<lambda>mem. put_nul (sb\<lparr>sb_len := len, sb_buf := mem\<rparr>)))"

definition strbuf_trim :: "strbuf \<Rightarrow> strbuf result" where
  "strbuf_trim sb = rbind (strbuf_rtrim sb) strbuf_ltrim"

fun tolower_loop :: "byte list \<Rightarrow> nat \<Rightarrow> nat \<Rightarrow> byte list result" where
  "tolower_loop mem p 0 = Inr mem"
| "tolower_loop mem p (Suc n) =
     rbind (rd mem p) (\<lambda>c. rbind (wr mem p (tolower c)) (\<lambda>mem. tolower_loop mem (Suc p) n))"

definition strbuf_tolower :: "strbuf \<Rightarrow> strbuf result" where
  "strbuf_tolower sb =
     rbind (tolower_loop (sb_buf sb) 0 (sb_len sb)) (\<lambda>mem. Inr (sb\<lparr>sb_buf := mem\<rparr>))"

definition strbuf_strip_suffix :: "strbuf \<Rightarrow> cstring \<Rightarrow> (bool \<times> strbuf) result" where
  "strbuf_strip_suffix sb suffix =
     (case strip_suffix_mem (sb_buf sb) (sb_len sb) suffix of
        Some len \<Rightarrow> rbind (strbuf_setlen (sb\<lparr>sb_len := len\<rparr>) len) (\<lambda>sb. Inr (True, sb))
      | None \<Rightarrow> Inr (False, sb))"

subsection \<open>Adding, inserting and removing\<close>

definition strbuf_add :: "(nat \<Rightarrow> byte) \<Rightarrow> strbuf \<Rightarrow> byte list \<Rightarrow> strbuf result" where
  "strbuf_add junk sb data =
     (let len = length data in
      rbind (strbuf_grow junk sb len) (\<lambda>sb.
      rbind (memcpy (sb_buf sb) (sb_len sb) data) (\<lambda>mem.
      strbuf_setlen (sb\<lparr>sb_buf := mem\<rparr>) (sb_len sb + len))))"

definition strbuf_addstr :: "(nat \<Rightarrow> byte) \<Rightarrow> strbuf \<Rightarrow> cstring \<Rightarrow> strbuf result" where
  "strbuf_addstr junk sb s = strbuf_add junk sb s"

primrec addstrings_loop :: "(nat \<Rightarrow> byte) \<Rightarrow> nat \<Rightarrow> strbuf \<Rightarrow> cstring \<Rightarrow> strbuf result" where
  "addstrings_loop junk 0 sb s = Inr sb"
| "addstrings_loop junk (Suc n) sb s = rbind (strbuf_add junk sb s) (\<lambda>sb. addstrings_loop junk n sb s)"

definition strbuf_addstrings :: "(nat \<Rightarrow> byte) \<Rightarrow> strbuf \<Rightarrow> cstring \<Rightarrow> nat \<Rightarrow> strbuf result" where
  "strbuf_addstrings junk sb s n =
     (let len = length s in
      if size_mult_overflows len n then Inl Died
      else rbind (strbuf_grow junk sb (len * n)) (\<lambda>sb. addstrings_loop junk n sb s))"

definition strbuf_addbuf :: "(nat \<Rightarrow> byte) \<Rightarrow> strbuf \<Rightarrow> strbuf \<Rightarrow> strbuf result" where
  "strbuf_addbuf junk sb sb2 =
     rbind (strbuf_grow junk sb (sb_len sb2)) (\<lambda>sb.
     rbind (slice (sb_buf sb2) 0 (sb_len sb2)) (\<lambda>data.
     rbind (memcpy (sb_buf sb) (sb_len sb) data) (\<lambda>mem.
     strbuf_setlen (sb\<lparr>sb_buf := mem\<rparr>) (sb_len sb + sb_len sb2))))"

definition strbuf_addch :: "(nat \<Rightarrow> byte) \<Rightarrow> strbuf \<Rightarrow> byte \<Rightarrow> strbuf result" where
  "strbuf_addch junk sb c =
     rbind (if strbuf_avail sb = 0 then strbuf_grow junk sb 1 else Inr sb) (\<lambda>sb.
     rbind (wr (sb_buf sb) (sb_len sb) c) (\<lambda>mem.
     put_nul (sb\<lparr>sb_buf := mem, sb_len := sb_len sb + 1\<rparr>)))"

definition strbuf_addchars :: "(nat \<Rightarrow> byte) \<Rightarrow> strbuf \<Rightarrow> byte \<Rightarrow> nat \<Rightarrow> strbuf result" where
  "strbuf_addchars junk sb c n =
     rbind (strbuf_grow junk sb n) (\<lambda>sb.
     rbind (memcpy (sb_buf sb) (sb_len sb) (replicate n c)) (\<lambda>mem.
     strbuf_setlen (sb\<lparr>sb_buf := mem\<rparr>) (sb_len sb + n)))"

definition strbuf_complete :: "(nat \<Rightarrow> byte) \<Rightarrow> strbuf \<Rightarrow> byte \<Rightarrow> strbuf result" where
  "strbuf_complete junk sb term =
     (if sb_len sb \<noteq> 0 then
        rbind (rd (sb_buf sb) (sb_len sb - 1)) (\<lambda>c. if c \<noteq> term then strbuf_addch junk sb term else Inr sb)
      else Inr sb)"

definition strbuf_complete_line :: "(nat \<Rightarrow> byte) \<Rightarrow> strbuf \<Rightarrow> strbuf result" where
  "strbuf_complete_line junk sb = strbuf_complete junk sb 0x0a"

definition strbuf_splice :: "(nat \<Rightarrow> byte) \<Rightarrow> strbuf \<Rightarrow> nat \<Rightarrow> nat \<Rightarrow> byte list \<Rightarrow> strbuf result" where
  "strbuf_splice junk sb pos len data =
     (let dlen = length data in
      if size_add_overflows pos len then Inl Died
      else if pos > sb_len sb then Inl Died
      else if pos + len > sb_len sb then Inl Died
      else rbind (if dlen \<ge> len then strbuf_grow junk sb (dlen - len) else Inr sb) (\<lambda>sb.
           rbind (memmove (sb_buf sb) (pos + dlen) (pos + len) (sb_len sb - pos - len)) (\<lambda>mem.
           rbind (memcpy mem pos data) (\<lambda>mem.
           strbuf_setlen (sb\<lparr>sb_buf := mem\<rparr>) (sb_len sb + dlen - len)))))"

definition strbuf_insert :: "(nat \<Rightarrow> byte) \<Rightarrow> strbuf \<Rightarrow> nat \<Rightarrow> byte list \<Rightarrow> strbuf result" where
  "strbuf_insert junk sb pos data = strbuf_splice junk sb pos 0 data"

definition strbuf_insertstr :: "(nat \<Rightarrow> byte) \<Rightarrow> strbuf \<Rightarrow> nat \<Rightarrow> cstring \<Rightarrow> strbuf result" where
  "strbuf_insertstr junk sb pos s = strbuf_insert junk sb pos s"

definition strbuf_remove :: "(nat \<Rightarrow> byte) \<Rightarrow> strbuf \<Rightarrow> nat \<Rightarrow> nat \<Rightarrow> strbuf result" where
  "strbuf_remove junk sb pos len = strbuf_splice junk sb pos len []"

text \<open>\<^verbatim>\<open>memcmp()\<close> compares as unsigned bytes; its result is given as -1, 0 or 1.\<close>

fun memcmp :: "byte list \<Rightarrow> byte list \<Rightarrow> int" where
  "memcmp (a # as) (b # bs) = (if a < b then - 1 else if b < a then 1 else memcmp as bs)"
| "memcmp _ _ = 0"

definition strbuf_cmp :: "strbuf \<Rightarrow> strbuf \<Rightarrow> int result" where
  "strbuf_cmp a b =
     (let len = (if sb_len a < sb_len b then sb_len a else sb_len b) in
      rbind (slice (sb_buf a) 0 len) (\<lambda>x. rbind (slice (sb_buf b) 0 len) (\<lambda>y.
        let cmp = memcmp x y in
        if cmp \<noteq> 0 then Inr cmp
        else Inr (if sb_len a < sb_len b then - 1 else if sb_len a \<noteq> sb_len b then 1 else 0))))"

text \<open>
  The formatted append.  \<open>txt\<close> is the text the format stands for; \<open>snprintf\<close> stores the part of it
  that fits into \<open>room\<close> bytes together with a NUL and returns the full length, or -1 when that does
  not fit an \<^verbatim>\<open>int\<close>.
\<close>

definition snprintf :: "byte list \<Rightarrow> nat \<Rightarrow> nat \<Rightarrow> byte list \<Rightarrow> (int \<times> byte list) result" where
  "snprintf mem off room txt =
     (if length txt > 2 ^ 31 - 1 then Inr (- 1, mem)
      else if room = 0 then Inr (int (length txt), mem)
      else rbind (memcpy mem off (take (room - 1) txt @ [0])) (\<lambda>mem. Inr (int (length txt), mem)))"

definition strbuf_vaddf :: "(nat \<Rightarrow> byte) \<Rightarrow> strbuf \<Rightarrow> byte list \<Rightarrow> strbuf result" where
  "strbuf_vaddf junk sb txt =
     rbind (if strbuf_avail sb = 0 then strbuf_grow junk sb 64 else Inr sb) (\<lambda>sb.
     rbind (snprintf (sb_buf sb) (sb_len sb) (sb_alloc sb - sb_len sb) txt) (\<lambda>(len, mem).
     let sb = sb\<lparr>sb_buf := mem\<rparr> in
     if len < 0 then Inl Died
     else if len > int (strbuf_avail sb) then
       rbind (strbuf_grow junk sb (nat len)) (\<lambda>sb.
       rbind (snprintf (sb_buf sb) (sb_len sb) (sb_alloc sb - sb_len sb) txt) (\<lambda>(len, mem).
       let sb = sb\<lparr>sb_buf := mem\<rparr> in
       if len > int (strbuf_avail sb) then Inl Bug_called
       else strbuf_setlen sb (sb_len sb + nat len)))
     else strbuf_setlen sb (sb_len sb + nat len)))"

definition strbuf_addf :: "(nat \<Rightarrow> byte) \<Rightarrow> strbuf \<Rightarrow> byte list \<Rightarrow> strbuf result" where
  "strbuf_addf junk sb txt = strbuf_vaddf junk sb txt"

definition strbuf_vinsertf :: "(nat \<Rightarrow> byte) \<Rightarrow> strbuf \<Rightarrow> nat \<Rightarrow> byte list \<Rightarrow> strbuf result" where
  "strbuf_vinsertf junk sb pos txt =
     (if pos > sb_len sb then Inl Died
      else rbind (snprintf (sb_buf sb) (sb_len sb) 0 txt) (\<lambda>(len, mem).
        if len < 0 then Inl Died
        else if len = 0 then Inr (sb\<lparr>sb_buf := mem\<rparr>)
        else if size_add_overflows (sb_len sb) (nat len) then Inl Died
        else let len = nat len in
          rbind (strbuf_grow junk (sb\<lparr>sb_buf := mem\<rparr>) len) (\<lambda>sb.
          rbind (memmove (sb_buf sb) (pos + len) pos (sb_len sb - pos)) (\<lambda>mem.
          rbind (rd mem (pos + len)) (\<lambda>save.
          rbind (snprintf mem pos (len + 1) txt) (\<lambda>(len2, mem).
          rbind (wr mem (pos + len) save) (\<lambda>mem.
            if len2 \<noteq> int len then Inl Bug_called
            else strbuf_setlen (sb\<lparr>sb_buf := mem\<rparr>) (sb_len sb + len))))))))"

definition strbuf_insertf :: "(nat \<Rightarrow> byte) \<Rightarrow> strbuf \<Rightarrow> nat \<Rightarrow> byte list \<Rightarrow> strbuf result" where
  "strbuf_insertf junk sb pos txt = strbuf_vinsertf junk sb pos txt"

subsection \<open>The invariant and the contract of the operations\<close>

definition sb_ok :: "strbuf \<Rightarrow> bool" where
  "sb_ok sb \<longleftrightarrow>
     sb_len sb < length (sb_buf sb) \<and> sb_buf sb ! sb_len sb = 0 \<and>
     (if sb_alloc sb = 0 then sb_buf sb = strbuf_slopbuf else sb_alloc sb = length (sb_buf sb))"

definition sb_str :: "strbuf \<Rightarrow> byte list" where
  "sb_str sb = take (sb_len sb) (sb_buf sb)"

text \<open>
  \<open>yields r s\<close>: the operation ends in a well-formed buffer that holds \<open>s\<close>, and it only dies when
  \<open>s\<close> and its NUL come within 64 bytes of the end of the address space (the formatted append asks
  for 64 bytes at a time).
\<close>

definition yields :: "strbuf result \<Rightarrow> byte list \<Rightarrow> bool" where
  "yields r s \<longleftrightarrow>
     (case r of Inl e \<Rightarrow> e = Died \<and> 2 ^ 64 \<le> length s + 65 | Inr sb \<Rightarrow> sb_ok sb \<and> sb_str sb = s)"

text \<open>\<open>gives\<close> is the contract of the operations that never need more memory.\<close>

definition gives :: "strbuf result \<Rightarrow> byte list \<Rightarrow> bool" where
  "gives r s \<longleftrightarrow> (case r of Inl e \<Rightarrow> False | Inr sb \<Rightarrow> sb_ok sb \<and> sb_str sb = s)"

lemma gives_yields: "gives r s \<Longrightarrow> yields r s"
  by (auto simp: gives_def yields_def split: sum.splits)

lemma gives_Inr: "gives (Inr sb) s \<longleftrightarrow> sb_ok sb \<and> sb_str sb = s"
  by (simp add: gives_def)

lemma givesE:
  assumes "gives r s"
  obtains sb where "r = Inr sb" "sb_ok sb" "sb_str sb = s"
  using assms by (auto simp: gives_def split: sum.splits)

lemma gives_bind:
  "gives r s \<Longrightarrow> (\<And>sb. sb_ok sb \<Longrightarrow> sb_str sb = s \<Longrightarrow> gives (f sb) s') \<Longrightarrow> gives (rbind r f) s'"
  by (auto elim: givesE)

lemma size_add_overflows_iff: "size_add_overflows a b \<longleftrightarrow> 2 ^ 64 \<le> a + b \<and> b \<noteq> 0"
  by (auto simp: size_add_overflows_def)

lemma size_add_overflows_word: "size_add_overflows (unat a) (unat b) \<longleftrightarrow> unsigned_add_overflows a b"
  using unat_less [of a] by (auto simp: size_add_overflows_iff unsigned_add_overflows_unat)

lemma memcpy_in [simp]:
  "off + length data \<le> length mem \<Longrightarrow>
   memcpy mem off data = Inr (take off mem @ data @ drop (off + length data) mem)"
  by (simp add: memcpy_def)

lemma memmove_in [simp]:
  "src + n \<le> length mem \<Longrightarrow> dst + n \<le> length mem \<Longrightarrow>
   memmove mem dst src n = Inr (take dst mem @ take n (drop src mem) @ drop (dst + n) mem)"
  by (simp add: memmove_def)

lemma sb_okD:
  assumes "sb_ok sb"
  shows "sb_len sb < length (sb_buf sb)" "sb_buf sb ! sb_len sb = 0" "length (sb_str sb) = sb_len sb"
    "sb_alloc sb \<noteq> 0 \<Longrightarrow> sb_alloc sb = length (sb_buf sb)"
    "sb_alloc sb = 0 \<Longrightarrow> sb_len sb = 0 \<and> sb_buf sb = [0]"
  using assms by (auto simp: sb_ok_def sb_str_def strbuf_slopbuf_def split: if_splits)

lemma sb_ok_init [simp]: "sb_ok STRBUF_INIT" "sb_str STRBUF_INIT = []"
  by (simp_all add: sb_ok_def sb_str_def STRBUF_INIT_def strbuf_slopbuf_def)

lemma yields_Inr: "yields (Inr sb) s \<longleftrightarrow> sb_ok sb \<and> sb_str sb = s"
  by (simp add: yields_def)

lemma yields_bind:
  assumes "yields r s" "length s \<le> length s'"
    and "\<And>sb. sb_ok sb \<Longrightarrow> sb_str sb = s \<Longrightarrow> yields (f sb) s'"
  shows "yields (rbind r f) s'"
  using assms by (cases r) (auto simp: yields_def)

lemma yields_append:
  assumes "yields r s" and "\<And>sb. sb_ok sb \<Longrightarrow> yields (f sb) (sb_str sb @ t)"
  shows "yields (rbind r f) (s @ t)"
  using assms by (cases r) (auto simp: yields_def)

text \<open>A block with a NUL behind the string is a well-formed buffer.\<close>

definition owned :: "byte list \<Rightarrow> nat \<Rightarrow> strbuf" where
  "owned mem len = \<lparr>sb_alloc = length mem, sb_len = len, sb_buf = mem\<rparr>"

lemma owned_sel [simp]:
  "sb_alloc (owned mem len) = length mem" "sb_len (owned mem len) = len" "sb_buf (owned mem len) = mem"
  by (simp_all add: owned_def)

lemma owned_upd [simp]:
  "(owned mem len)\<lparr>sb_len := len'\<rparr> = owned mem len'"
  "length mem' = length mem \<Longrightarrow> (owned mem len)\<lparr>sb_buf := mem'\<rparr> = owned mem' len"
  "length mem' = length mem \<Longrightarrow> (owned mem len)\<lparr>sb_buf := mem', sb_len := len'\<rparr> = owned mem' len'"
  "length mem' = length mem \<Longrightarrow> (owned mem len)\<lparr>sb_len := len', sb_buf := mem'\<rparr> = owned mem' len'"
  by (simp_all add: owned_def)

lemma owned_ok: "sb_ok (owned mem len) \<longleftrightarrow> len < length mem \<and> mem ! len = 0"
  by (auto simp: sb_ok_def)

lemma owned_str: "sb_str (owned mem len) = take len mem"
  by (simp add: sb_str_def)

lemma put_nul_owned [simp]: "len < length mem \<Longrightarrow> put_nul (owned mem len) = Inr (owned (mem[len := 0]) len)"
  by (simp add: put_nul_def)

lemma setlen_owned [simp]:
  "len' < length mem \<Longrightarrow> strbuf_setlen (owned mem len) len' = Inr (owned (mem[len' := 0]) len')"
  by (auto simp: strbuf_setlen_def Let_def)

lemma owned_nul_gives: "len < length mem \<Longrightarrow> gives (Inr (owned (mem[len := 0]) len)) (take len mem)"
  by (simp add: gives_Inr owned_ok owned_str)

lemmas owned_nul_yields = owned_nul_gives [THEN gives_yields]

lemma sb_owned:
  assumes "sb_ok sb" "sb_alloc sb \<noteq> 0"
  shows "sb = owned (sb_buf sb) (sb_len sb)"
  using sb_okD [OF assms(1)] assms(2) by (simp add: owned_def)

lemma sb_unowned:
  assumes "sb_ok sb" "sb_alloc sb = 0"
  shows "sb = STRBUF_INIT"
  using sb_okD(5) [OF assms] assms(2) by (simp add: STRBUF_INIT_def strbuf_slopbuf_def)

text \<open>Growing keeps the string and makes room for the requested bytes and the NUL.\<close>

lemma strbuf_grow_cases:
  assumes ok: "sb_ok sb"
  obtains (died) "strbuf_grow junk sb extra = Inl Died" "2 ^ 64 \<le> sb_len sb + extra + 1"
  | (room) mem where "strbuf_grow junk sb extra = Inr (owned mem (sb_len sb))"
      "sb_len sb + extra < length mem" "take (sb_len sb) mem = sb_str sb" "mem ! sb_len sb = 0"
      "sb_len sb + extra + 1 < 2 ^ 64"
proof (cases "2 ^ 64 \<le> sb_len sb + extra + 1")
  case True
  then show ?thesis
    by (intro died) (auto simp: strbuf_grow_def size_add_overflows_iff Let_def)
next
  case no_overflow: False
  define alloc where "alloc = ALLOC_GROW (sb_len sb + extra + 1) (sb_alloc sb)"
  have alloc: "sb_len sb + extra + 1 \<le> alloc" "sb_alloc sb \<le> alloc"
    unfolding alloc_def by (rule ALLOC_GROW_ge)+
  show ?thesis
  proof (cases "sb_alloc sb = 0")
    case True
    have init: "sb_len sb = 0" using sb_okD(5) [OF ok True] by simp
    show ?thesis
    proof (rule room [of "(map junk [0..<alloc])[0 := 0]"])
      have "alloc = ALLOC_GROW (Suc extra) 0" using init True by (simp add: alloc_def)
      moreover have "0 < ALLOC_GROW (Suc extra) 0" using ALLOC_GROW_ge(1) [of "Suc extra" 0] by simp
      ultimately show "strbuf_grow junk sb extra = Inr (owned ((map junk [0..<alloc])[0 := 0]) (sb_len sb))"
        using no_overflow init True
        by (simp add: strbuf_grow_def size_add_overflows_iff owned_def Let_def)
      show "sb_len sb + extra < length ((map junk [0..<alloc])[0 := 0])" using alloc(1) by simp
      show "take (sb_len sb) ((map junk [0..<alloc])[0 := 0]) = sb_str sb" by (simp add: init sb_str_def)
      show "(map junk [0..<alloc])[0 := 0] ! sb_len sb = 0" using alloc(1) by (simp add: init)
      show "sb_len sb + extra + 1 < 2 ^ 64" using no_overflow by simp
    qed
  next
    case False
    note own = sb_okD(4) [OF ok False]
    let ?mem = "sb_buf sb @ map junk [length (sb_buf sb)..<alloc]"
    show ?thesis
    proof (rule room [of ?mem])
      show "strbuf_grow junk sb extra = Inr (owned ?mem (sb_len sb))"
        using no_overflow False alloc(2) own
        by (simp add: strbuf_grow_def size_add_overflows_iff owned_def Let_def alloc_def)
      show "sb_len sb + extra < length ?mem" using alloc own by simp
      show "take (sb_len sb) ?mem = sb_str sb" using sb_okD(1) [OF ok] by (simp add: sb_str_def)
      show "?mem ! sb_len sb = 0" using sb_okD(1,2) [OF ok] by (simp add: nth_append)
      show "sb_len sb + extra + 1 < 2 ^ 64" using no_overflow by simp
    qed
  qed
qed

lemma grow_owned:
  assumes "n < length mem"
  obtains (died) "strbuf_grow junk (owned mem n) extra = Inl Died" "2 ^ 64 \<le> n + extra + 1"
  | (room) mem' where "strbuf_grow junk (owned mem n) extra = Inr (owned mem' n)"
      "n + extra < length mem'" "take n mem' = take n mem"
proof (cases "2 ^ 64 \<le> n + extra + 1")
  case True
  then show ?thesis
    by (intro died) (auto simp: strbuf_grow_def size_add_overflows_iff Let_def)
next
  case False
  define alloc where "alloc = ALLOC_GROW (n + extra + 1) (length mem)"
  have alloc: "n + extra + 1 \<le> alloc" "length mem \<le> alloc"
    unfolding alloc_def by (rule ALLOC_GROW_ge)+
  show ?thesis
  proof (rule room [of "mem @ map junk [length mem..<alloc]"])
    show "strbuf_grow junk (owned mem n) extra = Inr (owned (mem @ map junk [length mem..<alloc]) n)"
      using False assms alloc(2)
      by (auto simp: strbuf_grow_def size_add_overflows_iff Let_def alloc_def owned_def)
  qed (use alloc assms in simp_all)
qed

lemma strbuf_grow_yields: "sb_ok sb \<Longrightarrow> extra = 0 \<Longrightarrow> yields (strbuf_grow junk sb extra) (sb_str sb)"
  by (rule strbuf_grow_cases [of sb junk extra]) (auto simp: yields_def owned_ok owned_str sb_okD)

subsection \<open>Appending\<close>

text \<open>The common tail of the appending operations: store behind the string, then set the length.\<close>

lemma append_tail:
  assumes "len + length data < length mem"
  shows "yields (rbind (memcpy mem len data)
           (\<lambda>mem'. strbuf_setlen ((owned mem len)\<lparr>sb_buf := mem'\<rparr>) (len + length data))) (take len mem @ data)"
proof -
  let ?mem' = "take len mem @ data @ drop (len + length data) mem"
  have len: "length ?mem' = length mem" "len + length data < length ?mem'" using assms by auto
  have "take (len + length data) ?mem' = take len mem @ data" using assms by simp
  with owned_nul_yields [OF len(2)] show ?thesis using assms by (simp add: len)
qed

lemma strbuf_add_yields:
  assumes "sb_ok sb"
  shows "yields (strbuf_add junk sb data) (sb_str sb @ data)"
  using assms
proof (cases rule: strbuf_grow_cases [where junk = junk and extra = "length data"])
  case died
  then show ?thesis using assms by (simp add: strbuf_add_def Let_def yields_def sb_okD)
next
  case (room mem)
  then show ?thesis using append_tail [of "sb_len sb" data mem] by (simp add: strbuf_add_def Let_def)
qed

lemma strbuf_addstr_yields: "sb_ok sb \<Longrightarrow> yields (strbuf_addstr junk sb s) (sb_str sb @ s)"
  by (simp add: strbuf_addstr_def strbuf_add_yields)

lemma strbuf_addchars_yields:
  assumes "sb_ok sb"
  shows "yields (strbuf_addchars junk sb c n) (sb_str sb @ replicate n c)"
  using assms
proof (cases rule: strbuf_grow_cases [where junk = junk and extra = n])
  case died
  then show ?thesis using assms by (simp add: strbuf_addchars_def yields_def sb_okD)
next
  case (room mem)
  then show ?thesis
    using append_tail [of "sb_len sb" "replicate n c" mem] by (simp add: strbuf_addchars_def)
qed

lemma strbuf_addbuf_yields:
  assumes "sb_ok sb" "sb_ok sb2"
  shows "yields (strbuf_addbuf junk sb sb2) (sb_str sb @ sb_str sb2)"
  using assms(1)
proof (cases rule: strbuf_grow_cases [where junk = junk and extra = "sb_len sb2"])
  case died
  then show ?thesis using assms by (simp add: strbuf_addbuf_def yields_def sb_okD)
next
  case (room mem)
  have "slice (sb_buf sb2) 0 (sb_len sb2) = Inr (sb_str sb2)" "length (sb_str sb2) = sb_len sb2"
    using assms(2) by (auto simp: sb_okD sb_str_def less_imp_le)
  then show ?thesis
    using append_tail [of "sb_len sb" "sb_str sb2" mem] room by (simp add: strbuf_addbuf_def)
qed

lemma addch_tail:
  assumes "len + 1 < length mem"
  shows "yields (rbind (wr mem len c)
           (\<lambda>mem'. put_nul ((owned mem len)\<lparr>sb_buf := mem', sb_len := len + 1\<rparr>))) (take len mem @ [c])"
  using assms owned_nul_yields [of "len + 1" "mem[len := c]"]
  by (simp add: take_Suc_conv_app_nth)

lemma strbuf_addch_yields:
  assumes ok: "sb_ok sb"
  shows "yields (strbuf_addch junk sb c) (sb_str sb @ [c])"
proof (cases "strbuf_avail sb = 0")
  case avail: True
  show ?thesis using ok
  proof (cases rule: strbuf_grow_cases [where junk = junk and extra = 1])
    case died
    then show ?thesis using ok avail by (simp add: strbuf_addch_def yields_def sb_okD)
  next
    case (room mem)
    then show ?thesis
      using addch_tail [of "sb_len sb" mem c] avail by (simp add: strbuf_addch_def)
  qed
next
  case avail: False
  then have alloc: "sb_alloc sb \<noteq> 0" by (auto simp: strbuf_avail_def split: if_splits)
  have "sb_len sb + 1 < length (sb_buf sb)"
    using avail sb_okD(4) [OF ok alloc] by (auto simp: strbuf_avail_def split: if_splits)
  then show ?thesis
    using addch_tail [of "sb_len sb" "sb_buf sb" c] avail sb_owned [OF ok alloc]
    by (simp add: strbuf_addch_def sb_str_def)
qed

lemma addstrings_loop_yields:
  "sb_ok sb \<Longrightarrow> yields (addstrings_loop junk n sb s) (sb_str sb @ concat (replicate n s))"
proof (induction n arbitrary: sb)
  case (Suc n)
  show ?case
    using yields_append [OF strbuf_add_yields [OF Suc.prems] Suc.IH, of junk s] by simp
qed (simp add: yields_Inr)

lemma strbuf_addstrings_yields:
  assumes "sb_ok sb"
  shows "yields (strbuf_addstrings junk sb s n) (sb_str sb @ concat (replicate n s))"
proof -
  have len: "length (concat (replicate n s)) = length s * n"
    by (simp add: length_concat sum_list_replicate)
  consider (ovf) "size_mult_overflows (length s) n" | (mult) "\<not> size_mult_overflows (length s) n" by blast
  then show ?thesis
  proof cases
    case ovf
    then have "2 ^ 64 - 1 < length s * n"
      by (auto simp: size_mult_overflows_def div_less_iff_less_mult mult.commute)
    then show ?thesis using ovf by (simp add: strbuf_addstrings_def Let_def yields_def len)
  next
    case mult
    show ?thesis using assms
    proof (cases rule: strbuf_grow_cases [where junk = junk and extra = "length s * n"])
      case died
      then show ?thesis
        using assms mult by (simp add: strbuf_addstrings_def Let_def yields_def len sb_okD)
    next
      case (room mem)
      then show ?thesis
        using mult addstrings_loop_yields [of "owned mem (sb_len sb)" junk n s]
        by (simp add: strbuf_addstrings_def Let_def owned_ok owned_str)
    qed
  qed
qed

subsection \<open>Inserting and removing\<close>

lemma splice_tail:
  assumes pos: "pos + len \<le> n" and n: "n < length mem" "n + length data - len < length mem"
  shows "yields
    (rbind (memmove mem (pos + length data) (pos + len) (n - (pos + len))) (\<lambda>mem1.
     rbind (memcpy mem1 pos data) (\<lambda>mem2.
       strbuf_setlen ((owned mem n)\<lparr>sb_buf := mem2\<rparr>) (n + length data - len))))
    (take pos mem @ data @ take (n - (pos + len)) (drop (pos + len) mem))"
proof -
  define mid where "mid = take (n - (pos + len)) (drop (pos + len) mem)"
  have mid: "length mid = n - (pos + len)" using assms by (simp add: mid_def)
  have fits: "pos + length data + (n - (pos + len)) \<le> length mem" using assms by linarith
  define mem1 where "mem1 = take (pos + length data) mem @ mid @ drop (pos + length data + (n - (pos + len))) mem"
  have move: "memmove mem (pos + length data) (pos + len) (n - (pos + len)) = Inr mem1"
    using assms fits by (simp add: mem1_def mid_def)
  have mem1: "length mem1 = length mem" "take pos mem1 = take pos mem"
      "drop (pos + length data) mem1 = mid @ drop (pos + length data + (n - (pos + len))) mem"
    using fits mid by (simp_all add: mem1_def)
  define mem2 where "mem2 = take pos mem @ data @ drop (pos + length data) mem1"
  have copy: "memcpy mem1 pos data = Inr mem2" using fits by (simp add: mem2_def mem1)
  have mem2: "length mem2 = length mem" using fits mid by (simp add: mem2_def mem1)
  have "take (n + length data - len) mem2 = take pos mem @ data @ mid"
    using assms mid by (simp add: mem2_def mem1)
  then show ?thesis
    using owned_nul_yields [of "n + length data - len" mem2] n(2) mem2 by (simp add: move copy mid_def)
qed

lemma strbuf_splice_yields:
  assumes ok: "sb_ok sb" and pos: "pos + len \<le> sb_len sb" and small: "pos + len < 2 ^ 64"
  shows "yields (strbuf_splice junk sb pos len data) (take pos (sb_str sb) @ data @ drop (pos + len) (sb_str sb))"
proof -
  let ?s = "take pos (sb_str sb) @ data @ drop (pos + len) (sb_str sb)"
  have slen: "length ?s = sb_len sb + length data - len" using pos sb_okD(3) [OF ok] by simp
  have no: "\<not> size_add_overflows pos len" using small by (simp add: size_add_overflows_iff)
  have parts: "take pos (sb_str sb) = take pos mem"
      "drop (pos + len) (sb_str sb) = take (sb_len sb - (pos + len)) (drop (pos + len) mem)"
    if "take (sb_len sb) mem = sb_str sb" for mem :: "byte list"
    using pos by (simp_all add: that [symmetric] drop_take)
  show ?thesis
  proof (cases "length data \<ge> len")
    case True
    show ?thesis using ok
    proof (cases rule: strbuf_grow_cases [where junk = junk and extra = "length data - len"])
      case died
      then show ?thesis using True no pos slen by (simp add: strbuf_splice_def Let_def yields_def)
    next
      case (room mem)
      then show ?thesis
        using True no pos splice_tail [of pos len "sb_len sb" mem data] parts [of mem]
        by (simp add: strbuf_splice_def Let_def)
    qed
  next
    case False
    then have alloc: "sb_alloc sb \<noteq> 0" using pos sb_okD(5) [OF ok] by auto
    define mem n where "mem = sb_buf sb" and "n = sb_len sb"
    have sb: "sb = owned mem n" using sb_owned [OF ok alloc] by (simp add: mem_def n_def)
    have n: "n < length mem" using sb_okD(1) [OF ok] by (simp add: mem_def n_def)
    have len: "pos + len \<le> n" using pos by (simp add: n_def)
    have str: "take pos (take n mem) = take pos mem"
        "drop (pos + len) (take n mem) = take (n - (pos + len)) (drop (pos + len) mem)"
      using len by (simp_all add: drop_take)
    show ?thesis
      using False no len n splice_tail [of pos len n mem data]
      unfolding sb owned_str str by (simp add: strbuf_splice_def Let_def)
  qed
qed

lemma strbuf_splice_dies:
  "pos + len > sb_len sb \<Longrightarrow> strbuf_splice junk sb pos len data = Inl Died"
  by (simp add: strbuf_splice_def Let_def)

subsection \<open>Trimming\<close>

lemma shrink_loop_eq:
  "len \<le> length mem \<Longrightarrow>
   shrink_loop P mem len = Inr (length (rev (dropWhile P (rev (take len mem)))))"
proof (induction len)
  case (Suc len)
  then show ?case by (auto simp: take_Suc_conv_app_nth)
qed simp

definition strip_end :: "(byte \<Rightarrow> bool) \<Rightarrow> byte list \<Rightarrow> byte list" where
  "strip_end P s = rev (dropWhile P (rev s))"

lemma strip_end_prefix: "take (length (strip_end P s)) s = strip_end P s"
  unfolding strip_end_def by (metis append_eq_conv_conj rev_append rev_rev_ident takeWhile_dropWhile_id)

lemma strip_end_le: "length (strip_end P s) \<le> length s"
  using length_dropWhile_le [of P "rev s"] by (simp add: strip_end_def)

lemma put_nul_gives:
  assumes ok: "sb_ok sb" and len: "len \<le> sb_len sb"
  shows "gives (put_nul (sb\<lparr>sb_len := len\<rparr>)) (take len (sb_str sb))"
proof (cases "sb_alloc sb = 0")
  case True
  then show ?thesis
    using sb_okD(5) [OF ok True] len
    by (simp add: put_nul_def gives_Inr sb_ok_def sb_str_def strbuf_slopbuf_def)
next
  case False
  have "gives (put_nul ((owned (sb_buf sb) (sb_len sb))\<lparr>sb_len := len\<rparr>)) (take len (sb_buf sb))"
    using owned_nul_gives [of len "sb_buf sb"] len sb_okD(1) [OF ok] by simp
  then show ?thesis using sb_owned [OF ok False, symmetric] len by (simp add: sb_str_def min_def)
qed

lemma shrink_put_nul_gives:
  assumes ok: "sb_ok sb"
  shows "gives (rbind (shrink_loop P (sb_buf sb) (sb_len sb)) (\<lambda>len. put_nul (sb\<lparr>sb_len := len\<rparr>)))
           (strip_end P (sb_str sb))"
proof -
  have "shrink_loop P (sb_buf sb) (sb_len sb) = Inr (length (strip_end P (sb_str sb)))"
    using sb_okD(1) [OF ok] by (simp add: shrink_loop_eq strip_end_def sb_str_def)
  moreover have "length (strip_end P (sb_str sb)) \<le> sb_len sb"
    using strip_end_le [of P "sb_str sb"] sb_okD(3) [OF ok] by simp
  ultimately show ?thesis
    using put_nul_gives [OF ok, of "length (strip_end P (sb_str sb))"] by (simp add: strip_end_prefix)
qed

lemma strbuf_rtrim_gives: "sb_ok sb \<Longrightarrow> gives (strbuf_rtrim sb) (strip_end isspace (sb_str sb))"
  unfolding strbuf_rtrim_def by (rule shrink_put_nul_gives)

lemma strbuf_trim_trailing_dir_sep_gives:
  "sb_ok sb \<Longrightarrow> gives (strbuf_trim_trailing_dir_sep sb) (strip_end git_is_dir_sep (sb_str sb))"
  unfolding strbuf_trim_trailing_dir_sep_def by (rule shrink_put_nul_gives)

lemma ltrim_loop_eq:
  "b + len \<le> length mem \<Longrightarrow>
   ltrim_loop mem b len =
     (let r = dropWhile isspace (take len (drop b mem)) in Inr (b + len - length r, length r))"
proof (induction len arbitrary: b)
  case (Suc len)
  then have "b < length mem" by simp
  then have "take (Suc len) (drop b mem) = mem ! b # take len (drop (Suc b) mem)"
    by (metis Cons_nth_drop_Suc take_Suc_Cons)
  then show ?case using Suc by (simp add: Let_def)
qed simp

lemma strbuf_ltrim_gives:
  assumes ok: "sb_ok sb"
  shows "gives (strbuf_ltrim sb) (dropWhile isspace (sb_str sb))"
proof (cases "sb_alloc sb = 0")
  case True
  then have "sb = STRBUF_INIT" by (rule sb_unowned [OF ok])
  then show ?thesis
    by (simp add: strbuf_ltrim_def put_nul_def gives_Inr sb_ok_def sb_str_def STRBUF_INIT_def strbuf_slopbuf_def)
next
  case False
  define mem n where "mem = sb_buf sb" and "n = sb_len sb"
  define r where "r = dropWhile isspace (sb_str sb)"
  have sb: "sb = owned mem n" using sb_owned [OF ok False] by (simp add: mem_def n_def)
  have n: "n < length mem" using sb_okD(1) [OF ok] by (simp add: mem_def n_def)
  have rlen: "length r \<le> n"
    using length_dropWhile_le [of isspace "sb_str sb"] sb_okD(3) [OF ok] by (simp add: r_def n_def)
  have loop: "ltrim_loop mem 0 n = Inr (n - length r, length r)"
    using n by (simp add: ltrim_loop_eq Let_def r_def sb_str_def mem_def n_def)
  have "drop (n - length r) (sb_str sb) = r"
    using sb_okD(3) [OF ok] unfolding r_def n_def
    by (metis append_eq_conv_conj length_append add_diff_cancel_right' takeWhile_dropWhile_id)
  then have moved: "take (length r) (drop (n - length r) mem) = r"
    using rlen by (simp add: sb_str_def mem_def n_def drop_take)
  have "gives (Inr (owned ((r @ drop (length r) mem)[length r := 0]) (length r))) r"
    using owned_nul_gives [of "length r" "r @ drop (length r) mem"] n rlen by simp
  then show ?thesis
    using n rlen loop moved unfolding r_def [symmetric] by (simp add: strbuf_ltrim_def sb)
qed

lemma strbuf_trim_gives:
  assumes "sb_ok sb"
  shows "gives (strbuf_trim sb) (dropWhile isspace (strip_end isspace (sb_str sb)))"
  unfolding strbuf_trim_def
  by (rule gives_bind [OF strbuf_rtrim_gives [OF assms]]) (use strbuf_ltrim_gives in fastforce)

lemma strbuf_setlen_gives:
  assumes ok: "sb_ok sb" and len: "len \<le> sb_len sb"
  shows "gives (strbuf_setlen sb len) (take len (sb_str sb))"
proof (cases "sb_alloc sb = 0")
  case True
  then show ?thesis
    using sb_okD(5) [OF ok True] len
    by (simp add: strbuf_setlen_def Let_def gives_Inr sb_ok_def sb_str_def strbuf_slopbuf_def)
next
  case False
  then show ?thesis
    using put_nul_gives [OF ok len] sb_okD(1,4) [OF ok] len
    by (auto simp: strbuf_setlen_def Let_def)
qed

lemma strbuf_reset_gives: "sb_ok sb \<Longrightarrow> gives (strbuf_reset sb) []"
  using strbuf_setlen_gives [of sb 0] by (simp add: strbuf_reset_def)

lemma sb_str_last:
  assumes "sb_ok sb" "sb_len sb \<noteq> 0"
  shows "rd (sb_buf sb) (sb_len sb - 1) = Inr (last (sb_str sb))" "sb_str sb \<noteq> []"
    "take (sb_len sb - 1) (sb_str sb) = butlast (sb_str sb)"
proof -
  obtain n where n: "sb_len sb = Suc n" using assms(2) not0_implies_Suc by blast
  then show "rd (sb_buf sb) (sb_len sb - 1) = Inr (last (sb_str sb))" "sb_str sb \<noteq> []"
    "take (sb_len sb - 1) (sb_str sb) = butlast (sb_str sb)"
    using sb_okD(1) [OF assms(1)] by (simp_all add: sb_str_def take_Suc_conv_app_nth)
qed

definition chomp :: "byte list \<Rightarrow> byte list" where
  "chomp s =
     (if s \<noteq> [] \<and> last s = 0x0a then
        let s = butlast s in if s \<noteq> [] \<and> last s = 0x0d then butlast s else s
      else s)"

lemma sb_len_0: "sb_ok sb \<Longrightarrow> sb_len sb = 0 \<longleftrightarrow> sb_str sb = []"
  using sb_okD(3) [of sb] by auto

lemma strbuf_trim_trailing_newline_gives:
  assumes ok: "sb_ok sb"
  shows "gives (strbuf_trim_trailing_newline sb) (chomp (sb_str sb))"
proof (cases "sb_len sb \<noteq> 0 \<and> last (sb_str sb) = 0x0a")
  case False
  then show ?thesis
    using ok sb_str_last(1,2) [OF ok] sb_len_0 [OF ok]
    by (cases "sb_len sb = 0") (simp_all add: strbuf_trim_trailing_newline_def chomp_def gives_Inr)
next
  case nl: True
  define n where "n = sb_len sb - 1"
  have len: "sb_len sb = Suc n" using nl by (simp add: n_def)
  have n: "n < length (sb_buf sb)" using sb_okD(1) [OF ok] by (simp add: n_def)
  have but: "take n (sb_str sb) = butlast (sb_str sb)" "length (butlast (sb_str sb)) = n"
    using sb_str_last(3) [OF ok] nl sb_okD(3) [OF ok] by (simp_all add: n_def)
  show ?thesis
  proof (cases n)
    case 0
    then show ?thesis
      using put_nul_gives [OF ok, of n] nl sb_str_last [OF ok] but
      by (auto simp: strbuf_trim_trailing_newline_def chomp_def n_def [symmetric] Let_def)
  next
    case (Suc m)
    have "butlast (sb_str sb) = take (Suc m) (sb_buf sb)"
      using but(1) Suc len by (simp add: sb_str_def min_def)
    then have last: "last (butlast (sb_str sb)) = sb_buf sb ! m"
      using Suc n by (simp add: take_Suc_conv_app_nth)
    have "butlast (butlast (sb_str sb)) = take m (sb_str sb)"
      using Suc len sb_okD(3) [OF ok] by (simp add: but(1) [symmetric] butlast_take)
    then show ?thesis
      using put_nul_gives [OF ok, of n] put_nul_gives [OF ok, of m] nl sb_str_last [OF ok] but Suc len n last
      by (auto simp: strbuf_trim_trailing_newline_def chomp_def n_def [symmetric] Let_def)
  qed
qed

lemma tolower_loop_eq:
  "p + n \<le> length mem \<Longrightarrow>
   tolower_loop mem p n = Inr (take p mem @ map tolower (take n (drop p mem)) @ drop (p + n) mem)"
proof (induction n arbitrary: p mem)
  case (Suc n)
  have p: "p < length mem" using Suc.prems by simp
  have "take (Suc n) (drop p mem) = mem ! p # take n (drop (Suc p) mem)"
    using p by (metis Cons_nth_drop_Suc take_Suc_Cons)
  moreover have "tolower_loop (mem[p := tolower (mem ! p)]) (Suc p) n =
      Inr ((take p mem @ [tolower (mem ! p)]) @ map tolower (take n (drop (Suc p) mem)) @ drop (Suc p + n) mem)"
    using Suc.IH [of "Suc p" "mem[p := tolower (mem ! p)]"] Suc.prems p
    by (simp add: take_Suc_conv_app_nth)
  ultimately show ?case using p by simp
qed simp

lemma strbuf_tolower_gives:
  assumes ok: "sb_ok sb"
  shows "gives (strbuf_tolower sb) (map tolower (sb_str sb))"
proof -
  have "tolower_loop (sb_buf sb) 0 (sb_len sb) = Inr (map tolower (sb_str sb) @ drop (sb_len sb) (sb_buf sb))"
    using sb_okD(1) [OF ok] by (simp add: tolower_loop_eq sb_str_def)
  then show ?thesis
    using ok sb_okD [OF ok]
    by (cases "sb_alloc sb = 0") (auto simp: strbuf_tolower_def gives_Inr sb_ok_def sb_str_def strbuf_slopbuf_def nth_append)
qed

lemma strbuf_strip_suffix_spec:
  assumes ok: "sb_ok sb"
  shows "case strbuf_strip_suffix sb suffix of
      Inl e \<Rightarrow> False
    | Inr (True, sb') \<Rightarrow> sb_ok sb' \<and> sb_str sb = sb_str sb' @ suffix
    | Inr (False, sb') \<Rightarrow> sb' = sb \<and> (\<nexists>r. sb_str sb = r @ suffix)"
proof (cases "strip_suffix_mem (sb_buf sb) (sb_len sb) suffix")
  case None
  have "\<nexists>r. sb_str sb = r @ suffix"
  proof
    assume "\<exists>r. sb_str sb = r @ suffix"
    then obtain r where r: "sb_str sb = r @ suffix" by blast
    then have "sb_len sb = length r + length suffix" using sb_okD(3) [OF ok] by simp
    moreover have "take (length suffix) (drop (length r) (sb_buf sb)) = suffix"
      using r calculation by (metis add_diff_cancel_left' append_eq_conv_conj drop_take sb_str_def)
    ultimately show False using None by (simp add: strip_suffix_mem_def Let_def)
  qed
  then show ?thesis using None by (simp add: strbuf_strip_suffix_def)
next
  case (Some len)
  then have len: "len + length suffix = sb_len sb" "take (length suffix) (drop len (sb_buf sb)) = suffix"
    by (auto simp: strip_suffix_mem_def Let_def split: if_splits)
  have "strbuf_setlen (sb\<lparr>sb_len := len\<rparr>) len = strbuf_setlen sb len"
    by (cases "len = 0") (simp_all add: strbuf_setlen_def Let_def)
  moreover have "len \<le> sb_len sb" using len(1) by simp
  ultimately obtain sb' where sb': "strbuf_setlen (sb\<lparr>sb_len := len\<rparr>) len = Inr sb'" "sb_ok sb'"
      "sb_str sb' = take len (sb_str sb)"
    using strbuf_setlen_gives [OF ok] by (metis givesE)
  have "sb_str sb = take len (sb_str sb) @ suffix"
    using len by (metis add_diff_cancel_left' append_take_drop_id drop_take sb_str_def)
  then show ?thesis using Some sb' by (simp add: strbuf_strip_suffix_def)
qed

subsection \<open>The remaining appending operations\<close>

lemma strbuf_complete_yields:
  assumes "sb_ok sb"
  shows "yields (strbuf_complete junk sb c)
           (sb_str sb @ (if sb_str sb \<noteq> [] \<and> last (sb_str sb) \<noteq> c then [c] else []))"
  using assms sb_str_last [OF assms] strbuf_addch_yields [OF assms]
  by (auto simp: strbuf_complete_def yields_Inr sb_len_0)

lemmas strbuf_complete_line_yields = strbuf_complete_yields [where c = "0x0a", folded strbuf_complete_line_def]

lemma snprintf_fits:
  assumes "length txt < 2 ^ 31" "length txt < room" "off + room \<le> length mem"
  shows "snprintf mem off room txt = Inr (int (length txt), take off mem @ txt @ 0 # drop (off + length txt + 1) mem)"
  using assms by (simp add: snprintf_def)

text \<open>Whatever part of the text is stored, the string in front of it is kept.\<close>

lemma snprintf_prefix:
  assumes "length txt < 2 ^ 31" "off < length mem"
  obtains mem' where "snprintf mem off (length mem - off) txt = Inr (int (length txt), mem')"
    "length mem' = length mem" "take off mem' = take off mem"
proof -
  let ?t = "take (length mem - off - 1) txt @ [0]"
  have "off + length ?t \<le> length mem" using assms(2) by (auto simp: min_def)
  then show thesis
    using assms by (intro that [of "take off mem @ ?t @ drop (off + length ?t) mem"])
      (simp_all add: snprintf_def)
qed

lemma avail_owned: "n < length mem \<Longrightarrow> strbuf_avail (owned mem n) = length mem - n - 1"
  by (auto simp: strbuf_avail_def)

lemma strbuf_vaddf_yields:
  assumes ok: "sb_ok sb" and tlen: "length txt < 2 ^ 31"
  shows "yields (strbuf_vaddf junk sb txt) (sb_str sb @ txt)"
proof -
  let ?rest = "\<lambda>sb. rbind (snprintf (sb_buf sb) (sb_len sb) (sb_alloc sb - sb_len sb) txt) (\<lambda>(len, mem).
     let sb = sb\<lparr>sb_buf := mem\<rparr> in
     if len < 0 then Inl Died
     else if len > int (strbuf_avail sb) then
       rbind (strbuf_grow junk sb (nat len)) (\<lambda>sb.
       rbind (snprintf (sb_buf sb) (sb_len sb) (sb_alloc sb - sb_len sb) txt) (\<lambda>(len, mem).
       let sb = sb\<lparr>sb_buf := mem\<rparr> in
       if len > int (strbuf_avail sb) then Inl Bug_called
       else strbuf_setlen sb (sb_len sb + nat len)))
     else strbuf_setlen sb (sb_len sb + nat len))"
  have fits: "yields (strbuf_setlen (owned (take n mem @ txt @ 0 # drop (n + length txt + 1) mem) n) (n + length txt))
      (take n mem @ txt)" if "n + length txt < length mem" for n mem
    using owned_nul_yields [of "n + length txt" "take n mem @ txt @ 0 # drop (n + length txt + 1) mem"] that
    by simp
  have stored: "snprintf mem n (length mem - n) txt =
        Inr (int (length txt), take n mem @ txt @ 0 # drop (n + length txt + 1) mem) \<and>
      (owned mem n)\<lparr>sb_buf := take n mem @ txt @ 0 # drop (n + length txt + 1) mem\<rparr> =
        owned (take n mem @ txt @ 0 # drop (n + length txt + 1) mem) n \<and>
      \<not> int (length mem - n - 1) < int (length txt) \<and>
      strbuf_avail (owned (take n mem @ txt @ 0 # drop (n + length txt + 1) mem) n) = length mem - n - 1"
    if "n + length txt < length mem" for n mem
    using snprintf_fits [OF tlen, of "length mem - n" n mem] that by (auto simp: avail_owned)
  have rest: "yields (?rest (owned mem n)) (take n mem @ txt)" if n: "n < length mem" "mem ! n = 0" for mem n
  proof (cases "n + length txt < length mem")
    case True
    then show ?thesis using stored [of n mem] fits [OF True] by (auto simp: Let_def)
  next
    case False
    obtain mem' where mem': "snprintf mem n (length mem - n) txt = Inr (int (length txt), mem')"
        "length mem' = length mem" "take n mem' = take n mem"
      using snprintf_prefix [OF tlen n(1)] by blast
    consider (died) "strbuf_grow junk (owned mem' n) (length txt) = Inl Died" "2 ^ 64 \<le> n + length txt + 1"
      | (room) mem'' where "strbuf_grow junk (owned mem' n) (length txt) = Inr (owned mem'' n)"
          "n + length txt < length mem''" "take n mem'' = take n mem'"
      using grow_owned [of n mem' junk "length txt"] n(1) mem'(2) by metis
    then show ?thesis
    proof cases
      case died
      then show ?thesis using False n mem' by (auto simp: Let_def avail_owned yields_def)
    next
      case (room mem'')
      then show ?thesis
        using fits [OF room(2)] stored [OF room(2)] False n(1) mem' by (auto simp: Let_def avail_owned)
    qed
  qed
  show ?thesis
  proof (cases "strbuf_avail sb = 0")
    case avail: True
    show ?thesis using ok
    proof (cases rule: strbuf_grow_cases [where junk = junk and extra = 64])
      case died
      then show ?thesis using avail sb_okD(3) [OF ok] by (simp add: strbuf_vaddf_def yields_def)
    next
      case (room mem)
      then show ?thesis using avail rest [of "sb_len sb" mem] by (simp add: strbuf_vaddf_def)
    qed
  next
    case avail: False
    then have alloc: "sb_alloc sb \<noteq> 0" by (auto simp: strbuf_avail_def split: if_splits)
    show ?thesis
      using avail rest [of "sb_len sb" "sb_buf sb"] sb_okD(1,2) [OF ok] sb_owned [OF ok alloc]
      by (simp add: strbuf_vaddf_def sb_str_def)
  qed
qed

lemma strbuf_addf_yields:
  "sb_ok sb \<Longrightarrow> length txt < 2 ^ 31 \<Longrightarrow> yields (strbuf_addf junk sb txt) (sb_str sb @ txt)"
  by (simp add: strbuf_addf_def strbuf_vaddf_yields)

text \<open>The byte behind the inserted text is saved over the NUL that formatting stores there.\<close>

lemma insertf_tail:
  assumes pos: "pos \<le> n" and n: "n + length txt < length mem" and tlen: "length txt < 2 ^ 31"
  shows "yields
    (rbind (memmove mem (pos + length txt) pos (n - pos)) (\<lambda>mem1.
     rbind (rd mem1 (pos + length txt)) (\<lambda>save.
     rbind (snprintf mem1 pos (length txt + 1) txt) (\<lambda>(len2, mem2).
     rbind (wr mem2 (pos + length txt) save) (\<lambda>mem3.
       if len2 \<noteq> int (length txt) then Inl Bug_called
       else strbuf_setlen ((owned mem n)\<lparr>sb_buf := mem3\<rparr>) (n + length txt))))))
    (take pos mem @ txt @ take (n - pos) (drop pos mem))"
proof -
  define len where "len = length txt"
  define mid where "mid = take (n - pos) (drop pos mem)"
  have mid: "length mid = n - pos" using assms by (simp add: mid_def)
  define mem1 where "mem1 = take (pos + len) mem @ mid @ drop (n + len) mem"
  have move: "memmove mem (pos + len) pos (n - pos) = Inr mem1"
    using assms by (simp add: mem1_def mid_def len_def add.commute add.left_commute)
  have l1: "length mem1 = length mem" using assms mid by (simp add: mem1_def len_def)
  define tail where "tail = drop (pos + len + 1) mem1"
  have d1: "drop (pos + len) mem1 = mem1 ! (pos + len) # tail"
    using assms l1 by (simp add: tail_def len_def Cons_nth_drop_Suc)
  have t1: "take pos mem1 = take pos mem" using assms by (simp add: mem1_def len_def)
  have put: "snprintf mem1 pos (len + 1) txt = Inr (int len, take pos mem @ txt @ 0 # tail)"
    using assms l1 t1 snprintf_fits [OF tlen, of "len + 1" pos mem1] by (simp add: len_def tail_def)
  define mem3 where "mem3 = take pos mem @ txt @ drop (pos + len) mem1"
  have "pos < length mem" using assms by linarith
  then have restored: "wr (take pos mem @ txt @ 0 # tail) (pos + len) (mem1 ! (pos + len)) = Inr mem3"
    using d1 by (simp add: mem3_def wr_def list_update_append len_def)
  have "drop (pos + len) mem1 = mid @ drop (n + len) mem"
    using assms by (simp add: mem1_def len_def)
  then have mem3: "mem3 = take pos mem @ txt @ mid @ drop (n + len) mem" by (simp add: mem3_def)
  then have l3: "length mem3 = length mem" using assms mid by (simp add: len_def)
  have "take (n + len) mem3 = take pos mem @ txt @ mid" using assms mid by (simp add: mem3 len_def)
  then have "yields (strbuf_setlen ((owned mem n)\<lparr>sb_buf := mem3\<rparr>) (n + len)) (take pos mem @ txt @ mid)"
    using owned_nul_yields [of "n + len" mem3] l3 n by (simp add: len_def)
  moreover have "rd mem1 (pos + len) = Inr (mem1 ! (pos + len))" using assms l1 by (simp add: len_def)
  ultimately show ?thesis
    unfolding len_def [symmetric] mid_def [symmetric] by (simp only: move put restored rbind_simps prod.case) simp
qed

lemma strbuf_vinsertf_yields:
  assumes ok: "sb_ok sb" and pos: "pos \<le> sb_len sb" and tlen: "length txt < 2 ^ 31"
  shows "yields (strbuf_vinsertf junk sb pos txt) (take pos (sb_str sb) @ txt @ drop pos (sb_str sb))"
proof (cases "txt = []")
  case True
  then show ?thesis using ok pos by (simp add: strbuf_vinsertf_def snprintf_def yields_Inr)
next
  case False
  have slen: "length (take pos (sb_str sb) @ txt @ drop pos (sb_str sb)) = sb_len sb + length txt"
    using pos sb_okD(3) [OF ok] by simp
  show ?thesis using ok
  proof (cases rule: strbuf_grow_cases [where junk = junk and extra = "length txt"])
    case died
    then show ?thesis
      using False pos tlen slen by (auto simp: strbuf_vinsertf_def snprintf_def yields_def size_add_overflows_iff)
  next
    case (room mem)
    have "take pos mem = take pos (sb_str sb)" "take (sb_len sb - pos) (drop pos mem) = drop pos (sb_str sb)"
      using pos by (simp_all add: room(3) [symmetric] drop_take)
    moreover have "\<not> size_add_overflows (sb_len sb) (length txt)" using room(5) by (simp add: size_add_overflows_iff)
    ultimately show ?thesis
      using insertf_tail [OF pos room(2) tlen] False pos tlen room(1)
      by (simp add: strbuf_vinsertf_def snprintf_def [of _ _ 0] Let_def cong: if_cong)
  qed
qed

subsection \<open>Taking over memory, comparing\<close>

lemma strbuf_init_yields: "case strbuf_init junk hint of
    Inl e \<Rightarrow> e = Died \<and> 2 ^ 64 \<le> hint + 1
  | Inr sb \<Rightarrow> sb_ok sb \<and> sb_str sb = [] \<and> hint \<le> strbuf_avail sb"
proof (cases "hint = 0")
  case False
  have len: "sb_len STRBUF_INIT = 0" by (simp add: STRBUF_INIT_def)
  show ?thesis using sb_ok_init(1)
  proof (cases rule: strbuf_grow_cases [where junk = junk and extra = hint])
    case died
    then show ?thesis using False len by (simp add: strbuf_init_def)
  next
    case (room mem)
    then show ?thesis using False len by (auto simp: strbuf_init_def owned_ok owned_str strbuf_avail_def)
  qed
qed (simp add: strbuf_init_def)

lemma strbuf_release_eq: "sb_ok sb \<Longrightarrow> strbuf_release junk sb = Inr STRBUF_INIT"
  by (auto simp: strbuf_release_def strbuf_init_def dest: sb_unowned)

lemma strbuf_detach_spec:
  assumes ok: "sb_ok sb"
  shows "case strbuf_detach junk sb of
      Inl e \<Rightarrow> e = Died \<and> 2 ^ 64 \<le> sb_len sb + 1
    | Inr (mem, len, sb') \<Rightarrow>
        len = sb_len sb \<and> take len mem = sb_str sb \<and> len < length mem \<and> mem ! len = 0 \<and> sb' = STRBUF_INIT"
  using ok
proof (cases rule: strbuf_grow_cases [where junk = junk and extra = 0])
  case died
  then show ?thesis by (simp add: strbuf_detach_def)
next
  case (room mem)
  then show ?thesis by (simp add: strbuf_detach_def strbuf_init_def)
qed

lemma grow_attached:
  assumes "len \<le> length mem" "mem \<noteq> []"
  obtains (died) "strbuf_grow junk (owned mem len) 0 = Inl Died" "2 ^ 64 \<le> len + 1"
  | (room) mem' where "strbuf_grow junk (owned mem len) 0 = Inr (owned mem' len)"
      "len < length mem'" "take len mem' = take len mem"
proof (cases "2 ^ 64 \<le> len + 1")
  case True
  then show ?thesis by (intro died) (auto simp: strbuf_grow_def size_add_overflows_iff Let_def)
next
  case False
  define alloc where "alloc = ALLOC_GROW (len + 1) (length mem)"
  have alloc: "len + 1 \<le> alloc" "length mem \<le> alloc" unfolding alloc_def by (rule ALLOC_GROW_ge)+
  show ?thesis
  proof (rule room [of "mem @ map junk [length mem..<alloc]"])
    show "strbuf_grow junk (owned mem len) 0 = Inr (owned (mem @ map junk [length mem..<alloc]) len)"
      using False assms alloc(2)
      by (auto simp: strbuf_grow_def size_add_overflows_iff Let_def alloc_def owned_def)
  qed (use alloc assms in simp_all)
qed

lemma strbuf_attach_yields:
  assumes ok: "sb_ok sb" and len: "len \<le> length mem" "mem \<noteq> []"
  shows "yields (strbuf_attach junk sb mem len (length mem)) (take len mem)"
proof -
  have attached: "STRBUF_INIT\<lparr>sb_buf := mem, sb_len := len, sb_alloc := length mem\<rparr> = owned mem len"
    by (simp add: STRBUF_INIT_def owned_def)
  show ?thesis using len
  proof (cases rule: grow_attached [where junk = junk])
    case died
    then show ?thesis using ok len(1) by (simp add: strbuf_attach_def strbuf_release_eq attached yields_def)
  next
    case (room mem')
    then show ?thesis
      using ok owned_nul_yields [of len mem'] by (simp add: strbuf_attach_def strbuf_release_eq attached)
  qed
qed

text \<open>The lexicographic order of the bytes as the sign that a comparison function returns.\<close>

definition str_order :: "byte list \<Rightarrow> byte list \<Rightarrow> int" where
  "str_order s t = (if s = t then 0 else if (s, t) \<in> lexord {(x, y). x < y} then - 1 else 1)"

lemma str_order_simps [simp]:
  "str_order [] [] = 0" "str_order [] (y # t) = - 1" "str_order (x # s) [] = 1"
  "str_order (x # s) (y # t) = (if x < y then - 1 else if y < x then 1 else str_order s t)"
  by (auto simp: str_order_def)

lemma memcmp_take:
  "(if memcmp (take (min (length s) (length t)) s) (take (min (length s) (length t)) t) \<noteq> 0
    then memcmp (take (min (length s) (length t)) s) (take (min (length s) (length t)) t)
    else if length s < length t then - 1 else if length s \<noteq> length t then 1 else 0) = str_order s t"
proof (induction s arbitrary: t)
  case Nil
  then show ?case by (cases t) simp_all
next
  case (Cons x s)
  show ?case
  proof (cases t)
    case (Cons y t')
    then show ?thesis using Cons.IH [of t'] by (auto split: if_splits)
  qed simp
qed

lemma strbuf_cmp_eq:
  assumes "sb_ok a" "sb_ok b"
  shows "strbuf_cmp a b = Inr (str_order (sb_str a) (sb_str b))"
proof -
  have len: "length (sb_str a) = sb_len a" "length (sb_str b) = sb_len b"
    "sb_len a < length (sb_buf a)" "sb_len b < length (sb_buf b)"
    using assms by (simp_all add: sb_okD)
  define n where "n = min (sb_len a) (sb_len b)"
  have n: "(if sb_len a < sb_len b then sb_len a else sb_len b) = n" by (simp add: n_def)
  have "slice (sb_buf a) 0 n = Inr (take n (sb_str a))" "slice (sb_buf b) 0 n = Inr (take n (sb_str b))"
    using len by (simp_all add: n_def sb_str_def)
  then show ?thesis
    unfolding memcmp_take [of "sb_str a" "sb_str b", symmetric] len n_def [symmetric]
    by (simp add: strbuf_cmp_def n Let_def)
qed

subsection \<open>Properties\<close>

text \<open>C26: Every operation that extends a string buffer is the corresponding list operation on the
  string it holds: adding bytes, a string, a repeated string, another buffer, one or repeated
  characters and formatted text appends them, completing a line appends the terminator only to a
  nonempty string that lacks it, inserting (plain or formatted) puts the text at the position.  The
  result is again a well-formed, NUL-terminated buffer, every access stays inside the block, and the
  only failure is the death of the process when the string comes to within 64 bytes of the size of
  the address space.\<close>

theorem strbuf_extend_refines:
  assumes ok: "sb_ok sb" "sb_ok sb2" and tlen: "length txt < 2 ^ 31"
    and pos: "pos \<le> sb_len sb" "pos < 2 ^ 64"
  shows "yields (strbuf_add junk sb data) (sb_str sb @ data) \<and>
    yields (strbuf_addstrings junk sb s n) (sb_str sb @ concat (replicate n s)) \<and>
    yields (strbuf_addbuf junk sb sb2) (sb_str sb @ sb_str sb2) \<and>
    yields (strbuf_addch junk sb c) (sb_str sb @ [c]) \<and>
    yields (strbuf_addchars junk sb c n) (sb_str sb @ replicate n c) \<and>
    yields (strbuf_addf junk sb txt) (sb_str sb @ txt) \<and>
    yields (strbuf_complete junk sb c)
      (sb_str sb @ (if sb_str sb \<noteq> [] \<and> last (sb_str sb) \<noteq> c then [c] else [])) \<and>
    yields (strbuf_insert junk sb pos data) (take pos (sb_str sb) @ data @ drop pos (sb_str sb)) \<and>
    yields (strbuf_insertf junk sb pos txt) (take pos (sb_str sb) @ txt @ drop pos (sb_str sb))"
  using strbuf_splice_yields [of sb pos 0 junk data] pos ok(1)
  unfolding strbuf_insert_def strbuf_insertf_def
  by (intro conjI strbuf_add_yields strbuf_addstrings_yields strbuf_addbuf_yields strbuf_addch_yields
      strbuf_addchars_yields strbuf_addf_yields strbuf_complete_yields strbuf_vinsertf_yields ok tlen)
    simp_all

theorem strbuf_extend_refines_witness:
  "yields (strbuf_addf (\<lambda>_. 7) STRBUF_INIT [0x68, 0x69]) [0x68, 0x69] \<and>
   yields (strbuf_insertf (\<lambda>_. 7) (owned [0x61, 0x62, 0, 9] 2) 1 [0x78, 0x79]) [0x61, 0x78, 0x79, 0x62]"
  using strbuf_extend_refines [of STRBUF_INIT STRBUF_INIT "[0x68, 0x69]" 0 "\<lambda>_. 7" "[]" "[]" 0 0]
    strbuf_extend_refines [of "owned [0x61, 0x62, 0, 9] 2" STRBUF_INIT "[0x78, 0x79]" 1 "\<lambda>_. 7" "[]" "[]" 0 0]
  by (simp add: owned_ok owned_str)

text \<open>C27: The operations that shorten a string buffer never fail: trimming white space on the right, on
  the left and on both sides, trailing slashes and one line ending, lowering the case, and setting a
  smaller length leave a well-formed buffer with exactly the trimmed string, although the left trim
  moves the string inside its own block and an unallocated buffer shares a static byte.\<close>

theorem strbuf_shrink_refines:
  assumes "sb_ok sb"
  shows "gives (strbuf_rtrim sb) (strip_end isspace (sb_str sb)) \<and>
    gives (strbuf_ltrim sb) (dropWhile isspace (sb_str sb)) \<and>
    gives (strbuf_trim sb) (dropWhile isspace (strip_end isspace (sb_str sb))) \<and>
    gives (strbuf_trim_trailing_dir_sep sb) (strip_end git_is_dir_sep (sb_str sb)) \<and>
    gives (strbuf_trim_trailing_newline sb) (chomp (sb_str sb)) \<and>
    gives (strbuf_tolower sb) (map tolower (sb_str sb)) \<and>
    gives (strbuf_setlen sb (min len (sb_len sb))) (take len (sb_str sb))"
proof -
  have "take (min len (sb_len sb)) (sb_str sb) = take len (sb_str sb)"
    using sb_okD(3) [OF assms] by (metis take_all_iff take_take order_refl)
  then show ?thesis
    using assms strbuf_setlen_gives [OF assms, of "min len (sb_len sb)"]
    by (intro conjI strbuf_rtrim_gives strbuf_ltrim_gives strbuf_trim_gives
        strbuf_trim_trailing_dir_sep_gives strbuf_trim_trailing_newline_gives strbuf_tolower_gives) simp_all
qed

theorem strbuf_shrink_refines_witness:
  "gives (strbuf_trim (owned [0x20, 0x61, 0x0a, 0] 3)) [0x61]"
  using strbuf_shrink_refines [of "owned [0x20, 0x61, 0x0a, 0] 3" 0]
  by (simp add: owned_ok owned_str strip_end_def isspace_iff)

text \<open>\<^verbatim>\<open>strbuf_splice()\<close> replaces the selected bytes by the data: a selection that reaches past the end
  of the string dies without touching the buffer, any other one gives the string with the bytes
  replaced, whether the buffer grows, shrinks or keeps its size.\<close>

lemma strbuf_splice_branches:
  assumes "sb_ok sb" "pos + len < 2 ^ 64"
  shows "if pos + len > sb_len sb then strbuf_splice junk sb pos len data = Inl Died
    else yields (strbuf_splice junk sb pos len data)
           (take pos (sb_str sb) @ data @ drop (pos + len) (sb_str sb))"
  using assms strbuf_splice_yields strbuf_splice_dies by simp

text \<open>\<^verbatim>\<open>strbuf_cmp()\<close> orders buffers by the unsigned lexicographic order of their strings, embedded
  NUL bytes included.\<close>

lemma strbuf_cmp_lexicographic:
  assumes "sb_ok a" "sb_ok b"
  shows "strbuf_cmp a b =
    Inr (if sb_str a = sb_str b then 0 else if (sb_str a, sb_str b) \<in> lexord {(x, y). x < y} then - 1 else 1)"
  using strbuf_cmp_eq [OF assms] by (simp add: str_order_def)

end
