(* ===== verification/Git_Strbuf_Text.thy ===== *)
theory Git_Strbuf_Text
  imports Git_Strbuf Git_Hex
begin

unbundle bit_operations_syntax

section \<open>Text built in string buffers: strbuf.c\<close>

text \<open>
  The parts of \<^verbatim>\<open>strbuf.c\<close> above the buffer itself: splitting and joining, line prefixes, placeholder
  and percent expansion, quoting, reading lines from a stream, and white space clean-up.  A stream is
  the bytes still to be read and its end-of-file flag; \<^verbatim>\<open>strbuf_getwholeline()\<close> is the variant that
  reads characters (\<^verbatim>\<open>HAVE_GETDELIM\<close> unset).  A formatted append takes the formatted text.
\<close>

fun memchr :: "byte list \<Rightarrow> byte \<Rightarrow> nat option" where
  "memchr [] c = None"
| "memchr (b # bs) c = (if b = c then Some 0 else map_option Suc (memchr bs c))"

subsection \<open>Splitting and joining\<close>

lemma memchr_bound: "memchr s c = Some k \<Longrightarrow> k < length s"
  by (induction s arbitrary: k) (auto split: if_splits)

text \<open>
  The length of the next piece: through the terminator, unless this is the last piece allowed.  The
  code keeps it in an \<^verbatim>\<open>int\<close>.  A negative value is a request for memory that \<^verbatim>\<open>xrealloc()\<close> cannot
  serve, and with the value 0 the loop allocates pieces until memory runs out: both end the process.
\<close>

definition split_len :: "byte list \<Rightarrow> byte \<Rightarrow> int \<Rightarrow> nat \<Rightarrow> int" where
  "split_len str terminator max_nr nr =
     signed_take_bit 31 (int
       (if max_nr \<le> 0 \<or> int nr + 1 < max_nr then
          (case memchr str terminator of Some k \<Rightarrow> k + 1 | None \<Rightarrow> length str)
        else length str))"

function strbuf_split_loop ::
  "(nat \<Rightarrow> byte) \<Rightarrow> byte list \<Rightarrow> byte \<Rightarrow> int \<Rightarrow> strbuf list \<Rightarrow> strbuf list result" where
  "strbuf_split_loop junk str terminator max_nr ret =
     (if str = [] then Inr ret
      else let len = split_len str terminator max_nr (length ret) in
           if len \<le> 0 then Inl Died
           else rbind (strbuf_init junk (nat len)) (\<lambda>t.
                rbind (strbuf_add junk t (take (nat len) str)) (\<lambda>t.
                  strbuf_split_loop junk (drop (nat len) str) terminator max_nr (ret @ [t]))))"
  by auto
termination by (relation "measure (\<lambda>(_, str, _). length str)") auto

declare strbuf_split_loop.simps [simp del]

definition strbuf_split_buf :: "(nat \<Rightarrow> byte) \<Rightarrow> byte list \<Rightarrow> byte \<Rightarrow> int \<Rightarrow> strbuf list result" where
  "strbuf_split_buf junk str terminator max_nr = strbuf_split_loop junk str terminator max_nr []"

definition strbuf_split_str :: "(nat \<Rightarrow> byte) \<Rightarrow> cstring \<Rightarrow> byte \<Rightarrow> int \<Rightarrow> strbuf list result" where
  "strbuf_split_str junk str terminator max_nr = strbuf_split_buf junk str terminator max_nr"

definition strbuf_split_max :: "(nat \<Rightarrow> byte) \<Rightarrow> strbuf \<Rightarrow> byte \<Rightarrow> int \<Rightarrow> strbuf list result" where
  "strbuf_split_max junk sb terminator max_nr =
     rbind (slice (sb_buf sb) 0 (sb_len sb)) (\<lambda>str. strbuf_split_buf junk str terminator max_nr)"

definition strbuf_split :: "(nat \<Rightarrow> byte) \<Rightarrow> strbuf \<Rightarrow> byte \<Rightarrow> strbuf list result" where
  "strbuf_split junk sb terminator = strbuf_split_max junk sb terminator 0"

fun separated_loop :: "(nat \<Rightarrow> byte) \<Rightarrow> strbuf \<Rightarrow> cstring \<Rightarrow> bool \<Rightarrow> cstring list \<Rightarrow> strbuf result" where
  "separated_loop junk str sep sep_needed [] = Inr str"
| "separated_loop junk str sep sep_needed (item # items) =
     rbind (if sep_needed then strbuf_addstr junk str sep else Inr str) (\<lambda>str.
     rbind (strbuf_addstr junk str item) (\<lambda>str. separated_loop junk str sep True items))"

definition strbuf_add_separated_string_list ::
  "(nat \<Rightarrow> byte) \<Rightarrow> strbuf \<Rightarrow> cstring \<Rightarrow> cstring list \<Rightarrow> strbuf result" where
  "strbuf_add_separated_string_list junk str sep slist = separated_loop junk str sep False slist"

fun join_argv_loop :: "(nat \<Rightarrow> byte) \<Rightarrow> strbuf \<Rightarrow> cstring list \<Rightarrow> byte \<Rightarrow> strbuf result" where
  "join_argv_loop junk buf [] delim = Inr buf"
| "join_argv_loop junk buf (a # argv) delim =
     rbind (strbuf_addch junk buf delim) (\<lambda>buf.
     rbind (strbuf_addstr junk buf a) (\<lambda>buf. join_argv_loop junk buf argv delim))"

definition strbuf_join_argv :: "(nat \<Rightarrow> byte) \<Rightarrow> strbuf \<Rightarrow> cstring list \<Rightarrow> byte \<Rightarrow> strbuf result" where
  "strbuf_join_argv junk buf argv delim =
     (case argv of [] \<Rightarrow> Inr buf
      | a # rest \<Rightarrow> rbind (strbuf_addstr junk buf a) (\<lambda>buf. join_argv_loop junk buf rest delim))"

subsection \<open>Lines\<close>

definition line_len :: "byte list \<Rightarrow> nat" where
  "line_len buf = (case memchr buf 0x0a of Some k \<Rightarrow> k + 1 | None \<Rightarrow> length buf)"

lemma line_len_bounds: "line_len buf \<le> length buf" "buf \<noteq> [] \<Longrightarrow> 0 < line_len buf"
  by (auto simp: line_len_def Suc_le_eq dest: memchr_bound split: option.splits)

function add_lines_loop :: "(nat \<Rightarrow> byte) \<Rightarrow> strbuf \<Rightarrow> cstring \<Rightarrow> byte list \<Rightarrow> bool \<Rightarrow> strbuf result" where
  "add_lines_loop junk out prefix buf space_after_prefix =
     (if buf = [] then Inr out
      else let n = line_len buf in
           rbind (strbuf_addstr junk out prefix) (\<lambda>out.
           rbind (if space_after_prefix \<and> buf ! 0 \<noteq> 0x0a \<and> buf ! 0 \<noteq> 0x09
                  then strbuf_addch junk out 0x20 else Inr out) (\<lambda>out.
           rbind (strbuf_add junk out (take n buf)) (\<lambda>out.
             add_lines_loop junk out prefix (drop n buf) space_after_prefix))))"
  by auto
termination by (relation "measure (\<lambda>(_, _, _, buf, _). length buf)") (auto simp: line_len_bounds)

declare add_lines_loop.simps [simp del]

definition add_lines :: "(nat \<Rightarrow> byte) \<Rightarrow> strbuf \<Rightarrow> cstring \<Rightarrow> byte list \<Rightarrow> bool \<Rightarrow> strbuf result" where
  "add_lines junk out prefix buf space_after_prefix =
     rbind (add_lines_loop junk out prefix buf space_after_prefix) (strbuf_complete_line junk)"

definition strbuf_add_lines :: "(nat \<Rightarrow> byte) \<Rightarrow> strbuf \<Rightarrow> cstring \<Rightarrow> byte list \<Rightarrow> strbuf result" where
  "strbuf_add_lines junk out prefix buf = add_lines junk out prefix buf False"

definition strbuf_add_commented_lines :: "(nat \<Rightarrow> byte) \<Rightarrow> strbuf \<Rightarrow> byte list \<Rightarrow> cstring \<Rightarrow> strbuf result" where
  "strbuf_add_commented_lines junk out buf comment_prefix = add_lines junk out comment_prefix buf True"

definition strbuf_commented_addf :: "(nat \<Rightarrow> byte) \<Rightarrow> strbuf \<Rightarrow> cstring \<Rightarrow> byte list \<Rightarrow> strbuf result" where
  "strbuf_commented_addf junk sb comment_prefix txt =
     rbind (if sb_len sb \<noteq> 0 then rbind (rd (sb_buf sb) (sb_len sb - 1)) (\<lambda>c. Inr (c \<noteq> 0x0a))
            else Inr False) (\<lambda>incomplete_line.
     rbind (strbuf_vaddf junk STRBUF_INIT txt) (\<lambda>buf.
     rbind (slice (sb_buf buf) 0 (sb_len buf)) (\<lambda>text.
     rbind (strbuf_add_commented_lines junk sb text comment_prefix) (\<lambda>sb.
       if incomplete_line then put_nul (sb\<lparr>sb_len := sb_len sb - 1\<rparr>) else Inr sb))))"

subsection \<open>Expansion and quoting\<close>

text \<open>The result of \<^verbatim>\<open>strbuf_expand_step()\<close>: the buffer and, when it returns 1, the new format
  pointer.\<close>

definition strbuf_expand_step :: "(nat \<Rightarrow> byte) \<Rightarrow> strbuf \<Rightarrow> cstring \<Rightarrow> (strbuf \<times> cstring option) result" where
  "strbuf_expand_step junk sb format =
     (let percent = dropWhile (\<lambda>c. c \<noteq> 0x25) format in
      rbind (strbuf_add junk sb (take (length format - length percent) format)) (\<lambda>sb.
        if percent = [] then Inr (sb, None) else Inr (sb, Some (tl percent))))"

definition strbuf_expand_literal :: "(nat \<Rightarrow> byte) \<Rightarrow> strbuf \<Rightarrow> cstring \<Rightarrow> (nat \<times> strbuf) result" where
  "strbuf_expand_literal junk sb placeholder =
     (if chr placeholder = 0x6e then
        rbind (strbuf_addch junk sb 0x0a) (\<lambda>sb. Inr (1, sb))
      else if chr placeholder = 0x78 then
        rbind (hex2chr (tl placeholder @ [0])) (\<lambda>ch.
          if sint ch < 0 then Inr (0, sb)
          else rbind (strbuf_addch junk sb (ucast ch)) (\<lambda>sb. Inr (3, sb)))
      else Inr (0, sb))"

fun percentquote_loop :: "(nat \<Rightarrow> byte) \<Rightarrow> strbuf \<Rightarrow> byte list \<Rightarrow> strbuf result" where
  "percentquote_loop junk dst [] = Inr dst"
| "percentquote_loop junk dst (c # src) =
     rbind (if c = 0x25 then strbuf_addch junk dst 0x25 else Inr dst) (\<lambda>dst.
     rbind (strbuf_addch junk dst c) (\<lambda>dst. percentquote_loop junk dst src))"

definition strbuf_addbuf_percentquote :: "(nat \<Rightarrow> byte) \<Rightarrow> strbuf \<Rightarrow> strbuf \<Rightarrow> strbuf result" where
  "strbuf_addbuf_percentquote junk dst src =
     rbind (slice (sb_buf src) 0 (sb_len src)) (percentquote_loop junk dst)"

definition STRBUF_ENCODE_SLASH :: u32 where "STRBUF_ENCODE_SLASH = 1"
definition STRBUF_ENCODE_HOST_AND_PORT :: u32 where "STRBUF_ENCODE_HOST_AND_PORT = 2"

definition URL_UNSAFE_CHARS :: cstring where
  "URL_UNSAFE_CHARS =
     [0x20, 0x3c, 0x3e, 0x22, 0x25, 0x7b, 0x7d, 0x7c, 0x5c, 0x5e, 0x60, 0x3a, 0x3f, 0x23, 0x5b, 0x5d, 0x40,
      0x21, 0x24, 0x26, 0x27, 0x28, 0x29, 0x2a, 0x2b, 0x2c, 0x3b, 0x3d]"

text \<open>The digits of the formats \<^verbatim>\<open>%02X\<close> and \<^verbatim>\<open>%02x\<close>.\<close>

definition hex_digit :: "bool \<Rightarrow> byte \<Rightarrow> byte" where
  "hex_digit upper d = (if d < 10 then 0x30 + d else if upper then 0x37 + d else 0x57 + d)"

definition percent_hex :: "bool \<Rightarrow> byte \<Rightarrow> byte list" where
  "percent_hex upper ch = [0x25, hex_digit upper (drop_bit 4 ch), hex_digit upper (ch AND 0xf)]"

definition must_encode :: "u32 \<Rightarrow> byte \<Rightarrow> bool" where
  "must_encode flags ch \<longleftrightarrow>
     ch \<le> 0x1F \<or> ch \<ge> 0x7F \<or>
     ch = 0x2f \<and> flags AND STRBUF_ENCODE_SLASH \<noteq> 0 \<or>
     (if flags AND STRBUF_ENCODE_HOST_AND_PORT \<noteq> 0
      then \<not> isalnum ch \<and> ch \<notin> set [0x2d, 0x2e, 0x3a, 0x5b, 0x5d]
      else ch \<in> set URL_UNSAFE_CHARS)"

fun strbuf_add_percentencode :: "(nat \<Rightarrow> byte) \<Rightarrow> strbuf \<Rightarrow> cstring \<Rightarrow> u32 \<Rightarrow> strbuf result" where
  "strbuf_add_percentencode junk dst [] flags = Inr dst"
| "strbuf_add_percentencode junk dst (ch # src) flags =
     rbind (if must_encode flags ch then strbuf_addf junk dst (percent_hex True ch)
            else strbuf_addch junk dst ch) (\<lambda>dst.
       strbuf_add_percentencode junk dst src flags)"

definition xml_special :: "byte list" where "xml_special = [0x22, 0x3c, 0x3e, 0x26]"

definition xml_entity :: "byte \<Rightarrow> byte list" where
  "xml_entity c =
     (if c = 0x22 then map of_char ''&quot;''
      else if c = 0x3c then map of_char ''&lt;''
      else if c = 0x3e then map of_char ''&gt;''
      else if c = 0x26 then map of_char ''&amp;'' else [])"

function strbuf_addstr_xml_quoted :: "(nat \<Rightarrow> byte) \<Rightarrow> strbuf \<Rightarrow> cstring \<Rightarrow> strbuf result" where
  "strbuf_addstr_xml_quoted junk buf s =
     (if s = [] then Inr buf
      else let len = length (takeWhile (\<lambda>c. c \<notin> set xml_special) s) in
           rbind (strbuf_add junk buf (take len s)) (\<lambda>buf.
             let s' = drop len s in
             if s' = [] then Inr buf
             else rbind (strbuf_addstr junk buf (xml_entity (hd s'))) (\<lambda>buf.
                    strbuf_addstr_xml_quoted junk buf (tl s'))))"
  by auto
termination by (relation "measure (\<lambda>(_, _, s). length s)") auto

declare strbuf_addstr_xml_quoted.simps [simp del]

fun urlencode_loop :: "(nat \<Rightarrow> byte) \<Rightarrow> strbuf \<Rightarrow> byte list \<Rightarrow> (byte \<Rightarrow> bool) \<Rightarrow> strbuf result" where
  "urlencode_loop junk sb [] allow_unencoded_fn = Inr sb"
| "urlencode_loop junk sb (ch # s) allow_unencoded_fn =
     rbind (if allow_unencoded_fn ch then strbuf_addch junk sb ch
            else strbuf_addf junk sb (percent_hex False ch)) (\<lambda>sb.
       urlencode_loop junk sb s allow_unencoded_fn)"

definition strbuf_add_urlencode ::
  "(nat \<Rightarrow> byte) \<Rightarrow> strbuf \<Rightarrow> byte list \<Rightarrow> (byte \<Rightarrow> bool) \<Rightarrow> strbuf result" where
  "strbuf_add_urlencode junk sb s allow_unencoded_fn =
     rbind (strbuf_grow junk sb (length s)) (\<lambda>sb. urlencode_loop junk sb s allow_unencoded_fn)"

definition strbuf_addstr_urlencode ::
  "(nat \<Rightarrow> byte) \<Rightarrow> strbuf \<Rightarrow> cstring \<Rightarrow> (byte \<Rightarrow> bool) \<Rightarrow> strbuf result" where
  "strbuf_addstr_urlencode junk sb s allow_unencoded_fn = strbuf_add_urlencode junk sb s allow_unencoded_fn"

text \<open>\<^verbatim>\<open>xmallocz(len)\<close> is a block of \<^verbatim>\<open>len\<close> bytes and a NUL; the loops fill it.\<close>

definition xstrdup_tolower :: "cstring \<Rightarrow> byte list" where
  "xstrdup_tolower str = map tolower str @ [0]"

definition xstrdup_toupper :: "cstring \<Rightarrow> byte list" where
  "xstrdup_toupper str = map toupper str @ [0]"

subsection \<open>Reading lines\<close>

record stream =
  f_data :: "byte list"
  f_eof :: bool

definition EOF :: int where "EOF = - 1"

text \<open>The loop of \<^verbatim>\<open>strbuf_getwholeline()\<close>: the buffer, the unread bytes, and whether it met the end.\<close>

fun getwholeline_loop ::
  "(nat \<Rightarrow> byte) \<Rightarrow> strbuf \<Rightarrow> byte list \<Rightarrow> byte \<Rightarrow> (strbuf \<times> byte list \<times> bool) result" where
  "getwholeline_loop junk sb [] term = Inr (sb, [], True)"
| "getwholeline_loop junk sb (ch # data) term =
     rbind (if strbuf_avail sb = 0 then strbuf_grow junk sb 1 else Inr sb) (\<lambda>sb.
     rbind (wr (sb_buf sb) (sb_len sb) ch) (\<lambda>mem.
     let sb = sb\<lparr>sb_buf := mem, sb_len := sb_len sb + 1\<rparr> in
     if ch = term then Inr (sb, data, False)
     else getwholeline_loop junk sb data term))"

definition strbuf_getwholeline ::
  "(nat \<Rightarrow> byte) \<Rightarrow> strbuf \<Rightarrow> stream \<Rightarrow> byte \<Rightarrow> (int \<times> strbuf \<times> stream) result" where
  "strbuf_getwholeline junk sb fp term =
     (if f_eof fp then Inr (EOF, sb, fp)
      else rbind (strbuf_reset sb) (\<lambda>sb.
           rbind (getwholeline_loop junk sb (f_data fp) term) (\<lambda>(sb, data, eof).
           let fp = \<lparr>f_data = data, f_eof = eof\<rparr> in
           if eof \<and> sb_len sb = 0 then Inr (EOF, sb, fp)
           else rbind (put_nul sb) (\<lambda>sb. Inr (0, sb, fp)))))"

definition strbuf_appendwholeline ::
  "(nat \<Rightarrow> byte) \<Rightarrow> strbuf \<Rightarrow> stream \<Rightarrow> byte \<Rightarrow> (int \<times> strbuf \<times> stream) result" where
  "strbuf_appendwholeline junk sb fp term =
     rbind (strbuf_getwholeline junk STRBUF_INIT fp term) (\<lambda>(ret, line, fp).
       if ret \<noteq> 0 then rbind (strbuf_release junk line) (\<lambda>_. Inr (EOF, sb, fp))
       else rbind (strbuf_addbuf junk sb line) (\<lambda>sb.
            rbind (strbuf_release junk line) (\<lambda>_. Inr (0, sb, fp))))"

definition strbuf_getdelim ::
  "(nat \<Rightarrow> byte) \<Rightarrow> strbuf \<Rightarrow> stream \<Rightarrow> byte \<Rightarrow> (int \<times> strbuf \<times> stream) result" where
  "strbuf_getdelim junk sb fp term =
     rbind (strbuf_getwholeline junk sb fp term) (\<lambda>(ret, sb, fp).
       if ret \<noteq> 0 then Inr (EOF, sb, fp)
       else rbind (rd (sb_buf sb) (sb_len sb - 1)) (\<lambda>c.
            rbind (if c = term then strbuf_setlen sb (sb_len sb - 1) else Inr sb) (\<lambda>sb.
              Inr (0, sb, fp))))"

definition strbuf_getdelim_strip_crlf ::
  "(nat \<Rightarrow> byte) \<Rightarrow> strbuf \<Rightarrow> stream \<Rightarrow> byte \<Rightarrow> (int \<times> strbuf \<times> stream) result" where
  "strbuf_getdelim_strip_crlf junk sb fp term =
     rbind (strbuf_getwholeline junk sb fp term) (\<lambda>(ret, sb, fp).
       if ret \<noteq> 0 then Inr (EOF, sb, fp)
       else rbind (rd (sb_buf sb) (sb_len sb - 1)) (\<lambda>c.
            if term = 0x0a \<and> c = 0x0a then
              rbind (strbuf_setlen sb (sb_len sb - 1)) (\<lambda>sb.
                if sb_len sb \<noteq> 0 then
                  rbind (rd (sb_buf sb) (sb_len sb - 1)) (\<lambda>c.
                  rbind (if c = 0x0d then strbuf_setlen sb (sb_len sb - 1) else Inr sb) (\<lambda>sb.
                    Inr (0, sb, fp)))
                else Inr (0, sb, fp))
            else Inr (0, sb, fp)))"

definition strbuf_getline :: "(nat \<Rightarrow> byte) \<Rightarrow> strbuf \<Rightarrow> stream \<Rightarrow> (int \<times> strbuf \<times> stream) result" where
  "strbuf_getline junk sb fp = strbuf_getdelim_strip_crlf junk sb fp 0x0a"

definition strbuf_getline_lf :: "(nat \<Rightarrow> byte) \<Rightarrow> strbuf \<Rightarrow> stream \<Rightarrow> (int \<times> strbuf \<times> stream) result" where
  "strbuf_getline_lf junk sb fp = strbuf_getdelim junk sb fp 0x0a"

definition strbuf_getline_nul :: "(nat \<Rightarrow> byte) \<Rightarrow> strbuf \<Rightarrow> stream \<Rightarrow> (int \<times> strbuf \<times> stream) result" where
  "strbuf_getline_nul junk sb fp = strbuf_getdelim junk sb fp 0"

subsection \<open>White space clean-up\<close>

definition cleanup :: "byte list \<Rightarrow> nat \<Rightarrow> nat result" where
  "cleanup line len = shrink_loop isspace line len"

text \<open>
  The loop of \<^verbatim>\<open>strbuf_stripspace()\<close> works in place: \<open>i\<close> is the read position, \<open>j\<close> the write position
  in the same block of \<open>n\<close> string bytes.
\<close>

function stripspace_loop ::
  "cstring option \<Rightarrow> nat \<Rightarrow> byte list \<Rightarrow> nat \<Rightarrow> nat \<Rightarrow> nat \<Rightarrow> (byte list \<times> nat) result" where
  "stripspace_loop comment_prefix n mem i j empties =
     (if \<not> i < n then Inr (mem, j)
      else rbind (slice mem i (n - i)) (\<lambda>rest.
        let len = line_len rest in
        if len = 0 then Inl No_fuel
        else if (case comment_prefix of None \<Rightarrow> False | Some p \<Rightarrow> starts_with (drop i mem) p)
        then stripspace_loop comment_prefix n mem (i + len) j empties
        else rbind (cleanup (drop i mem) len) (\<lambda>newlen.
          if newlen \<noteq> 0 then
            rbind (if empties > 0 \<and> j > 0 then rbind (wr mem j 0x0a) (\<lambda>mem. Inr (mem, j + 1))
                   else Inr (mem, j)) (\<lambda>(mem, j).
            rbind (memmove mem j i newlen) (\<lambda>mem.
            rbind (wr mem (newlen + j) 0x0a) (\<lambda>mem.
              stripspace_loop comment_prefix n mem (i + len) (j + 1 + newlen) 0)))
          else stripspace_loop comment_prefix n mem (i + len) j (empties + 1))))"
  by pat_completeness auto
termination by (relation "measure (\<lambda>(_, n, _, i, _). n - i)") auto

declare stripspace_loop.simps [simp del]

definition strbuf_stripspace :: "(nat \<Rightarrow> byte) \<Rightarrow> strbuf \<Rightarrow> cstring option \<Rightarrow> strbuf result" where
  "strbuf_stripspace junk sb comment_prefix =
     rbind (strbuf_grow junk sb 1) (\<lambda>sb.
     rbind (stripspace_loop comment_prefix (sb_len sb) (sb_buf sb) 0 0 0) (\<lambda>(mem, j).
       strbuf_setlen (sb\<lparr>sb_buf := mem\<rparr>) j))"

text \<open>The C string in the buffer ends at its first NUL; \<^verbatim>\<open>strrchr()\<close> finds the last slash in it.\<close>

definition strbuf_strip_file_from_path :: "strbuf \<Rightarrow> strbuf result" where
  "strbuf_strip_file_from_path sb =
     (let path = takeWhile (\<lambda>c. c \<noteq> 0) (sb_buf sb) in
      strbuf_setlen sb (if 0x2f \<in> set path then length (strip_end (\<lambda>c. c \<noteq> 0x2f) path) else 0))"

subsection \<open>Splitting and joining, as lists\<close>

fun sep_join :: "'a list \<Rightarrow> 'a list list \<Rightarrow> 'a list" where
  "sep_join sep [] = []"
| "sep_join sep [x] = x"
| "sep_join sep (x # y # xs) = x @ sep @ sep_join sep (y # xs)"

lemma sep_join_Cons: "sep_join sep (x # xs) = x @ concat (map (\<lambda>y. sep @ y) xs)"
  by (induction xs arbitrary: x) auto

text \<open>One step of a chain of appending operations.\<close>

lemma yields_step:
  assumes "yields r (sb_str sb @ s)" "\<And>sb'. sb_ok sb' \<Longrightarrow> yields (f sb') (sb_str sb' @ t)" "u = s @ t"
  shows "yields (rbind r f) (sb_str sb @ u)"
  using yields_append [OF assms(1,2)] assms(3) by simp

lemma yields_small: "yields r s \<Longrightarrow> length s + 65 < 2 ^ 64 \<Longrightarrow> gives r s"
  by (auto simp: yields_def gives_def split: sum.splits)

lemma yields_opt:
  assumes "sb_ok sb" "yields r (sb_str sb @ s)"
  shows "yields (if b then r else Inr sb) (sb_str sb @ (if b then s else []))"
  using assms by (simp add: yields_Inr)

lemma separated_loop_yields:
  "sb_ok str \<Longrightarrow> yields (separated_loop junk str sep True items) (sb_str str @ concat (map (\<lambda>y. sep @ y) items))"
proof (induction items arbitrary: str)
  case (Cons item items)
  have rest: "yields (rbind (strbuf_addstr junk sb item) (\<lambda>sb. separated_loop junk sb sep True items))
      (sb_str sb @ item @ concat (map (\<lambda>y. sep @ y) items))" if "sb_ok sb" for sb
    by (rule yields_step [OF strbuf_addstr_yields [OF that] Cons.IH]) simp_all
  show ?case
    using yields_step [OF strbuf_addstr_yields [OF Cons.prems] rest] by simp
qed (simp add: yields_Inr)

lemma strbuf_add_separated_string_list_yields:
  assumes "sb_ok str"
  shows "yields (strbuf_add_separated_string_list junk str sep slist) (sb_str str @ sep_join sep slist)"
proof (cases slist)
  case (Cons item items)
  then show ?thesis
    using yields_step [OF strbuf_addstr_yields [OF assms, of junk item] separated_loop_yields [of _ junk sep items]]
    by (simp add: strbuf_add_separated_string_list_def sep_join_Cons)
qed (simp add: strbuf_add_separated_string_list_def yields_Inr assms)

lemma join_argv_loop_yields:
  "sb_ok buf \<Longrightarrow> yields (join_argv_loop junk buf argv delim) (sb_str buf @ concat (map (\<lambda>y. [delim] @ y) argv))"
proof (induction argv arbitrary: buf)
  case (Cons a argv)
  have rest: "yields (rbind (strbuf_addstr junk sb a) (\<lambda>sb. join_argv_loop junk sb argv delim))
      (sb_str sb @ a @ concat (map (\<lambda>y. [delim] @ y) argv))" if "sb_ok sb" for sb
    by (rule yields_step [OF strbuf_addstr_yields [OF that] Cons.IH]) simp_all
  show ?case
    using yields_step [OF strbuf_addch_yields [OF Cons.prems] rest] by simp
qed (simp add: yields_Inr)

lemma strbuf_join_argv_yields:
  assumes "sb_ok buf"
  shows "yields (strbuf_join_argv junk buf argv delim) (sb_str buf @ sep_join [delim] argv)"
proof (cases argv)
  case (Cons a rest)
  then show ?thesis
    using yields_step [OF strbuf_addstr_yields [OF assms, of junk a] join_argv_loop_yields [of _ junk rest delim]]
    by (simp add: strbuf_join_argv_def sep_join_Cons)
qed (simp add: strbuf_join_argv_def yields_Inr assms)

text \<open>The pieces of a string, each through its terminator.\<close>

function pieces :: "byte \<Rightarrow> byte list \<Rightarrow> byte list list" where
  "pieces c s =
     (if s = [] then []
      else let n = (case memchr s c of Some k \<Rightarrow> k + 1 | None \<Rightarrow> length s) in
           take n s # pieces c (drop n s))"
  by auto
termination by (relation "measure (\<lambda>(_, s). length s)") (auto split: option.splits)

declare pieces.simps [simp del]

lemma concat_pieces [simp]: "concat (pieces c s) = s"
  by (induction c s rule: pieces.induct) (subst pieces.simps, simp add: Let_def)

lemma memchr_None: "memchr s c = None \<longleftrightarrow> c \<notin> set s"
  by (induction s) auto

lemma memchr_Some: "memchr s c = Some k \<longleftrightarrow> k < length s \<and> s ! k = c \<and> c \<notin> set (take k s)"
proof (induction s arbitrary: k)
  case (Cons b s)
  then show ?case by (cases k) auto
qed simp

lemma pieces_terminated:
  "l \<in> set (pieces c s) \<Longrightarrow> l \<noteq> [] \<and> c \<notin> set (butlast l)"
proof (induction c s rule: pieces.induct)
  case (1 c s)
  show ?case
  proof (cases "s = []")
    case True
    then show ?thesis using "1.prems" by (simp add: pieces.simps)
  next
    case False
    define n where "n = (case memchr s c of Some k \<Rightarrow> k + 1 | None \<Rightarrow> length s)"
    have first: "take n s \<noteq> [] \<and> c \<notin> set (butlast (take n s))"
    proof (cases "memchr s c")
      case None
      moreover have "c \<notin> set s" using None by (simp add: memchr_None)
      ultimately show ?thesis using False by (auto simp: n_def dest: in_set_butlastD)
    next
      case (Some k)
      then have "n = Suc k" by (simp add: n_def)
      moreover have "k < length s" "c \<notin> set (take k s)" using Some by (simp_all add: memchr_Some)
      ultimately show ?thesis using False by (simp add: butlast_take)
    qed
    from "1.prems" False have "l = take n s \<or> l \<in> set (pieces c (drop n s))"
      by (subst (asm) pieces.simps) (simp add: n_def Let_def)
    then show ?thesis using first "1.IH" [OF False n_def] by (elim disjE) simp_all
  qed
qed

lemma split_loop_ok:
  assumes "length str < 2 ^ 31"
  shows "\<exists>sbs. strbuf_split_loop junk str c max_nr ret = Inr (ret @ sbs) \<and> list_all sb_ok sbs \<and>
    concat (map sb_str sbs) = str \<and> (max_nr \<le> 0 \<longrightarrow> map sb_str sbs = pieces c str)"
  using assms
proof (induction junk str c max_nr ret rule: strbuf_split_loop.induct)
  case (1 junk str c max_nr ret)
  show ?case
  proof (cases "str = []")
    case True
    then show ?thesis by (simp add: strbuf_split_loop.simps pieces.simps)
  next
    case False
    define m where "m = (if max_nr \<le> 0 \<or> int (length ret) + 1 < max_nr then
        (case memchr str c of Some k \<Rightarrow> k + 1 | None \<Rightarrow> length str) else length str)"
    have m: "m \<le> length str" "0 < m"
      using False by (auto simp: m_def Suc_le_eq dest: memchr_bound split: option.splits)
    have len: "split_len str c max_nr (length ret) = int m"
      using m(1) "1.prems" by (simp add: split_len_def m_def [symmetric] signed_take_bit_int_eq_self)
    obtain t where t: "strbuf_init junk m = Inr t" "sb_ok t" "sb_str t = []"
      using strbuf_init_yields [where junk = junk and hint = m] m(1) "1.prems" by (auto split: sum.splits)
    have "length (sb_str t @ take m str) + 65 < 2 ^ 64" using t(3) "1.prems" by simp
    then obtain t' where t': "strbuf_add junk t (take m str) = Inr t'" "sb_ok t'" "sb_str t' = take m str"
      using yields_small [OF strbuf_add_yields [OF t(2), of junk "take m str"]] t(3) by (auto elim: givesE)
    have "length (drop m str) < 2 ^ 31" using "1.prems" by simp
    then obtain sbs where rest: "strbuf_split_loop junk (drop m str) c max_nr (ret @ [t']) = Inr ((ret @ [t']) @ sbs)"
        "list_all sb_ok sbs" "concat (map sb_str sbs) = drop m str"
        "max_nr \<le> 0 \<longrightarrow> map sb_str sbs = pieces c (drop m str)"
      using "1.IH" [OF False refl, of t t'] m len t t' by auto
    have step: "strbuf_split_loop junk str c max_nr ret = Inr (ret @ t' # sbs)"
      using False m(2) rest(1) t t' by (subst strbuf_split_loop.simps) (simp add: len)
    have "max_nr \<le> 0 \<longrightarrow> pieces c str = take m str # pieces c (drop m str)"
      using False by (subst pieces.simps) (simp add: m_def Let_def)
    with step rest t' show ?thesis by (intro exI [of _ "t' # sbs"]) simp
  qed
qed

subsection \<open>Lines and quoting, as lists\<close>

definition prefix_line :: "cstring \<Rightarrow> bool \<Rightarrow> byte list \<Rightarrow> byte list" where
  "prefix_line prefix space l = prefix @ (if space \<and> hd l \<noteq> 0x0a \<and> hd l \<noteq> 0x09 then [0x20] else []) @ l"

lemma add_lines_loop_yields:
  "sb_ok out \<Longrightarrow>
   yields (add_lines_loop junk out prefix buf space)
     (sb_str out @ concat (map (prefix_line prefix space) (pieces 0x0a buf)))"
proof (induction "length buf" arbitrary: buf out rule: less_induct)
  case less
  show ?case
  proof (cases "buf = []")
    case True
    then show ?thesis using less.prems by (simp add: add_lines_loop.simps pieces.simps yields_Inr)
  next
    case False
    define n where "n = line_len buf"
    have n: "0 < n" "n \<le> length buf" using line_len_bounds [of buf] False by (simp_all add: n_def)
    define t where "t = concat (map (prefix_line prefix space) (pieces 0x0a (drop n buf)))"
    define sp :: "byte list" where
      "sp = (if space \<and> buf ! 0 \<noteq> 0x0a \<and> buf ! 0 \<noteq> 0x09 then [0x20] else [])"
    have IH: "yields (add_lines_loop junk sb prefix (drop n buf) space) (sb_str sb @ t)" if "sb_ok sb" for sb
      using less.hyps [OF _ that] n False by (simp add: t_def)
    have three: "yields (rbind (strbuf_add junk sb (take n buf)) (\<lambda>sb. add_lines_loop junk sb prefix (drop n buf) space))
        (sb_str sb @ take n buf @ t)" if "sb_ok sb" for sb
      by (rule yields_step [OF strbuf_add_yields [OF that] IH]) simp_all
    have two: "yields (rbind (if space \<and> buf ! 0 \<noteq> 0x0a \<and> buf ! 0 \<noteq> 0x09 then strbuf_addch junk sb 0x20 else Inr sb)
          (\<lambda>sb. rbind (strbuf_add junk sb (take n buf)) (\<lambda>sb. add_lines_loop junk sb prefix (drop n buf) space)))
        (sb_str sb @ sp @ take n buf @ t)" if "sb_ok sb" for sb
      by (rule yields_step [OF yields_opt [OF that strbuf_addch_yields [OF that]] three]) (simp_all add: sp_def)
    have "pieces 0x0a buf = take n buf # pieces 0x0a (drop n buf)"
      using False by (subst pieces.simps) (simp add: n_def line_len_def Let_def)
    moreover have "hd (take n buf) = buf ! 0" using n False by (simp add: hd_conv_nth)
    ultimately have "concat (map (prefix_line prefix space) (pieces 0x0a buf)) = prefix @ sp @ take n buf @ t"
      by (simp add: prefix_line_def sp_def t_def)
    moreover have "yields (add_lines_loop junk out prefix buf space) (sb_str out @ prefix @ sp @ take n buf @ t)"
      using False yields_step [OF strbuf_addstr_yields [OF less.prems] two]
      by (subst add_lines_loop.simps) (simp add: n_def [symmetric])
    ultimately show ?thesis by simp
  qed
qed

definition complete_line :: "byte list \<Rightarrow> byte list" where
  "complete_line s = s @ (if s \<noteq> [] \<and> last s \<noteq> 0x0a then [0x0a] else [])"

lemma add_lines_yields:
  assumes "sb_ok out"
  shows "yields (add_lines junk out prefix buf space)
    (complete_line (sb_str out @ concat (map (prefix_line prefix space) (pieces 0x0a buf))))"
  unfolding add_lines_def
proof (rule yields_bind [OF add_lines_loop_yields [OF assms]])
  fix sb
  assume "sb_ok sb" "sb_str sb = sb_str out @ concat (map (prefix_line prefix space) (pieces 0x0a buf))"
  then show "yields (strbuf_complete_line junk sb)
      (complete_line (sb_str out @ concat (map (prefix_line prefix space) (pieces 0x0a buf))))"
    using strbuf_complete_line_yields [of sb junk] by (simp add: complete_line_def)
qed (simp add: complete_line_def)

text \<open>A loop that appends the image of each byte.\<close>

lemma yields_char_loop:
  assumes "\<And>sb. loop sb [] = Inr sb"
    and "\<And>sb c s. loop sb (c # s) = rbind (emit sb c) (\<lambda>sb. loop sb s)"
    and "\<And>sb c. sb_ok sb \<Longrightarrow> yields (emit sb c) (sb_str sb @ f c)"
    and "sb_ok sb"
  shows "yields (loop sb s) (sb_str sb @ concat (map f s))"
  using assms(4)
proof (induction s arbitrary: sb)
  case (Cons c s)
  show ?case
    using yields_step [OF assms(3) [OF Cons.prems] Cons.IH] by (simp add: assms(2))
qed (simp add: assms(1) yields_Inr)

definition percent_encode :: "u32 \<Rightarrow> byte \<Rightarrow> byte list" where
  "percent_encode flags c = (if must_encode flags c then percent_hex True c else [c])"

lemma strbuf_add_percentencode_yields:
  assumes "sb_ok dst"
  shows "yields (strbuf_add_percentencode junk dst src flags) (sb_str dst @ concat (map (percent_encode flags) src))"
proof (rule yields_char_loop [where loop = "\<lambda>dst src. strbuf_add_percentencode junk dst src flags"
      and emit = "\<lambda>dst ch. if must_encode flags ch then strbuf_addf junk dst (percent_hex True ch)
            else strbuf_addch junk dst ch"])
  fix sb c
  assume "sb_ok sb"
  then show "yields (if must_encode flags c then strbuf_addf junk sb (percent_hex True c) else strbuf_addch junk sb c)
      (sb_str sb @ percent_encode flags c)"
    by (simp add: percent_encode_def strbuf_addch_yields strbuf_addf_yields percent_hex_def)
qed (simp_all add: assms)

lemma percentquote_loop_yields:
  assumes "sb_ok dst"
  shows "yields (percentquote_loop junk dst src)
    (sb_str dst @ concat (map (\<lambda>c. if c = 0x25 then [0x25, 0x25] else [c]) src))"
proof (rule yields_char_loop [where
      emit = "\<lambda>dst c. rbind (if c = 0x25 then strbuf_addch junk dst 0x25 else Inr dst) (\<lambda>dst. strbuf_addch junk dst c)"])
  fix sb c
  assume ok: "sb_ok sb"
  show "yields (rbind (if c = 0x25 then strbuf_addch junk sb 0x25 else Inr sb) (\<lambda>dst. strbuf_addch junk dst c))
      (sb_str sb @ (if c = 0x25 then [0x25, 0x25] else [c]))"
    by (rule yields_step [OF yields_opt [OF ok strbuf_addch_yields [OF ok]] strbuf_addch_yields]) auto
qed (simp_all add: assms rbind_assoc)

lemma strbuf_addbuf_percentquote_yields:
  assumes "sb_ok dst" "sb_ok src"
  shows "yields (strbuf_addbuf_percentquote junk dst src)
    (sb_str dst @ concat (map (\<lambda>c. if c = 0x25 then [0x25, 0x25] else [c]) (sb_str src)))"
proof -
  have "slice (sb_buf src) 0 (sb_len src) = Inr (sb_str src)"
    using sb_okD(1) [OF assms(2)] by (simp add: sb_str_def)
  then show ?thesis
    using percentquote_loop_yields [OF assms(1)] by (simp add: strbuf_addbuf_percentquote_def)
qed

lemma urlencode_loop_yields:
  assumes "sb_ok sb"
  shows "yields (urlencode_loop junk sb s allow) (sb_str sb @ concat (map (\<lambda>c. if allow c then [c] else percent_hex False c) s))"
proof (rule yields_char_loop [where loop = "\<lambda>sb s. urlencode_loop junk sb s allow"
      and emit = "\<lambda>sb ch. if allow ch then strbuf_addch junk sb ch else strbuf_addf junk sb (percent_hex False ch)"])
  fix sb c
  assume "sb_ok sb"
  then show "yields (if allow c then strbuf_addch junk sb c else strbuf_addf junk sb (percent_hex False c))
      (sb_str sb @ (if allow c then [c] else percent_hex False c))"
    by (simp add: strbuf_addch_yields strbuf_addf_yields percent_hex_def)
qed (simp_all add: assms)

lemma length_concat_ge:
  assumes "\<And>x. 1 \<le> length (f x)"
  shows "length s \<le> length (concat (map f s))"
proof (induction s)
  case (Cons a s)
  then show ?case using assms [of a] by simp
qed simp

lemma strbuf_addstr_urlencode_yields:
  assumes ok: "sb_ok sb"
  shows "yields (strbuf_addstr_urlencode junk sb s allow)
    (sb_str sb @ concat (map (\<lambda>c. if allow c then [c] else percent_hex False c) s))"
  using ok
proof (cases rule: strbuf_grow_cases [where junk = junk and extra = "length s"])
  case died
  have "length s \<le> length (concat (map (\<lambda>c. if allow c then [c] else percent_hex False c) s))"
    by (rule length_concat_ge) (simp add: percent_hex_def)
  then show ?thesis
    using died sb_okD(3) [OF ok] unfolding yields_def
    by (simp add: strbuf_addstr_urlencode_def strbuf_add_urlencode_def)
next
  case (room mem)
  then show ?thesis
    using urlencode_loop_yields [of "owned mem (sb_len sb)" junk s allow]
    by (simp add: strbuf_addstr_urlencode_def strbuf_add_urlencode_def owned_ok owned_str)
qed

definition xml_char :: "byte \<Rightarrow> byte list" where
  "xml_char c = (if c \<in> set xml_special then xml_entity c else [c])"

lemma map_xml_plain: "\<forall>c\<in>set s. c \<notin> set xml_special \<Longrightarrow> concat (map xml_char s) = s"
  by (induction s) (auto simp: xml_char_def)

lemma strbuf_addstr_xml_quoted_yields:
  "sb_ok buf \<Longrightarrow> yields (strbuf_addstr_xml_quoted junk buf s) (sb_str buf @ concat (map xml_char s))"
proof (induction "length s" arbitrary: s buf rule: less_induct)
  case less
  define a b where "a = takeWhile (\<lambda>c. c \<notin> set xml_special) s" and "b = dropWhile (\<lambda>c. c \<notin> set xml_special) s"
  have s: "s = a @ b" by (simp add: a_def b_def)
  have a: "concat (map xml_char a) = a"
    by (rule map_xml_plain) (auto simp: a_def dest: set_takeWhileD)
  have len: "take (length a) s = a" "drop (length a) s = b" by (simp_all add: s)
  show ?case
  proof (cases b)
    case Nil
    then have sa: "s = a" using s by simp
    have "strbuf_addstr_xml_quoted junk buf s = (if s = [] then Inr buf else rbind (strbuf_add junk buf s) Inr)"
      by (subst strbuf_addstr_xml_quoted.simps) (simp add: sa [unfolded a_def, symmetric] Let_def)
    moreover have "rbind (strbuf_add junk buf s) Inr = strbuf_add junk buf s"
      by (cases "strbuf_add junk buf s") simp_all
    ultimately show ?thesis
      using less.prems strbuf_add_yields [OF less.prems, of junk s] a sa by (auto simp: yields_Inr)
  next
    case (Cons c b')
    have ne: "s \<noteq> []" and gt: "\<not> length s \<le> length a" using s Cons by simp_all
    have c: "c \<in> set xml_special" using Cons hd_dropWhile [of "\<lambda>c. c \<notin> set xml_special" s] by (simp add: b_def)
    have IH: "yields (strbuf_addstr_xml_quoted junk sb b') (sb_str sb @ concat (map xml_char b'))" if "sb_ok sb" for sb
      using less.hyps [OF _ that, of b'] s Cons by simp
    have two: "yields (rbind (strbuf_addstr junk sb (xml_entity c)) (\<lambda>sb. strbuf_addstr_xml_quoted junk sb b'))
        (sb_str sb @ xml_entity c @ concat (map xml_char b'))" if "sb_ok sb" for sb
      by (rule yields_step [OF strbuf_addstr_yields [OF that] IH]) simp_all
    have "yields (rbind (strbuf_add junk buf a)
        (\<lambda>sb. rbind (strbuf_addstr junk sb (xml_entity c)) (\<lambda>sb. strbuf_addstr_xml_quoted junk sb b')))
        (sb_str buf @ a @ xml_entity c @ concat (map xml_char b'))"
      by (rule yields_step [OF strbuf_add_yields [OF less.prems] two]) simp_all
    moreover have "concat (map xml_char s) = a @ xml_entity c @ concat (map xml_char b')"
      using a c by (simp add: s Cons xml_char_def)
    moreover have "strbuf_addstr_xml_quoted junk buf s = rbind (strbuf_add junk buf a)
        (\<lambda>sb. rbind (strbuf_addstr junk sb (xml_entity c)) (\<lambda>sb. strbuf_addstr_xml_quoted junk sb b'))"
      using Cons len ne by (subst strbuf_addstr_xml_quoted.simps) (simp add: a_def [symmetric] Let_def gt cong: if_cong)
    ultimately show ?thesis by simp
  qed
qed

subsection \<open>Reading lines, as lists\<close>

definition first_line :: "byte \<Rightarrow> byte list \<Rightarrow> byte list" where
  "first_line c data = takeWhile (\<lambda>x. x \<noteq> c) data @ (if c \<in> set data then [c] else [])"

definition after_line :: "byte \<Rightarrow> byte list \<Rightarrow> byte list" where
  "after_line c data = drop (length (first_line c data)) data"

lemma first_line_simps [simp]:
  "first_line c [] = []" "first_line c (x # xs) = (if x = c then [c] else x # first_line c xs)"
  "after_line c [] = []" "after_line c (x # xs) = (if x = c then xs else after_line c xs)"
  by (auto simp: first_line_def after_line_def)

lemma after_line_Nil: "c \<notin> set data \<Longrightarrow> after_line c data = []"
  by (induction data) auto

lemma first_after_line: "first_line c data @ after_line c data = data"
  by (induction data) auto

text \<open>
  While the loop runs the NUL is missing: the buffer either is the initial one or owns a block with
  at least one byte left behind the string.
\<close>

definition reading :: "strbuf \<Rightarrow> byte list \<Rightarrow> bool" where
  "reading sb s \<longleftrightarrow> (sb = STRBUF_INIT \<and> s = []) \<or> (\<exists>mem n. sb = owned mem n \<and> n < length mem \<and> take n mem = s)"

lemma reading_start: "sb_ok sb \<Longrightarrow> reading sb (sb_str sb)"
  using sb_owned [of sb] sb_unowned [of sb] sb_okD(1) [of sb]
  by (cases "sb_alloc sb = 0") (auto simp: reading_def sb_str_def STRBUF_INIT_def)

lemma reading_room:
  assumes "reading sb s"
  shows "case (if strbuf_avail sb = 0 then strbuf_grow junk sb 1 else Inr sb) of
      Inl e \<Rightarrow> e = Died \<and> 2 ^ 64 \<le> length s + 2
    | Inr sb' \<Rightarrow> \<exists>mem. sb' = owned mem (length s) \<and> length s + 1 < length mem \<and> take (length s) mem = s"
  using assms unfolding reading_def
proof (elim disjE exE conjE)
  assume sb: "sb = STRBUF_INIT" and s: "s = []"
  have "strbuf_avail sb = 0" by (simp add: sb strbuf_avail_def STRBUF_INIT_def)
  moreover have "sb_len STRBUF_INIT = 0" by (simp add: STRBUF_INIT_def)
  ultimately show ?thesis
    using sb s by (cases rule: strbuf_grow_cases [OF sb_ok_init(1), where junk = junk and extra = 1]) auto
next
  fix mem n
  assume sb: "sb = owned mem n" and n: "n < length mem" "take n mem = s"
  then have len: "length s = n" by auto
  show ?thesis
  proof (cases "strbuf_avail sb = 0")
    case True
    then show ?thesis
      using sb n len by (cases rule: grow_owned [OF n(1), where junk = junk and extra = 1]) auto
  next
    case False
    then show ?thesis using sb n len by (auto simp: strbuf_avail_def split: if_splits)
  qed
qed

lemma reading_store:
  assumes "length s + 1 < length mem" "take (length s) mem = s"
  shows "reading (owned (mem[length s := c]) (length s + 1)) (s @ [c])"
  using assms unfolding reading_def
  by (intro disjI2 exI [of _ "mem[length s := c]"] exI [of _ "length s + 1"]) (simp add: take_Suc_conv_app_nth)

lemma getwholeline_loop_spec:
  "reading sb s \<Longrightarrow>
   case getwholeline_loop junk sb data c of
     Inl e \<Rightarrow> e = Died \<and> 2 ^ 64 \<le> length s + length (first_line c data) + 1
   | Inr (sb', rest, eof) \<Rightarrow>
       reading sb' (s @ first_line c data) \<and> rest = after_line c data \<and> eof = (c \<notin> set data)"
proof (induction data arbitrary: sb s)
  case (Cons x data)
  show ?case
  proof (cases "if strbuf_avail sb = 0 then strbuf_grow junk sb 1 else Inr sb")
    case (Inl e)
    then have "e = Died" "2 ^ 64 \<le> length s + 2"
      using reading_room [OF Cons.prems, of junk] by (simp_all only: Inl sum.case)
    moreover have "getwholeline_loop junk sb (x # data) c = Inl e" by (simp add: Inl)
    ultimately show ?thesis by simp
  next
    case (Inr sb1)
    then obtain mem where mem: "sb1 = owned mem (length s)" "length s + 1 < length mem" "take (length s) mem = s"
      using reading_room [OF Cons.prems, of junk] by (simp only: Inr) auto
    let ?sb = "owned (mem[length s := x]) (length s + 1)"
    have step: "getwholeline_loop junk sb (x # data) c =
        (if x = c then Inr (?sb, data, False) else getwholeline_loop junk ?sb data c)"
      using mem by (simp add: Inr)
    show ?thesis
      using Cons.IH [OF reading_store [OF mem(2,3), of x]] reading_store [OF mem(2,3), of x]
      unfolding step by (auto split: sum.splits)
  qed
qed simp

lemma reading_end:
  assumes "reading sb s" "s \<noteq> []"
  shows "gives (put_nul sb) s"
  using assms owned_nul_gives by (fastforce simp: reading_def)

lemma reading_len: "reading sb s \<Longrightarrow> sb_len sb = length s"
  by (auto simp: reading_def STRBUF_INIT_def)

lemma strbuf_getwholeline_spec:
  assumes ok: "sb_ok sb"
  shows "case strbuf_getwholeline junk sb fp c of
      Inl e \<Rightarrow> e = Died \<and> 2 ^ 64 \<le> length (first_line c (f_data fp)) + 1
    | Inr (ret, sb', fp') \<Rightarrow>
        sb_ok sb' \<and>
        (if f_eof fp then ret = EOF \<and> sb' = sb \<and> fp' = fp
         else (if f_data fp = [] then ret = EOF else ret = 0) \<and>
              sb_str sb' = first_line c (f_data fp) \<and>
              fp' = \<lparr>f_data = after_line c (f_data fp), f_eof = (c \<notin> set (f_data fp))\<rparr>)"
proof (cases "f_eof fp")
  case True
  then show ?thesis using ok by (simp add: strbuf_getwholeline_def)
next
  case False
  obtain sb0 where sb0: "strbuf_reset sb = Inr sb0" "sb_ok sb0" "sb_str sb0 = []"
    using strbuf_reset_gives [OF ok] by (rule givesE)
  show ?thesis
  proof (cases "getwholeline_loop junk sb0 (f_data fp) c")
    case (Inl e)
    then show ?thesis
      using getwholeline_loop_spec [OF reading_start [OF sb0(2)], where junk = junk and data = "f_data fp" and c = c] False sb0
      by (simp add: strbuf_getwholeline_def)
  next
    case (Inr p)
    obtain sb1 rest eof where p: "p = (sb1, rest, eof)" by (cases p)
    have loop: "reading sb1 (first_line c (f_data fp))" "rest = after_line c (f_data fp)" "eof = (c \<notin> set (f_data fp))"
      using getwholeline_loop_spec [OF reading_start [OF sb0(2)], where junk = junk and data = "f_data fp" and c = c] Inr p sb0(3) by simp_all
    show ?thesis
    proof (cases "f_data fp = []")
      case True
      then have "sb1 = sb0" using Inr p by simp
      moreover have "sb_len sb0 = 0" using sb0 sb_len_0 by simp
      ultimately show ?thesis using False True Inr p loop sb0 by (simp add: strbuf_getwholeline_def EOF_def)
    next
      case ne: False
      then have fl: "first_line c (f_data fp) \<noteq> []" by (cases "f_data fp") auto
      then obtain sb2 where "put_nul sb1 = Inr sb2" "sb_ok sb2" "sb_str sb2 = first_line c (f_data fp)"
        using reading_end [OF loop(1)] by (auto elim: givesE)
      moreover have "sb_len sb1 \<noteq> 0" using reading_len [OF loop(1)] fl by simp
      ultimately show ?thesis using False ne Inr p loop sb0 by (simp add: strbuf_getwholeline_def)
    qed
  qed
qed

text \<open>A client that reads a stream to its end; \<open>fuel\<close> bounds the number of calls.\<close>

fun read_all :: "(nat \<Rightarrow> byte) \<Rightarrow> nat \<Rightarrow> strbuf \<Rightarrow> stream \<Rightarrow> byte \<Rightarrow> byte list list result" where
  "read_all junk 0 sb fp term = Inl No_fuel"
| "read_all junk (Suc fuel) sb fp term =
     rbind (strbuf_getwholeline junk sb fp term) (\<lambda>(ret, sb, fp).
       if ret \<noteq> 0 then Inr []
       else rbind (read_all junk fuel sb fp term) (\<lambda>lines. Inr (sb_str sb # lines)))"

lemma pieces_first_line: "s \<noteq> [] \<Longrightarrow> pieces c s = first_line c s # pieces c (after_line c s)"
proof -
  have *: "take (case memchr s c of Some k \<Rightarrow> k + 1 | None \<Rightarrow> length s) s = first_line c s"
    by (induction s) (auto split: option.splits)
  have "length (first_line c s) = (case memchr s c of Some k \<Rightarrow> k + 1 | None \<Rightarrow> length s)"
    by (induction s) (auto split: option.splits)
  then show "s \<noteq> [] \<Longrightarrow> pieces c s = first_line c s # pieces c (after_line c s)"
    by (subst pieces.simps) (simp add: Let_def * after_line_def)
qed

lemma first_line_Nil: "first_line c s = [] \<longleftrightarrow> s = []"
  by (cases s) auto

lemma first_line_ended: "after_line c s \<noteq> [] \<Longrightarrow> last (first_line c s) = c"
  by (induction s) (auto simp: after_line_def first_line_Nil split: if_splits)

lemma pieces_ended: "l \<in> set (butlast (pieces c s)) \<Longrightarrow> last l = c"
proof (induction s rule: length_induct)
  case (1 s)
  then have ne: "s \<noteq> []" by (auto simp: pieces.simps)
  let ?r = "after_line c s"
  have r: "pieces c s = first_line c s # pieces c ?r" by (rule pieces_first_line [OF ne])
  have rne: "?r \<noteq> []" using 1(2) r by (auto simp: pieces.simps)
  then have "pieces c ?r \<noteq> []" by (simp add: pieces_first_line)
  then consider "l = first_line c s" | "l \<in> set (butlast (pieces c ?r))" using 1(2) r by auto
  then show ?case
  proof cases
    case 1 then show ?thesis using first_line_ended [OF rne] by simp
  next
    case 2
    have "length (first_line c s) + length ?r = length s" using first_after_line [of c s] by (metis length_append)
    moreover have "0 < length (first_line c s)" using ne by (simp add: first_line_Nil)
    ultimately have "length ?r < length s" by linarith
    then show ?thesis using 1(1) 2 by blast
  qed
qed

lemma read_all_spec:
  assumes "sb_ok sb" "length (f_data fp) + 2 < 2 ^ 64" "length (f_data fp) < fuel" "f_eof fp \<longrightarrow> f_data fp = []"
  shows "read_all junk fuel sb fp c = Inr (pieces c (f_data fp))"
  using assms
proof (induction fuel arbitrary: sb fp)
  case (Suc fuel)
  show ?case
  proof (cases "f_data fp = []")
    case True
    then show ?thesis
      using strbuf_getwholeline_spec [OF Suc.prems(1), where junk = junk and fp = fp and c = c]
      by (cases "strbuf_getwholeline junk sb fp c") (auto simp: pieces.simps EOF_def split: if_splits)
  next
    case False
    let ?l = "first_line c (f_data fp)" and ?r = "after_line c (f_data fp)"
    have eof: "\<not> f_eof fp" using Suc.prems(4) False by simp
    have len: "length ?l + length ?r = length (f_data fp)" "0 < length ?l"
      using first_after_line [of c "f_data fp"] False by (metis length_append, cases "f_data fp") auto
    obtain sb' where call: "strbuf_getwholeline junk sb fp c = Inr (0, sb', \<lparr>f_data = ?r, f_eof = (c \<notin> set (f_data fp))\<rparr>)"
        "sb_ok sb'" "sb_str sb' = ?l"
      using strbuf_getwholeline_spec [OF Suc.prems(1), where junk = junk and fp = fp and c = c] eof False len(1) Suc.prems(2)
      by (cases "strbuf_getwholeline junk sb fp c") auto
    have "read_all junk fuel sb' \<lparr>f_data = ?r, f_eof = (c \<notin> set (f_data fp))\<rparr> c = Inr (pieces c ?r)"
      using Suc.IH [OF call(2), of "\<lparr>f_data = ?r, f_eof = (c \<notin> set (f_data fp))\<rparr>"] Suc.prems(2,3) len
      by (simp add: after_line_Nil)
    then show ?thesis using call pieces_first_line [OF False] by simp
  qed
qed simp

subsection \<open>White space clean-up, as lists\<close>

text \<open>
  The reference: the lines that are no comments, without trailing white space, grouped into maximal
  runs of nonempty lines; the runs are separated by one empty line.
\<close>

function paragraphs :: "byte list list \<Rightarrow> byte list list list" where
  "paragraphs [] = []"
| "paragraphs ([] # ls) = paragraphs ls"
| "paragraphs ((c # l) # ls) =
     ((c # l) # takeWhile (\<lambda>l. l \<noteq> []) ls) # paragraphs (dropWhile (\<lambda>l. l \<noteq> []) ls)"
  by pat_completeness auto
termination by (relation "measure length") (auto intro: le_imp_less_Suc length_dropWhile_le)

definition unlines :: "byte list list \<Rightarrow> byte list" where
  "unlines ls = concat (map (\<lambda>l. l @ [0x0a]) ls)"

definition is_comment :: "cstring option \<Rightarrow> byte list \<Rightarrow> bool" where
  "is_comment prefix l = (case prefix of None \<Rightarrow> False | Some p \<Rightarrow> take (length p) l = p)"

definition clean_lines :: "cstring option \<Rightarrow> byte list \<Rightarrow> byte list list" where
  "clean_lines prefix s = map (strip_end isspace) (filter (\<lambda>l. \<not> is_comment prefix l) (pieces 0x0a s))"

definition stripspace_spec :: "cstring option \<Rightarrow> byte list \<Rightarrow> byte list" where
  "stripspace_spec prefix s = sep_join [0x0a] (map unlines (paragraphs (clean_lines prefix s)))"

text \<open>The same as a pass over the lines with the output so far and whether empty lines are pending.\<close>

fun strip_pass :: "byte list \<Rightarrow> bool \<Rightarrow> byte list list \<Rightarrow> byte list" where
  "strip_pass out pend [] = out"
| "strip_pass out pend (l # ls) =
     (if l \<noteq> [] then strip_pass (out @ (if pend \<and> out \<noteq> [] then [0x0a] else []) @ l @ [0x0a]) False ls
      else strip_pass out True ls)"

lemma strip_pass_nonempty:
  "out \<noteq> [] \<Longrightarrow>
   strip_pass out pend ls = out @
     (if pend then concat (map (\<lambda>p. 0x0a # unlines p) (paragraphs ls))
      else unlines (takeWhile (\<lambda>l. l \<noteq> []) ls) @
        concat (map (\<lambda>p. 0x0a # unlines p) (paragraphs (dropWhile (\<lambda>l. l \<noteq> []) ls))))"
proof (induction ls arbitrary: out pend)
  case (Cons l ls)
  then show ?case by (cases l) (auto simp: unlines_def)
qed (simp add: unlines_def)

lemma strip_pass_eq: "strip_pass [] pend ls = sep_join [0x0a] (map unlines (paragraphs ls))"
proof (induction ls arbitrary: pend)
  case (Cons l ls)
  then show ?case by (cases l) (auto simp: strip_pass_nonempty sep_join_Cons unlines_def o_def)
qed simp

text \<open>The text still to be read gives the lines still to be processed.\<close>

lemma clean_lines_step:
  assumes "s \<noteq> []"
  shows "clean_lines prefix s =
    (if is_comment prefix (take (line_len s) s) then [] else [strip_end isspace (take (line_len s) s)]) @
    clean_lines prefix (drop (line_len s) s)"
proof -
  have "pieces 0x0a s = take (line_len s) s # pieces 0x0a (drop (line_len s) s)"
    using assms by (subst pieces.simps) (simp add: line_len_def Let_def)
  then show ?thesis by (simp add: clean_lines_def)
qed

lemma line_len_cases:
  assumes "s \<noteq> []"
  obtains (newline) "line_len s \<le> length s" "s ! (line_len s - 1) = 0x0a" "0 < line_len s"
  | (last) "line_len s = length s" "0x0a \<notin> set s"
  using assms
  by (cases "memchr s 0x0a") (auto simp: line_len_def memchr_None memchr_Some)

lemma strip_end_newline:
  assumes "line_len s < length s"
  shows "length (strip_end isspace (take (line_len s) s)) < line_len s"
proof -
  have ne: "s \<noteq> []" using assms by auto
  from ne show ?thesis
  proof (cases rule: line_len_cases)
    case newline
    then obtain k where k: "line_len s = Suc k" by (metis gr0_conv_Suc)
    then have "take (line_len s) s = take k s @ [0x0a]"
      using assms newline by (simp add: take_Suc_conv_app_nth)
    then have "strip_end isspace (take (line_len s) s) = strip_end isspace (take k s)"
      by (simp add: strip_end_def isspace_iff)
    then show ?thesis using strip_end_le [of isspace "take k s"] k assms by simp
  qed (use assms in simp)
qed

definition prefix_ok :: "cstring option \<Rightarrow> bool" where
  "prefix_ok prefix = (case prefix of None \<Rightarrow> True | Some p \<Rightarrow> cstring_ok p \<and> 0x0a \<notin> set p)"

text \<open>The comment test reads the C string at the line; it never looks past the line.\<close>

lemma comment_test:
  assumes p: "prefix_ok prefix" and s: "s \<noteq> []" and tail: "tail \<noteq> []" "hd tail = 0"
  shows "(case prefix of None \<Rightarrow> False | Some p \<Rightarrow> starts_with (s @ tail) p) =
    is_comment prefix (take (line_len s) s)"
proof (cases prefix)
  case (Some q)
  have q: "cstring_ok q" "0x0a \<notin> set q" using p Some by (simp_all add: prefix_ok_def)
  let ?len = "line_len s"
  have "length q \<le> ?len" if eq: "take (length q) (s @ tail) = q"
  proof (rule ccontr)
    assume "\<not> length q \<le> ?len"
    then have lt: "?len < length q" by simp
    have nth: "q ! k = (s @ tail) ! k" if "k < length q" for k
      using that by (metis eq nth_take)
    from s show False
    proof (cases rule: line_len_cases)
      case newline
      then have "?len - 1 < length q" "?len - 1 < length s" using lt by linarith+
      then have "q ! (?len - 1) = 0x0a" using nth [of "?len - 1"] newline by (simp add: nth_append)
      then show False using q(2) \<open>?len - 1 < length q\<close> by (metis nth_mem)
    next
      case last
      then have "q ! ?len = 0" using nth [OF lt] tail by (simp add: nth_append hd_conv_nth)
      then show False using q(1) lt by (metis cstring_ok_def nth_mem)
    qed
  qed
  then have "take (length q) (s @ tail) = q \<longleftrightarrow> take (length q) (take ?len s) = q"
    using line_len_bounds(1) [of s] by (auto simp: min_def)
  then show ?thesis using Some q by (simp add: starts_with_iff is_comment_def)
qed (simp add: is_comment_def)

text \<open>Storing a cleaned line at \<open>j \<le> i\<close> leaves the bytes behind it alone.\<close>

lemma strip_store:
  assumes "j \<le> i" "i + k \<le> length mem" "j + k < length mem"
  obtains mem' where
    "rbind (memmove mem j i k) (\<lambda>mem. wr mem (k + j) 0x0a) = Inr mem'"
    "length mem' = length mem" "take (j + 1 + k) mem' = take j mem @ take k (drop i mem) @ [0x0a]"
    "drop (j + 1 + k) mem' = drop (j + 1 + k) mem"
proof
  let ?mem2 = "take j mem @ take k (drop i mem) @ drop (j + k) mem"
  have eq: "rbind (memmove mem j i k) (\<lambda>mem. wr mem (k + j) 0x0a) = Inr (?mem2[k + j := 0x0a])"
    using assms by simp
  have d: "drop (j + k) mem = mem ! (j + k) # drop (j + 1 + k) mem"
    using assms(3) by (metis Cons_nth_drop_Suc Suc_eq_plus1 add.commute add.left_commute)
  have upd: "?mem2[k + j := 0x0a] = take j mem @ take k (drop i mem) @ 0x0a # drop (j + 1 + k) mem"
    unfolding d using assms by (simp add: list_update_append)
  show "rbind (memmove mem j i k) (\<lambda>mem. wr mem (k + j) 0x0a) =
      Inr (take j mem @ take k (drop i mem) @ 0x0a # drop (j + 1 + k) mem)"
    using eq upd by simp
  have len: "length (take j mem) = j" "length (take k (drop i mem)) = k" using assms by simp_all
  show "length (take j mem @ take k (drop i mem) @ 0x0a # drop (j + 1 + k) mem) = length mem"
    unfolding length_append len using assms by simp
  show "take (j + 1 + k) (take j mem @ take k (drop i mem) @ 0x0a # drop (j + 1 + k) mem) =
      take j mem @ take k (drop i mem) @ [0x0a]"
    unfolding take_append len by simp
  show "drop (j + 1 + k) (take j mem @ take k (drop i mem) @ 0x0a # drop (j + 1 + k) mem) = drop (j + 1 + k) mem"
    unfolding drop_append len by simp
qed

lemma drop_take_cong: "drop k xs = drop k ys \<Longrightarrow> k \<le> m \<Longrightarrow> drop m (take n xs) = drop m (take n ys)"
  by (metis drop_drop drop_take le_add_diff_inverse2)

lemma nth_drop_cong:
  assumes "drop k xs = drop k ys" "k \<le> n" "n < length xs" "n < length ys"
  shows "xs ! n = ys ! n"
  using assms nth_drop [of k xs "n - k"] nth_drop [of k ys "n - k"] by simp

definition strip_inv :: "nat \<Rightarrow> byte list \<Rightarrow> nat \<Rightarrow> nat \<Rightarrow> nat \<Rightarrow> bool" where
  "strip_inv n mem i j empties \<longleftrightarrow>
     n + 1 < length mem \<and> i \<le> n \<and> j \<le> n + 1 \<and>
     (i < n \<longrightarrow> mem ! n = 0 \<and> j + (if empties > 0 \<and> j > 0 then 1 else 0) \<le> i)"

text \<open>
  Keeping a line of \<open>len\<close> bytes whose first \<open>k\<close> bytes remain: the pending empty line and the line are
  stored in front of the text still to be read.
\<close>

lemma strip_kept:
  assumes inv: "strip_inv n mem i j empties" and i: "i < n" and len: "i + len \<le> n"
    and k: "k \<le> len" "i + len < n \<Longrightarrow> k < len"
  obtains mem3 j1 where
    "\<And>F :: byte list \<Rightarrow> nat \<Rightarrow> (byte list \<times> nat) result. rbind (if empties > 0 \<and> j > 0 then rbind (wr mem j 0x0a) (\<lambda>mem. Inr (mem, j + 1)) else Inr (mem, j))
        (\<lambda>(mem, j). rbind (memmove mem j i k) (\<lambda>mem. rbind (wr mem (k + j) 0x0a)
          (\<lambda>mem. F mem (j + 1 + k)))) = F mem3 (j1 + 1 + k)"
    "strip_inv n mem3 (i + len) (j1 + 1 + k) 0" "length mem3 = length mem"
    "take (j1 + 1 + k) mem3 =
       take j mem @ (if empties > 0 \<and> take j mem \<noteq> [] then [0x0a] else []) @ take k (drop i mem) @ [0x0a]"
    "drop (i + len) (take n mem3) = drop (i + len) (take n mem)"
proof -
  note inv = inv [unfolded strip_inv_def]
  define j1 where "j1 = (if empties > 0 \<and> j > 0 then j + 1 else j)"
  define mem1 where "mem1 = (if empties > 0 \<and> j > 0 then mem[j := 0x0a] else mem)"
  have j1: "j1 \<le> i" using inv i by (auto simp: j1_def)
  have mem1: "length mem1 = length mem" "drop i mem1 = drop i mem" "mem1 ! n = 0"
      "take j1 mem1 = take j mem @ (if empties > 0 \<and> j > 0 then [0x0a] else [])"
    using inv i by (auto simp: mem1_def j1_def take_Suc_conv_app_nth)
  have first: "(if empties > 0 \<and> j > 0 then rbind (wr mem j 0x0a) (\<lambda>mem. Inr (mem, j + 1)) else Inr (mem, j)) =
      Inr (mem1, j1)"
    using inv i by (auto simp: mem1_def j1_def)
  have bounds: "i + k \<le> length mem1" "j1 + k < length mem1"
    using inv i k(1) len j1 mem1(1) by linarith+
  obtain mem3 where mem3: "rbind (memmove mem1 j1 i k) (\<lambda>mem. wr mem (k + j1) 0x0a) = Inr mem3"
      "length mem3 = length mem1" "take (j1 + 1 + k) mem3 = take j1 mem1 @ take k (drop i mem1) @ [0x0a]"
      "drop (j1 + 1 + k) mem3 = drop (j1 + 1 + k) mem1"
    using strip_store [OF j1 bounds] by blast
  have after: "j1 + 1 + k \<le> i + len" if "i + len < n" using k(2) [OF that] j1 by linarith
  have "mem3 ! n = 0" if "i + len < n"
    using nth_drop_cong [OF mem3(4), of n] mem3(2) mem1(1,3) after [OF that] that conjunct1 [OF inv] by simp
  then have inv': "strip_inv n mem3 (i + len) (j1 + 1 + k) 0"
    using inv i len k(1) j1 after mem3(2) mem1(1) by (auto simp: strip_inv_def)
  have "drop (i + len) (take n mem3) = drop (i + len) (take n mem1)"
    using drop_take_cong [OF mem3(4)] after len by (cases "i + len < n") auto
  also have "\<dots> = drop (i + len) (take n mem)" using drop_take_cong [OF mem1(2)] by simp
  finally have later: "drop (i + len) (take n mem3) = drop (i + len) (take n mem)" .
  show thesis
  proof (rule that [OF _ inv' _ _ later])
    fix F :: "byte list \<Rightarrow> nat \<Rightarrow> (byte list \<times> nat) result"
    have "rbind (memmove mem1 j1 i k) (\<lambda>mem. rbind (wr mem (k + j1) 0x0a) (\<lambda>mem. F mem (j1 + 1 + k))) =
        F mem3 (j1 + 1 + k)"
      using mem3(1) by (simp only: rbind_assoc [symmetric] rbind_simps)
    then show "rbind (if empties > 0 \<and> j > 0 then rbind (wr mem j 0x0a) (\<lambda>mem. Inr (mem, j + 1)) else Inr (mem, j))
        (\<lambda>(mem, j). rbind (memmove mem j i k) (\<lambda>mem. rbind (wr mem (k + j) 0x0a)
          (\<lambda>mem. F mem (j + 1 + k)))) = F mem3 (j1 + 1 + k)"
      by (simp only: first rbind_simps prod.case)
  qed (use mem3(2,3) mem1 inv in auto)
qed

lemma stripspace_loop_spec:
  assumes "strip_inv n mem i j empties" and p: "prefix_ok p"
  shows "\<exists>mem' j'. stripspace_loop p n mem i j empties = Inr (mem', j') \<and> length mem' = length mem \<and> j' \<le> n + 1 \<and>
    take j' mem' = strip_pass (take j mem) (empties > 0) (clean_lines p (drop i (take n mem)))"
  using assms(1)
proof (induction "n - i" arbitrary: mem i j empties rule: less_induct)
  case less
  note inv = less.prems [unfolded strip_inv_def]
  show ?case
  proof (cases "i < n")
    case False
    then show ?thesis using inv by (simp add: stripspace_loop.simps clean_lines_def pieces.simps)
  next
    case i: True
    define s where "s = drop i (take n mem)"
    define len where "len = line_len s"
    have s: "s \<noteq> []" "length s = n - i" using inv i by (auto simp: s_def)
    have len: "0 < len" "i + len \<le> n" using line_len_bounds [of s] s by (simp_all add: len_def)
    have rest: "slice mem i (n - i) = Inr s" using inv i by (simp add: s_def drop_take)
    have split: "drop i mem = s @ drop n mem"
      using inv i by (subst append_take_drop_id [of n mem, symmetric], subst drop_append) (simp add: s_def min_def)
    have test: "(case p of None \<Rightarrow> False | Some q \<Rightarrow> starts_with (drop i mem) q) = is_comment p (take len s)"
      unfolding split len_def
    proof (rule comment_test [OF p s(1)])
      show "drop n mem \<noteq> []" "hd (drop n mem) = 0" using inv i by (simp_all add: hd_drop_conv_nth)
    qed
    define l where "l = strip_end isspace (take len s)"
    have takes: "take len (drop i mem) = take len s" using len s(2) by (simp add: split)
    have clean: "cleanup (drop i mem) len = Inr (length l)"
    proof -
      have "len \<le> length (drop i mem)" using len(2) conjunct1 [OF inv] by simp
      from shrink_loop_eq [OF this, of isspace] show ?thesis
        by (simp only: cleanup_def takes l_def strip_end_def)
    qed
    have ltake: "take (length l) (drop i mem) = l"
      using strip_end_prefix [of isspace "take len s"] strip_end_le [of isspace "take len s"] len(2) s(2)
      by (simp add: l_def takes [symmetric] min_def split: if_splits)
    have llen: "length l \<le> len" "i + len < n \<Longrightarrow> length l < len"
      using strip_end_le [of isspace "take len s"] strip_end_newline [of s] s(2)
      by (simp_all add: l_def len_def)
    have ds: "drop len s = drop (i + len) (take n mem)" by (simp add: s_def add.commute)
    have lines: "clean_lines p s = (if is_comment p (take len s) then [] else [l]) @ clean_lines p (drop (i + len) (take n mem))"
      using clean_lines_step [OF s(1), of p] unfolding len_def [symmetric] l_def [symmetric] ds .
    have meas: "n - (i + len) < n - i" using i len by linarith
    have unfold: "stripspace_loop p n mem i j empties =
        (if is_comment p (take len s) then stripspace_loop p n mem (i + len) j empties
         else if l \<noteq> [] then
            rbind (if empties > 0 \<and> j > 0 then rbind (wr mem j 0x0a) (\<lambda>mem. Inr (mem, j + 1)) else Inr (mem, j)) (\<lambda>(mem, j).
            rbind (memmove mem j i (length l)) (\<lambda>mem.
            rbind (wr mem (length l + j) 0x0a) (\<lambda>mem.
              stripspace_loop p n mem (i + len) (j + 1 + length l) 0)))
         else stripspace_loop p n mem (i + len) j (empties + 1))"
      using i len(1) by (subst stripspace_loop.simps) (simp add: rest len_def [symmetric] test clean)
    consider (comment) "is_comment p (take len s)" | (blank) "\<not> is_comment p (take len s)" "l = []"
      | (kept) "\<not> is_comment p (take len s)" "l \<noteq> []" by blast
    then show ?thesis
    proof cases
      case comment
      have "strip_inv n mem (i + len) j empties" using inv i len by (auto simp: strip_inv_def)
      from less.hyps [OF meas this] comment show ?thesis
        by (simp add: unfold lines s_def [symmetric])
    next
      case blank
      have "strip_inv n mem (i + len) j (empties + 1)" using inv i len by (auto simp: strip_inv_def)
      from less.hyps [OF meas this] blank show ?thesis
        by (simp add: unfold lines s_def [symmetric])
    next
      case kept
      from strip_kept [OF less.prems i len(2) llen] obtain mem3 j1 where
        store: "\<And>F :: byte list \<Rightarrow> nat \<Rightarrow> (byte list \<times> nat) result. rbind (if empties > 0 \<and> j > 0 then rbind (wr mem j 0x0a) (\<lambda>mem. Inr (mem, j + 1)) else Inr (mem, j))
            (\<lambda>(mem, j). rbind (memmove mem j i (length l)) (\<lambda>mem. rbind (wr mem (length l + j) 0x0a)
              (\<lambda>mem. F mem (j + 1 + length l)))) = F mem3 (j1 + 1 + length l)"
        and inv': "strip_inv n mem3 (i + len) (j1 + 1 + length l) 0" and l3: "length mem3 = length mem"
        and out: "take (j1 + 1 + length l) mem3 =
            take j mem @ (if empties > 0 \<and> take j mem \<noteq> [] then [0x0a] else []) @ take (length l) (drop i mem) @ [0x0a]"
        and later: "drop (i + len) (take n mem3) = drop (i + len) (take n mem)"
        by blast
      have "stripspace_loop p n mem i j empties = stripspace_loop p n mem3 (i + len) (j1 + 1 + length l) 0"
        using kept store [of "\<lambda>mem j. stripspace_loop p n mem (i + len) j 0"] by (simp add: unfold)
      then show ?thesis
        using less.hyps [OF meas inv'] kept l3 later out ltake
        by (simp add: lines s_def [symmetric])
    qed
  qed
qed

lemma strbuf_stripspace_gives:
  assumes ok: "sb_ok sb" and p: "prefix_ok p" and small: "sb_len sb + 2 < 2 ^ 64"
  shows "gives (strbuf_stripspace junk sb p) (stripspace_spec p (sb_str sb)) \<and>
    length (stripspace_spec p (sb_str sb)) \<le> sb_len sb + 1"
  using ok
proof (cases rule: strbuf_grow_cases [where junk = junk and extra = 1])
  case died
  then show ?thesis using small by simp
next
  case (room mem)
  define n where "n = sb_len sb"
  have "strip_inv n mem 0 0 0" using room by (auto simp: strip_inv_def n_def)
  then obtain mem' j where loop: "stripspace_loop p n mem 0 0 0 = Inr (mem', j)" "length mem' = length mem" "j \<le> n + 1"
      "take j mem' = stripspace_spec p (sb_str sb)"
    using stripspace_loop_spec [OF _ p] room(3) by (fastforce simp: strip_pass_eq stripspace_spec_def n_def)
  moreover have "length (take j mem') \<le> n + 1" using loop(3) by simp
  ultimately show ?thesis
    using room owned_nul_gives [of j mem'] by (simp add: strbuf_stripspace_def n_def)
qed

subsection \<open>The clean-up is idempotent\<close>

lemma pieces_unlines:
  "\<forall>l\<in>set ls. 0x0a \<notin> set l \<Longrightarrow> pieces 0x0a (unlines ls) = map (\<lambda>l. l @ [0x0a]) ls"
proof (induction ls)
  case (Cons l ls)
  have first: "first_line 0x0a (l @ 0x0a # r) = l @ [0x0a]" "after_line 0x0a (l @ 0x0a # r) = r" for r
    using Cons.prems by (simp_all add: first_line_def after_line_def takeWhile_append)
  have "pieces 0x0a (l @ 0x0a # unlines ls) = (l @ [0x0a]) # pieces 0x0a (unlines ls)"
    by (subst pieces_first_line) (simp_all add: first)
  then show ?case using Cons by (simp add: unlines_def)
qed (simp add: unlines_def pieces.simps)

lemma unlines_sep_join: "sep_join [0x0a] (map unlines ps) = unlines (sep_join [[]] ps)"
proof (cases ps)
  case (Cons q qs)
  have "concat (map (\<lambda>y. [0x0a] @ y) (map unlines qs)) = unlines (concat (map (\<lambda>y. [[]] @ y) qs))"
    by (induction qs) (simp_all add: unlines_def)
  moreover have "unlines (a @ b) = unlines a @ unlines b" for a b by (simp add: unlines_def)
  ultimately show ?thesis by (simp only: Cons list.map sep_join_Cons)
qed (simp add: unlines_def)

lemma paragraphs_lines:
  "q \<in> set (paragraphs ls) \<Longrightarrow> q \<noteq> [] \<and> (\<forall>l\<in>set q. l \<noteq> [] \<and> l \<in> set ls)"
proof (induction "length ls" arbitrary: ls rule: less_induct)
  case less
  show ?case
  proof (cases ls)
    case (Cons l ls')
    show ?thesis
    proof (cases l)
      case Nil
      then show ?thesis using less.hyps [of ls'] less.prems Cons by simp
    next
      case (Cons c cs)
      let ?d = "dropWhile (\<lambda>l. l \<noteq> []) ls'"
      from less.prems have "q = l # takeWhile (\<lambda>l. l \<noteq> []) ls' \<or> q \<in> set (paragraphs ?d)"
        using \<open>ls = l # ls'\<close> Cons by simp
      then show ?thesis
      proof
        assume "q = l # takeWhile (\<lambda>l. l \<noteq> []) ls'"
        then show ?thesis using \<open>ls = l # ls'\<close> Cons by (auto dest: set_takeWhileD)
      next
        assume "q \<in> set (paragraphs ?d)"
        moreover have "length ?d < length ls" using \<open>ls = l # ls'\<close> by (simp add: le_imp_less_Suc length_dropWhile_le)
        ultimately have "q \<noteq> [] \<and> (\<forall>l\<in>set q. l \<noteq> [] \<and> l \<in> set ?d)" by (rule less.hyps [rotated])
        then show ?thesis using \<open>ls = l # ls'\<close> by (metis list.set_intros(2) set_dropWhileD)
      qed
    qed
  qed (use less.prems in simp)
qed

lemma paragraphs_run:
  assumes "q \<noteq> []" "[] \<notin> set q"
  shows "paragraphs q = [q]" "paragraphs (q @ [] # r) = q # paragraphs r"
proof -
  obtain c l q' where q: "q = (c # l) # q'" using assms by (metis list.exhaust list.set_intros(1))
  have nonempty: "\<And>l. l \<in> set q' \<Longrightarrow> l \<noteq> []" using assms(2) q by auto
  have run: "takeWhile (\<lambda>l. l \<noteq> []) q' = q'" "dropWhile (\<lambda>l. l \<noteq> []) q' = []"
    using nonempty by simp_all
  show "paragraphs q = [q]" by (simp only: q paragraphs.simps run)
  have "takeWhile (\<lambda>l. l \<noteq> []) (q' @ [] # r) = q'" "dropWhile (\<lambda>l. l \<noteq> []) (q' @ [] # r) = [] # r"
    using takeWhile_append2 [of q' "\<lambda>l. l \<noteq> []" "[] # r"] dropWhile_append2 [of q' "\<lambda>l. l \<noteq> []" "[] # r"] nonempty
    by simp_all
  then show "paragraphs (q @ [] # r) = q # paragraphs r" by (simp add: q)
qed

lemma paragraphs_sep_join:
  "\<forall>q\<in>set ps. q \<noteq> [] \<and> [] \<notin> set q \<Longrightarrow> paragraphs (sep_join [[]] ps) = ps"
proof (induction ps)
  case (Cons q ps)
  then show ?case by (cases ps) (simp_all add: paragraphs_run)
qed simp

lemma set_sep_join: "set (sep_join sep ps) \<subseteq> set sep \<union> \<Union> (set ` set ps)"
  by (induction sep ps rule: sep_join.induct) auto

lemma strip_end_idem: "strip_end P (strip_end P s) = strip_end P s"
  by (simp add: strip_end_def)

lemma strip_end_snoc: "P c \<Longrightarrow> strip_end P (s @ [c]) = strip_end P s"
  by (simp add: strip_end_def)

lemma last_strip_end: "strip_end P s \<noteq> [] \<Longrightarrow> \<not> P (last (strip_end P s))"
  by (simp add: strip_end_def last_rev hd_dropWhile)

definition clean_line :: "cstring option \<Rightarrow> byte list \<Rightarrow> bool" where
  "clean_line p l \<longleftrightarrow> 0x0a \<notin> set l \<and> strip_end isspace l = l \<and> \<not> is_comment p l"

lemma clean_lines_clean:
  assumes "l \<in> set (clean_lines p s)"
  shows "clean_line p l"
proof -
  obtain orig where orig: "orig \<in> set (pieces 0x0a s)" "\<not> is_comment p orig" "l = strip_end isspace orig"
    using assms by (auto simp: clean_lines_def)
  have nl: "0x0a \<notin> set (butlast orig)" using pieces_terminated [OF orig(1)] by simp
  have pre: "l = take (length l) orig" using strip_end_prefix [of isspace orig] orig(3) by simp
  have "0x0a \<notin> set l"
  proof
    assume in_l: "0x0a \<in> set l"
    then have "l \<noteq> []" by auto
    have "\<not> length l \<le> length orig - 1"
    proof
      assume "length l \<le> length orig - 1"
      then have "l = take (length l) (butlast orig)" using pre by (simp add: butlast_conv_take min_def)
      then show False using in_l nl by (metis in_set_takeD)
    qed
    then have "l = orig" using pre by simp
    then have "last l = 0x0a" using in_l nl \<open>l \<noteq> []\<close>
      by (metis append_butlast_last_id set_append UnE empty_iff empty_set set_ConsD)
    then show False using last_strip_end [of isspace orig] orig(3) \<open>l \<noteq> []\<close> by (simp add: isspace_iff)
  qed
  moreover have "\<not> is_comment p l"
    using orig(2) pre by (auto simp: is_comment_def split: option.splits) (metis length_take take_take)
  ultimately show ?thesis using orig(3) by (simp add: clean_line_def strip_end_idem)
qed

lemma clean_lines_unlines:
  assumes p: "prefix_ok p" and ls: "\<forall>l\<in>set ls. clean_line p l"
  shows "clean_lines p (unlines ls) = ls"
proof -
  have "\<not> is_comment p (l @ [0x0a])" if "l \<in> set ls" for l
  proof (cases p)
    case (Some q)
    have q: "0x0a \<notin> set q" using p Some by (simp add: prefix_ok_def)
    have "take (length q) (l @ [0x0a]) \<noteq> q"
    proof
      assume eq: "take (length q) (l @ [0x0a]) = q"
      have "length q \<le> length l"
      proof (rule ccontr)
        assume "\<not> length q \<le> length l"
        then have "q = l @ [0x0a]" using eq by simp
        then show False using q by simp
      qed
      then show False using eq ls that Some by (simp add: clean_line_def is_comment_def)
    qed
    then show ?thesis by (simp add: is_comment_def Some)
  qed (simp add: is_comment_def)
  moreover have "pieces 0x0a (unlines ls) = map (\<lambda>l. l @ [0x0a]) ls"
    using ls by (intro pieces_unlines) (simp add: clean_line_def)
  ultimately have "clean_lines p (unlines ls) = map (strip_end isspace) (map (\<lambda>l. l @ [0x0a]) ls)"
    by (simp add: clean_lines_def filter_id_conv)
  also have "\<dots> = ls" unfolding map_map
    by (rule map_idI) (use ls in \<open>simp add: strip_end_snoc isspace_iff clean_line_def\<close>)
  finally show ?thesis .
qed

lemma stripspace_spec_idem:
  assumes p: "prefix_ok p"
  shows "stripspace_spec p (stripspace_spec p s) = stripspace_spec p s"
proof -
  let ?ps = "paragraphs (clean_lines p s)"
  have spec: "stripspace_spec p s = unlines (sep_join [[]] ?ps)" by (simp only: stripspace_spec_def unlines_sep_join)
  show ?thesis
  proof (cases "?ps = []")
    case True
    then show ?thesis by (simp add: spec stripspace_spec_def unlines_def clean_lines_def pieces.simps)
  next
    case False
    have kept: "clean_line p l" if "q \<in> set ?ps" "l \<in> set q" for q l
      using paragraphs_lines [OF that(1)] that(2) clean_lines_clean by blast
    have "\<not> is_comment p []"
    proof
      assume "is_comment p []"
      then have all: "is_comment p l" for l by (auto simp: is_comment_def split: option.splits)
      obtain q where "q \<in> set ?ps" using False by (metis list.set_sel(1))
      with kept paragraphs_lines [OF this] all show False by (metis clean_line_def list.set_sel(1))
    qed
    then have "clean_line p []" by (simp add: clean_line_def strip_end_def)
    then have "\<forall>l\<in>set (sep_join [[]] ?ps). clean_line p l"
      using kept set_sep_join [of "[[]]" ?ps] by fastforce
    from clean_lines_unlines [OF p this]
    have "clean_lines p (stripspace_spec p s) = sep_join [[]] ?ps" by (simp only: spec)
    moreover have "paragraphs (sep_join [[]] ?ps) = ?ps"
      by (rule paragraphs_sep_join) (use paragraphs_lines in blast)
    ultimately show ?thesis by (simp only: stripspace_spec_def)
  qed
qed

subsection \<open>Properties\<close>

text \<open>C28: \<^verbatim>\<open>strbuf_stripspace()\<close>, which rewrites the buffer in place with overlapping moves, never faults and
  leaves exactly the reference text: comment lines dropped, trailing white space removed from every
  line, empty lines at both ends removed, runs of empty lines between paragraphs reduced to one, and
  a final newline.  The comment prefix is a C string without a newline.\<close>

theorem stripspace_correct:
  assumes "sb_ok sb" "prefix_ok p" "sb_len sb + 2 < 2 ^ 64"
  shows "gives (strbuf_stripspace junk sb p)
    (sep_join [0x0a] (map unlines (paragraphs
       (map (strip_end isspace) (filter (\<lambda>l. \<not> is_comment p l) (pieces 0x0a (sb_str sb)))))))"
  using strbuf_stripspace_gives [OF assms] by (simp add: stripspace_spec_def clean_lines_def)

text \<open>The text is a comment line, a blank line, the line \<^verbatim>\<open>a\<close> with a trailing blank, two blank lines and
  the line \<^verbatim>\<open>b\<close> without a newline.\<close>

theorem stripspace_correct_witness:
  "gives (strbuf_stripspace (\<lambda>_. 7) (owned [0x23, 0x0a, 0x0a, 0x61, 0x20, 0x0a, 0x0a, 0x0a, 0x62, 0] 9) (Some [0x23]))
     [0x61, 0x0a, 0x0a, 0x62, 0x0a]"
  using stripspace_correct [of "owned [0x23, 0x0a, 0x0a, 0x61, 0x20, 0x0a, 0x0a, 0x0a, 0x62, 0] 9" "Some [0x23]" "\<lambda>_. 7"]
  by (simp add: owned_ok owned_str prefix_ok_def pieces.simps is_comment_def strip_end_def isspace_iff unlines_def)

text \<open>Cleaning up a text a second time with the same comment prefix changes nothing.\<close>

lemma stripspace_idempotent:
  assumes "sb_ok sb" "prefix_ok p" "sb_len sb + 3 < 2 ^ 64"
  shows "case strbuf_stripspace junk sb p of
      Inl e \<Rightarrow> False
    | Inr sb' \<Rightarrow> sb_ok sb' \<and> gives (strbuf_stripspace junk sb' p) (sb_str sb')"
proof -
  have first: "gives (strbuf_stripspace junk sb p) (stripspace_spec p (sb_str sb))"
      "length (stripspace_spec p (sb_str sb)) \<le> sb_len sb + 1"
    using strbuf_stripspace_gives [OF assms(1,2), of junk] assms(3) by simp_all
  from first(1) obtain sb' where sb': "strbuf_stripspace junk sb p = Inr sb'" "sb_ok sb'"
      "sb_str sb' = stripspace_spec p (sb_str sb)"
    by (rule givesE)
  have "sb_len sb' + 2 < 2 ^ 64" using first(2) sb'(3) sb_okD(3) [OF sb'(2)] assms(3) by simp
  then show ?thesis
    using strbuf_stripspace_gives [OF sb'(2) assms(2), of junk] sb' by (simp add: stripspace_spec_idem [OF assms(2)])
qed

text \<open>C29: Reading a stream line by line comes to its end: a client that calls \<^verbatim>\<open>strbuf_getwholeline()\<close> until
  it returns the end of file gets there after at most one call more than the stream has bytes, and has
  then seen every byte once and in order, in lines that are not empty, contain the terminator nowhere
  but at their end, and all end in it except possibly the last.\<close>

theorem getwholeline_reads_all:
  assumes "sb_ok sb" "length data + 2 < 2 ^ 64"
  shows "\<exists>lines. read_all junk (length data + 1) sb \<lparr>f_data = data, f_eof = False\<rparr> c = Inr lines \<and>
    concat lines = data \<and> list_all (\<lambda>l. l \<noteq> [] \<and> c \<notin> set (butlast l)) lines \<and>
    list_all (\<lambda>l. last l = c) (butlast lines)"
  using read_all_spec [OF assms(1), of "\<lparr>f_data = data, f_eof = False\<rparr>" "length data + 1" junk c] assms(2)
    pieces_terminated [of _ c data] pieces_ended [of _ c data] by (simp add: list_all_iff)

theorem getwholeline_reads_all_witness:
  "\<exists>lines. read_all (\<lambda>_. 7) (Suc (Suc (Suc (Suc 0)))) STRBUF_INIT \<lparr>f_data = [0x61, 0x0a, 0x62], f_eof = False\<rparr> 0x0a = Inr lines \<and>
    concat lines = [0x61, 0x0a, 0x62] \<and> list_all (\<lambda>l. l \<noteq> [] \<and> 0x0a \<notin> set (butlast l)) lines \<and>
    list_all (\<lambda>l. last l = 0x0a) (butlast lines)"
  using getwholeline_reads_all [of STRBUF_INIT "[0x61, 0x0a, 0x62]" "\<lambda>_. 7" "0x0a"]
  by (simp del: read_all.simps)

text \<open>C30: The text building operations append what they promise: the joined arguments and the separated
  list put the delimiter between the elements only, the line prefixing puts the prefix (and for
  comments a space before a line that is neither empty nor indented by a tab) in front of every line
  and completes the last one, and the quoting operations append the image of every byte.\<close>

theorem strbuf_text_refines:
  assumes "sb_ok sb" "sb_ok sb2"
  shows "yields (strbuf_join_argv junk sb argv delim) (sb_str sb @ sep_join [delim] argv) \<and>
    yields (strbuf_add_separated_string_list junk sb sep items) (sb_str sb @ sep_join sep items) \<and>
    yields (strbuf_add_lines junk sb prefix text)
      (complete_line (sb_str sb @ concat (map (prefix_line prefix False) (pieces 0x0a text)))) \<and>
    yields (strbuf_add_commented_lines junk sb text prefix)
      (complete_line (sb_str sb @ concat (map (prefix_line prefix True) (pieces 0x0a text)))) \<and>
    yields (strbuf_addbuf_percentquote junk sb sb2)
      (sb_str sb @ concat (map (\<lambda>c. if c = 0x25 then [0x25, 0x25] else [c]) (sb_str sb2))) \<and>
    yields (strbuf_addstr_xml_quoted junk sb text) (sb_str sb @ concat (map xml_char text)) \<and>
    yields (strbuf_addstr_urlencode junk sb text allow)
      (sb_str sb @ concat (map (\<lambda>c. if allow c then [c] else percent_hex False c) text))"
  unfolding strbuf_add_lines_def strbuf_add_commented_lines_def
  by (intro conjI strbuf_join_argv_yields strbuf_add_separated_string_list_yields add_lines_yields
      strbuf_addbuf_percentquote_yields strbuf_addstr_xml_quoted_yields strbuf_addstr_urlencode_yields assms)

theorem strbuf_text_refines_witness:
  "yields (strbuf_join_argv (\<lambda>_. 7) STRBUF_INIT [[0x61], [0x62]] 0x20) [0x61, 0x20, 0x62]"
  using strbuf_text_refines [of STRBUF_INIT STRBUF_INIT "\<lambda>_. 7" "[[0x61], [0x62]]" "0x20"] by simp

text \<open>C31: Splitting a string of less than 2 GiB succeeds and loses nothing: the pieces are well-formed
  buffers whose concatenation is the string, and without a limit every piece but the last ends in the
  terminator, which occurs nowhere else.\<close>

theorem strbuf_split_partition:
  assumes "length str < 2 ^ 31"
  shows "\<exists>sbs. strbuf_split_buf junk str c max_nr = Inr sbs \<and> list_all sb_ok sbs \<and>
    concat (map sb_str sbs) = str \<and> (0 < max_nr \<or> map sb_str sbs = pieces c str)"
  using split_loop_ok [OF assms, of junk c max_nr "[]"] by (auto simp: strbuf_split_buf_def not_le)

theorem strbuf_split_partition_witness:
  "\<exists>sbs. strbuf_split_buf (\<lambda>_. 7) [0x61, 0x2c, 0x62] 0x2c 0 = Inr sbs \<and> list_all sb_ok sbs \<and>
    concat (map sb_str sbs) = [0x61, 0x2c, 0x62] \<and> map sb_str sbs = [[0x61, 0x2c], [0x62]]"
  using strbuf_split_partition [of "[0x61, 0x2c, 0x62]" "\<lambda>_. 7" "0x2c" 0] by (simp add: pieces.simps)

end
