(* ===== verification/Git_Url.thy ===== *)
theory Git_Url
  imports Git_Strbuf_Text
begin

unbundle bit_operations_syntax

section \<open>URL decoding: url.c\<close>

text \<open>
  The scanner of URL schemes and the percent decoder, written against the string buffer, and the round
  trip with the percent encoder of \<^verbatim>\<open>strbuf.c\<close>.  The remaining length is an \<^verbatim>\<open>int\<close> that is negative when
  the string is only bounded by its NUL; a \<^verbatim>\<open>strlen()\<close> that is passed for it is converted (\<open>c_int\<close>), and
  counting it down below the least \<^verbatim>\<open>int\<close> is a fault.
\<close>

definition is_urlschemechar :: "bool \<Rightarrow> byte \<Rightarrow> bool" where
  "is_urlschemechar first_flag ch =
     (let alphanumeric = (sint ch > 0 \<and> isalnum ch); special = (ch = 0x2b \<or> ch = 0x2d \<or> ch = 0x2e) in
      alphanumeric \<or> (\<not> first_flag \<and> special))"

fun is_url_scheme :: "cstring \<Rightarrow> bool" where
  "is_url_scheme [] = False"
| "is_url_scheme (c # url) =
     (if c = 0x3a then take 2 url = [0x2f, 0x2f]
      else if \<not> is_urlschemechar False c then False else is_url_scheme url)"

definition is_url :: "cstring option \<Rightarrow> bool" where
  "is_url url =
     (case url of None \<Rightarrow> False
      | Some s \<Rightarrow> if \<not> is_urlschemechar True (chr s) then False else is_url_scheme (tl s))"

function url_decode_loop ::
  "(nat \<Rightarrow> byte) \<Rightarrow> cstring \<Rightarrow> int \<Rightarrow> cstring option \<Rightarrow> strbuf \<Rightarrow> bool \<Rightarrow> (cstring \<times> strbuf) result" where
  "url_decode_loop junk q len stop_at out decode_plus =
     (if len = 0 then Inr (q, out)
      else let c = chr q in
      if q = [] \<or> c = 0 then Inr (q, out)
      else if (case stop_at of None \<Rightarrow> False | Some s \<Rightarrow> c \<in> set s) then
        rbind (int_val (len - 1)) (\<lambda>len. Inr (tl q, out))
      else rbind (if c = 0x25 \<and> (len < 0 \<or> len \<ge> 3) then hex2chr (tl q @ [0]) else Inr 0) (\<lambda>val.
        if 0 < sint val then
          rbind (strbuf_addch junk out (ucast val)) (\<lambda>out.
          rbind (int_val (len - 3)) (\<lambda>len.
            url_decode_loop junk (drop 3 q) len stop_at out decode_plus))
        else
          rbind (strbuf_addch junk out (if decode_plus \<and> c = 0x2b then 0x20 else c)) (\<lambda>out.
          rbind (int_val (len - 1)) (\<lambda>len.
            url_decode_loop junk (tl q) len stop_at out decode_plus))))"
  by auto
termination by (relation "measure (\<lambda>(_, q, _). length q)") auto

declare url_decode_loop.simps [simp del]

text \<open>The detached block with its length, and the advanced query pointer.\<close>

definition url_decode_internal ::
  "(nat \<Rightarrow> byte) \<Rightarrow> cstring \<Rightarrow> int \<Rightarrow> cstring option \<Rightarrow> strbuf \<Rightarrow> bool \<Rightarrow> (byte list \<times> nat \<times> cstring) result" where
  "url_decode_internal junk query len stop_at out decode_plus =
     rbind (url_decode_loop junk query len stop_at out decode_plus) (\<lambda>(q, out).
     rbind (strbuf_detach junk out) (\<lambda>(mem, n, _). Inr (mem, n, q)))"

text \<open>\<^verbatim>\<open>memchr(mem, c, n)\<close>, which reads up to the first match or the end of the \<open>n\<close> bytes.\<close>

definition memchr_n :: "byte list \<Rightarrow> byte \<Rightarrow> nat \<Rightarrow> nat option result" where
  "memchr_n mem c n =
     (case memchr (take n mem) c of
        Some k \<Rightarrow> Inr (Some k)
      | None \<Rightarrow> if n \<le> length mem then Inr None else Inl Oob)"

text \<open>The text \<open>url\<close> is followed by a NUL; \<open>len\<close> becomes a size for \<^verbatim>\<open>memchr()\<close>, and the difference is an \<^verbatim>\<open>int\<close> again.\<close>

definition url_decode_mem :: "(nat \<Rightarrow> byte) \<Rightarrow> byte list \<Rightarrow> int \<Rightarrow> (byte list \<times> nat \<times> cstring) result" where
  "url_decode_mem junk url len =
     rbind (memchr_n (url @ [0]) 0x3a (nat (len mod 2 ^ 64))) (\<lambda>colon.
       case colon of
         Some colon \<Rightarrow>
           if 0 < colon then
             rbind (strbuf_add junk STRBUF_INIT (take colon url)) (\<lambda>out.
               url_decode_internal junk (drop colon url) (sint (word_of_int (len - int colon) :: u32)) None out False)
           else url_decode_internal junk url len None STRBUF_INIT False
       | None \<Rightarrow> url_decode_internal junk url len None STRBUF_INIT False)"

definition url_decode :: "(nat \<Rightarrow> byte) \<Rightarrow> cstring \<Rightarrow> (byte list \<times> nat \<times> cstring) result" where
  "url_decode junk url = url_decode_mem junk url (c_int (length url))"

definition url_percent_decode :: "(nat \<Rightarrow> byte) \<Rightarrow> cstring \<Rightarrow> (byte list \<times> nat \<times> cstring) result" where
  "url_percent_decode junk encoded =
     url_decode_internal junk encoded (c_int (length encoded)) None STRBUF_INIT False"

definition url_decode_parameter_name :: "(nat \<Rightarrow> byte) \<Rightarrow> cstring \<Rightarrow> (byte list \<times> nat \<times> cstring) result" where
  "url_decode_parameter_name junk query =
     url_decode_internal junk query (- 1) (Some [0x26, 0x3d]) STRBUF_INIT True"

definition url_decode_parameter_value :: "(nat \<Rightarrow> byte) \<Rightarrow> cstring \<Rightarrow> (byte list \<times> nat \<times> cstring) result" where
  "url_decode_parameter_value junk query =
     url_decode_internal junk query (- 1) (Some [0x26]) STRBUF_INIT True"

definition end_url_with_slash :: "(nat \<Rightarrow> byte) \<Rightarrow> strbuf \<Rightarrow> cstring \<Rightarrow> strbuf result" where
  "end_url_with_slash junk buf url = rbind (strbuf_addstr junk buf url) (\<lambda>buf. strbuf_complete junk buf 0x2f)"

definition str_end_url_with_slash :: "(nat \<Rightarrow> byte) \<Rightarrow> cstring \<Rightarrow> (byte list \<times> nat) result" where
  "str_end_url_with_slash junk url =
     rbind (end_url_with_slash junk STRBUF_INIT url) (\<lambda>buf.
     rbind (strbuf_detach junk buf) (\<lambda>(mem, n, _). Inr (mem, n)))"

subsection \<open>Decoding what was encoded\<close>

lemma hex2chr_two: "hex2chr (a # b # r) = hex2chr [a, b]"
  by (simp add: hex2chr_def Let_def)

lemma hex2chr_percent: "hex2chr (tl (percent_hex upper c)) = Inr (ucast c)"
proof (cases upper)
  case True
  have "hex2chr (tl (percent_hex True c)) = Inr (ucast c)" by (rule table_bytesI) code_simp
  then show ?thesis using True by simp
next
  case False
  have "hex2chr (tl (percent_hex False c)) = Inr (ucast c)" by (rule table_bytesI) code_simp
  then show ?thesis using False by simp
qed

lemma sint_ucast_byte: "sint (ucast (c :: byte) :: u32) = uint c"
proof -
  have "uint c < 2 ^ 8" using unsigned_less [of c, where ?'a = int] by simp
  moreover have "- (2 ^ 31) \<le> uint c" by (rule order_trans [OF _ unsigned_greater_eq]) simp
  ultimately have "signed_take_bit 31 (uint c) = uint c" by (simp add: signed_take_bit_int_eq_self)
  then show ?thesis by (simp add: signed_ucast_eq)
qed

lemma must_encode_percent: "must_encode flags 0x25"
  by (simp add: must_encode_def URL_UNSAFE_CHARS_def isalnum_iff isalpha_iff isdigit_iff)

text \<open>One encoded byte is decoded in one round.\<close>

lemma url_decode_round:
  assumes c: "c \<noteq> 0" and len: "len = int (length (percent_encode flags c)) + int n" and small: "len < 2 ^ 31"
  shows "url_decode_loop junk (percent_encode flags c @ r) len None out False =
    rbind (strbuf_addch junk out c) (\<lambda>out. url_decode_loop junk r (int n) None out False)"
proof (cases "must_encode flags c")
  case True
  obtain a b where ab: "percent_encode flags c = [0x25, a, b]" "hex2chr [a, b] = Inr (ucast c)"
    using True hex2chr_percent [of True c] by (simp add: percent_encode_def percent_hex_def)
  have "uint c \<noteq> 0" "0 \<le> uint c" using c by (simp_all add: unsigned_eq_0_iff)
  then have "0 < uint c" by linarith
  then have "0 < sint (ucast c :: u32)" by (simp add: sint_ucast_byte)
  moreover have "ucast (ucast c :: u32) = c" by (rule bit_word_eqI) (simp add: bit_simps)
  ultimately show ?thesis
    using len small ab hex2chr_two [of a b "r @ [0]"] by (subst url_decode_loop.simps) (simp add: ab)
next
  case False
  then have "c \<noteq> 0x25" using must_encode_percent by metis
  then show ?thesis using False c len small by (subst url_decode_loop.simps) (simp add: percent_encode_def)
qed

lemma url_decode_encoded:
  "sb_ok out \<Longrightarrow> cstring_ok s \<Longrightarrow> length (concat (map (percent_encode flags) s)) < 2 ^ 31 \<Longrightarrow>
   case url_decode_loop junk (concat (map (percent_encode flags) s))
       (int (length (concat (map (percent_encode flags) s)))) None out False of
     Inl e \<Rightarrow> e = Died \<and> 2 ^ 64 \<le> length (sb_str out @ s) + 65
   | Inr (q, out') \<Rightarrow> q = [] \<and> sb_ok out' \<and> sb_str out' = sb_str out @ s"
proof (induction s arbitrary: out)
  case Nil
  then show ?case by (simp add: url_decode_loop.simps)
next
  case (Cons c s)
  define e where "e = concat (map (percent_encode flags) s)"
  have "url_decode_loop junk (percent_encode flags c @ e) (int (length (percent_encode flags c @ e))) None out False =
      rbind (strbuf_addch junk out c) (\<lambda>out. url_decode_loop junk e (int (length e)) None out False)"
    by (rule url_decode_round) (use Cons.prems in \<open>simp_all add: e_def\<close>)
  moreover have "case strbuf_addch junk out c of Inl e \<Rightarrow> e = Died \<and> 2 ^ 64 \<le> length (sb_str out @ [c]) + 65
      | Inr out' \<Rightarrow> sb_ok out' \<and> sb_str out' = sb_str out @ [c]"
    using strbuf_addch_yields [OF Cons.prems(1)] by (simp add: yields_def)
  moreover have "case url_decode_loop junk e (int (length e)) None out' False of
      Inl e \<Rightarrow> e = Died \<and> 2 ^ 64 \<le> length (sb_str out' @ s) + 65
    | Inr (q, out'') \<Rightarrow> q = [] \<and> sb_ok out'' \<and> sb_str out'' = sb_str out' @ s" if "sb_ok out'" for out'
    using Cons.IH [OF that] Cons.prems(2,3) by (simp add: e_def)
  ultimately show ?case
    by (cases "strbuf_addch junk out c") (fastforce simp: e_def [symmetric] split: sum.splits)+
qed

text \<open>C32: Percent-encoding a string into a buffer, under any combination of the encoding flags, and
  percent-decoding the buffer's string gives the string back, terminated by a NUL, as long as the
  encoded text is shorter than 2 GiB: the decoder takes its length as an \<^verbatim>\<open>int\<close>.\<close>

theorem percent_roundtrip:
  assumes "cstring_ok s" "3 * length s < 2 ^ 31"
  shows "\<exists>sb mem. strbuf_add_percentencode junk STRBUF_INIT s flags = Inr sb \<and> sb_ok sb \<and>
    url_percent_decode junk (sb_str sb) = Inr (mem, length s, []) \<and>
    take (length s) mem = s \<and> mem ! length s = 0"
proof -
  let ?e = "concat (map (percent_encode flags) s)"
  have "length ?e \<le> 3 * length s"
    by (induction s) (auto simp: percent_encode_def percent_hex_def)
  then have e: "length ?e < 2 ^ 31" using assms(2) by simp
  then obtain sb where sb: "strbuf_add_percentencode junk STRBUF_INIT s flags = Inr sb" "sb_ok sb" "sb_str sb = ?e"
    using yields_small [OF strbuf_add_percentencode_yields [OF sb_ok_init(1), of junk s flags]]
    by (auto elim: givesE)
  obtain out where out: "url_decode_loop junk ?e (int (length ?e)) None STRBUF_INIT False = Inr ([], out)"
      "sb_ok out" "sb_str out = s"
    using url_decode_encoded [OF sb_ok_init(1) assms(1) e, of junk] assms(2)
    by (auto split: sum.splits)
  have "sb_len out = length s" using sb_okD(3) [OF out(2)] out(3) by simp
  then obtain mem sb' where "strbuf_detach junk out = Inr (mem, length s, sb')" "take (length s) mem = s" "mem ! length s = 0"
    using strbuf_detach_spec [OF out(2), of junk] out(3) assms(2) by (auto split: sum.splits)
  then show ?thesis
    using sb out(1) by (auto simp: url_percent_decode_def url_decode_internal_def c_int_small [OF e])
qed

theorem percent_roundtrip_witness:
  "\<exists>sb mem. strbuf_add_percentencode (\<lambda>_. 7) STRBUF_INIT [0x61, 0x20, 0x25] 0 = Inr sb \<and> sb_ok sb \<and>
    url_percent_decode (\<lambda>_. 7) (sb_str sb) = Inr (mem, length [0x61, 0x20, 0x25 :: byte], []) \<and>
    take (length [0x61, 0x20, 0x25 :: byte]) mem = [0x61, 0x20, 0x25] \<and> mem ! length [0x61, 0x20, 0x25 :: byte] = 0"
  by (rule percent_roundtrip) simp_all

end
