(* ===== verification/Git_Path.thy ===== *)
theory Git_Path
  imports Git_Strbuf_Text
begin

unbundle bit_operations_syntax

section \<open>Path names as text: path.c\<close>

text \<open>
  The functions of \<^verbatim>\<open>path.c\<close> that work on the text of a path and make no system call.  The platform
  definitions are those of POSIX: \<^verbatim>\<open>is_dir_sep\<close> is \<^verbatim>\<open>git_is_dir_sep\<close> and there is no drive prefix.  In
  \<^verbatim>\<open>relative_path()\<close> the lengths and offsets are the \<^verbatim>\<open>int\<close>s of the code: a \<^verbatim>\<open>strlen()\<close> is converted (\<open>c_int\<close>), and
  counting beyond the largest \<^verbatim>\<open>int\<close> is a fault; in the other functions an \<^verbatim>\<open>int\<close> that holds a length or
  an index is a natural number, which agrees with the code for paths shorter than 2 GiB.  Indices into a C string never pass its NUL, which
  \<open>chr (drop i s)\<close> reads at \<open>i = length s\<close>.

  A path is understood through \<open>path_components\<close>, its parts between slashes, and \<open>walk\<close>, the directory
  these lead to.
\<close>

definition is_xplatform_dir_sep :: "byte \<Rightarrow> bool" where
  "is_xplatform_dir_sep c \<longleftrightarrow> c = 0x2f \<or> c = 0x5c"

definition git_has_dos_drive_prefix :: "cstring \<Rightarrow> nat" where
  "git_has_dos_drive_prefix path = 0"

definition git_offset_1st_component :: "cstring \<Rightarrow> nat" where
  "git_offset_1st_component path = (if git_is_dir_sep (chr path) then 1 else 0)"

definition is_absolute_path :: "cstring \<Rightarrow> bool" where
  "is_absolute_path path \<longleftrightarrow> git_is_dir_sep (chr path) \<or> git_has_dos_drive_prefix path \<noteq> 0"

subsection \<open>A path relative to another\<close>

definition have_same_root :: "cstring \<Rightarrow> cstring \<Rightarrow> bool" where
  "have_same_root path1 path2 \<longleftrightarrow>
     (let is_abs1 = is_absolute_path path1; is_abs2 = is_absolute_path path2 in
      is_abs1 \<and> is_abs2 \<and> tolower (chr path1) = tolower (chr path2) \<or> \<not> is_abs1 \<and> \<not> is_abs2)"

text \<open>\<^verbatim>\<open>while (is_dir_sep(s[i])) i++\<close>\<close>

definition skip_seps :: "cstring \<Rightarrow> nat \<Rightarrow> nat" where
  "skip_seps s i = i + length (takeWhile git_is_dir_sep (drop i s))"

lemma skip_seps_gt: "i < length s \<Longrightarrow> git_is_dir_sep (s ! i) \<Longrightarrow> i < skip_seps s i"
  by (simp add: skip_seps_def Cons_nth_drop_Suc [symmetric])

lemma skip_seps_measure [simp]:
  "i < length s \<Longrightarrow> git_is_dir_sep (s ! i) \<Longrightarrow> length s - skip_seps s i < length s - i"
  using skip_seps_gt by (meson diff_less_mono2)

text \<open>The same loop on an \<^verbatim>\<open>int\<close> index.\<close>

definition skip_int :: "cstring \<Rightarrow> nat \<Rightarrow> nat result" where
  "skip_int s i = (let k = skip_seps s i in if k < 2 ^ 31 then Inr k else Inl Int_overflow)"

lemma skip_int_measure:
  assumes "int i < c_int (length s)" "git_is_dir_sep (s ! i)" "skip_int s i = Inr k"
  shows "length s - k < length s - i"
proof -
  have "i < length s" using assms(1) c_int_le [of "length s"] by linarith
  then show ?thesis using assms(2,3) by (auto simp: skip_int_def Let_def split: if_splits)
qed

lemma c_int_index: "int i < c_int n \<Longrightarrow> i < n"
  using c_int_le [of n] by linarith

function relative_loop ::
  "cstring \<Rightarrow> cstring \<Rightarrow> nat \<Rightarrow> nat \<Rightarrow> nat \<Rightarrow> nat \<Rightarrow> (nat \<times> nat \<times> nat \<times> nat) result" where
  "relative_loop inp prefix i j prefix_off in_off =
     (if int i < c_int (length prefix) \<and> int j < c_int (length inp) \<and> prefix ! i = inp ! j then
        if git_is_dir_sep (prefix ! i) then
          rbind (skip_int prefix i) (\<lambda>i. rbind (skip_int inp j) (\<lambda>j. relative_loop inp prefix i j i j))
        else relative_loop inp prefix (i + 1) (j + 1) prefix_off in_off
      else Inr (i, j, prefix_off, in_off))"
  by auto
termination
  by (relation "measure (\<lambda>(_, prefix, i, _). length prefix - i)")
    (auto intro: skip_int_measure dest: c_int_index)

declare relative_loop.simps [simp del]

function up_loop :: "(nat \<Rightarrow> byte) \<Rightarrow> strbuf \<Rightarrow> cstring \<Rightarrow> nat \<Rightarrow> strbuf result" where
  "up_loop junk sb prefix i =
     (if int i < c_int (length prefix) then
        if git_is_dir_sep (prefix ! i) then
          rbind (strbuf_addstr junk sb [0x2e, 0x2e, 0x2f]) (\<lambda>sb.
          rbind (skip_int prefix i) (\<lambda>i. up_loop junk sb prefix i))
        else up_loop junk sb prefix (i + 1)
      else Inr sb)"
  by auto
termination
  by (relation "measure (\<lambda>(_, _, prefix, i). length prefix - i)")
    (auto intro: skip_int_measure dest: c_int_index)

declare up_loop.simps [simp del]

text \<open>The offsets \<^verbatim>\<open>i\<close> and \<^verbatim>\<open>in_off\<close> after the comparison of the two paths.\<close>

definition relative_offsets :: "cstring \<Rightarrow> cstring \<Rightarrow> (nat \<times> int) result" where
  "relative_offsets inp prefix =
     (let in_len = c_int (length inp); prefix_len = c_int (length prefix) in
      rbind (relative_loop inp prefix (git_has_dos_drive_prefix inp) (git_has_dos_drive_prefix inp) 0 0)
        (\<lambda>(i, j, prefix_off, in_off).
          if prefix_len \<le> int i \<and> int prefix_off < prefix_len then
            if in_len \<le> int j then Inr (i, in_len)
            else if git_is_dir_sep (inp ! j) then rbind (skip_int inp j) (\<lambda>j. Inr (i, int j))
            else Inr (prefix_off, int in_off)
          else if in_len \<le> int j \<and> int in_off < in_len then
            if git_is_dir_sep (chr (drop i prefix)) then rbind (skip_int prefix i) (\<lambda>i. Inr (i, in_len))
            else Inr (i, int in_off)
          else Inr (i, int in_off)))"

text \<open>The returned string, and the string buffer, which may or may not hold it.  \<open>None\<close> is NULL.\<close>

definition relative_path ::
  "(nat \<Rightarrow> byte) \<Rightarrow> cstring option \<Rightarrow> cstring option \<Rightarrow> strbuf \<Rightarrow> (cstring \<times> strbuf) result" where
  "relative_path junk inp prefix sb =
     (let in_len = (case inp of None \<Rightarrow> 0 | Some s \<Rightarrow> c_int (length s));
          prefix_len = (case prefix of None \<Rightarrow> 0 | Some s \<Rightarrow> c_int (length s));
          inp = the inp; prefix = the prefix in
      if in_len = 0 then Inr ([0x2e, 0x2f], sb)
      else if prefix_len = 0 then Inr (inp, sb)
      else if \<not> have_same_root inp prefix then Inr (inp, sb)
      else
        rbind (relative_offsets inp prefix) (\<lambda>(i, in_off).
        if in_off < 0 then Inl Oob
        else let inp = drop (nat in_off) inp in
        rbind (int_val (in_len - in_off)) (\<lambda>in_len.
          if prefix_len \<le> int i then Inr (if in_len = 0 then [0x2e, 0x2f] else inp, sb)
          else
            rbind (strbuf_reset sb) (\<lambda>sb.
            rbind (strbuf_grow junk sb (nat (in_len mod 2 ^ 64))) (\<lambda>sb.
            rbind (up_loop junk sb prefix i) (\<lambda>sb.
            rbind (if \<not> git_is_dir_sep (prefix ! nat (prefix_len - 1)) then strbuf_addstr junk sb [0x2e, 0x2e, 0x2f]
                   else Inr sb) (\<lambda>sb.
            rbind (strbuf_addstr junk sb inp) (\<lambda>sb.
              Inr (takeWhile (\<lambda>c. c \<noteq> 0) (sb_buf sb), sb)))))))))"

text \<open>The loop of \<^verbatim>\<open>remove_leading_path()\<close>: the index into \<^verbatim>\<open>in\<close>, or \<open>None\<close> where \<^verbatim>\<open>in\<close> itself is returned.\<close>

function leading_loop :: "cstring \<Rightarrow> cstring \<Rightarrow> nat \<Rightarrow> nat \<Rightarrow> nat option" where
  "leading_loop inp prefix i j =
     (if i < length prefix then
        if git_is_dir_sep (prefix ! i) then
          if \<not> git_is_dir_sep (chr (drop j inp)) then None
          else leading_loop inp prefix (skip_seps prefix i) (skip_seps inp j)
        else if chr (drop j inp) \<noteq> prefix ! i then None
        else leading_loop inp prefix (i + 1) (j + 1)
      else Some j)"
  by auto
termination
  by (relation "measure (\<lambda>(_, prefix, i, _). length prefix - i)") auto

declare leading_loop.simps [simp del]

text \<open>\<open>buf\<close> is the static string buffer.\<close>

definition remove_leading_path ::
  "(nat \<Rightarrow> byte) \<Rightarrow> strbuf \<Rightarrow> cstring \<Rightarrow> cstring option \<Rightarrow> (cstring \<times> strbuf) result" where
  "remove_leading_path junk buf inp prefix =
     (case prefix of
        None \<Rightarrow> Inr (inp, buf)
      | Some p \<Rightarrow>
          if p = [] then Inr (inp, buf)
          else (case leading_loop inp p 0 0 of
            None \<Rightarrow> Inr (inp, buf)
          | Some j \<Rightarrow>
              if j < length inp \<and> \<not> git_is_dir_sep (last p) \<and> \<not> git_is_dir_sep (inp ! j) then Inr (inp, buf)
              else
                let rest = drop (skip_seps inp j) inp in
                rbind (strbuf_reset buf) (\<lambda>buf.
                rbind (strbuf_addstr junk buf (if rest = [] then [0x2e] else rest)) (\<lambda>buf.
                  Inr (takeWhile (\<lambda>c. c \<noteq> 0) (sb_buf buf), buf)))))"

subsection \<open>Normalizing\<close>

text \<open>
  \<open>mem\<close> is the block \<^verbatim>\<open>dst\<close> points into, \<open>src\<close> the rest of the source, which is another block, as it is for
  \<^verbatim>\<open>strbuf_normalize_path()\<close>.  \<open>copy_component\<close> also tells whether it met a slash.
\<close>

fun copy_component :: "byte list \<Rightarrow> nat \<Rightarrow> cstring \<Rightarrow> (byte list \<times> nat \<times> cstring \<times> bool) result" where
  "copy_component mem dst [] = Inr (mem, dst, [], False)"
| "copy_component mem dst (c # src) =
     (if git_is_dir_sep c then
        rbind (wr mem dst 0x2f) (\<lambda>mem. Inr (mem, dst + 1, dropWhile git_is_dir_sep src, True))
      else rbind (wr mem dst c) (\<lambda>mem. copy_component mem (dst + 1) src))"

fun back_loop :: "byte list \<Rightarrow> nat \<Rightarrow> nat \<Rightarrow> nat result" where
  "back_loop mem dst0 0 = Inr 0"
| "back_loop mem dst0 (Suc d) =
     (if dst0 < Suc d then rbind (rd mem d) (\<lambda>c. if c \<noteq> 0x2f then back_loop mem dst0 d else Inr (Suc d))
      else Inr (Suc d))"

text \<open>\<^verbatim>\<open>up_one\<close>: the new \<^verbatim>\<open>dst\<close> and \<^verbatim>\<open>*prefix_len\<close>, or \<open>None\<close> for the error.\<close>

definition up_one :: "byte list \<Rightarrow> nat \<Rightarrow> nat \<Rightarrow> int option \<Rightarrow> (nat \<times> int option) option result" where
  "up_one mem dst0 dst prefix_len =
     (if dst - 1 \<le> dst0 then Inr None
      else rbind (back_loop mem dst0 (dst - 1)) (\<lambda>dst.
        Inr (Some (dst, case prefix_len of
          None \<Rightarrow> None | Some n \<Rightarrow> Some (if n > int (dst - dst0) then int (dst - dst0) else n)))))"

lemma copy_component_length:
  "copy_component mem dst src = Inr (mem', dst', src', sep) \<Longrightarrow> length src' \<le> length src \<and> (sep \<longrightarrow> length src' < length src)"
proof (induction mem dst src rule: copy_component.induct)
  case (2 mem dst c src)
  then show ?case using length_dropWhile_le [of git_is_dir_sep src]
    by (fastforce simp: rbind_eq_Inr split: if_splits)
qed simp

text \<open>The cases (3) and (4) of the code: a component \<open>..\<close>, and what follows it.\<close>

definition dotdot_rest :: "cstring \<Rightarrow> cstring option" where
  "dotdot_rest src =
     (if chr src = 0x2e \<and> chr (drop 1 src) = 0x2e then
        if drop 2 src = [] then Some []
        else if git_is_dir_sep (chr (drop 2 src)) then Some (dropWhile git_is_dir_sep (drop 3 src))
        else None
      else None)"

lemma dotdot_rest_length: "dotdot_rest src = Some r \<Longrightarrow> length r < length src"
  using length_dropWhile_le [of git_is_dir_sep "drop 3 src"]
  by (cases src) (auto simp: dotdot_rest_def split: if_splits)

function normalize_loop ::
  "byte list \<Rightarrow> nat \<Rightarrow> nat \<Rightarrow> cstring \<Rightarrow> int option \<Rightarrow> (byte list \<times> int \<times> int option) result" where
  "normalize_loop mem dst0 dst src prefix_len =
     (if chr src = 0x2e \<and> git_is_dir_sep (chr (drop 1 src)) then
        normalize_loop mem dst0 dst (dropWhile git_is_dir_sep (drop 2 src)) prefix_len
      else case dotdot_rest src of
        Some src \<Rightarrow>
          rbind (up_one mem dst0 dst prefix_len) (\<lambda>r.
            case r of
              None \<Rightarrow> Inr (mem, - 1, prefix_len)
            | Some (dst, prefix_len) \<Rightarrow> normalize_loop mem dst0 dst src prefix_len)
      | None \<Rightarrow>
          rbind (copy_component mem dst (if chr src = 0x2e \<and> drop 1 src = [] then drop 1 src else src))
            (\<lambda>(mem, dst, src, sep).
              if sep then normalize_loop mem dst0 dst src prefix_len
              else rbind (wr mem dst 0) (\<lambda>mem. Inr (mem, 0, prefix_len))))"
  by pat_completeness auto
termination
proof (relation "measure (\<lambda>(_, _, _, src, _). length src)", goal_cases)
  case (2 mem dst0 dst src prefix_len)
  then show ?case using length_dropWhile_le [of git_is_dir_sep "drop 2 src"] by (cases src) auto
qed (auto dest: dotdot_rest_length dest!: copy_component_length split: if_splits)

declare normalize_loop.simps [simp del]

text \<open>
  The block after the call, the return value and \<^verbatim>\<open>*prefix_len\<close>.  The first loop of the code copies the
  leading slash.
\<close>

definition normalize_path_copy_len ::
  "byte list \<Rightarrow> nat \<Rightarrow> cstring \<Rightarrow> int option \<Rightarrow> (byte list \<times> int \<times> int option) result" where
  "normalize_path_copy_len mem dst src prefix_len =
     (let n = git_offset_1st_component src in
      rbind (if n = 0 then Inr mem else wr mem dst (if git_is_dir_sep (chr src) then 0x2f else chr src)) (\<lambda>mem.
        normalize_loop mem (dst + n) (dst + n) (dropWhile git_is_dir_sep (drop n src)) prefix_len))"

definition normalize_path_copy :: "byte list \<Rightarrow> nat \<Rightarrow> cstring \<Rightarrow> (byte list \<times> int) result" where
  "normalize_path_copy mem dst src =
     rbind (normalize_path_copy_len mem dst src None) (\<lambda>(mem, ret, _). Inr (mem, ret))"

definition strbuf_normalize_path :: "(nat \<Rightarrow> byte) \<Rightarrow> strbuf \<Rightarrow> (int \<times> strbuf) result" where
  "strbuf_normalize_path junk src =
     rbind (strbuf_grow junk STRBUF_INIT (sb_len src)) (\<lambda>dst.
     rbind (normalize_path_copy (sb_buf dst) 0 (takeWhile (\<lambda>c. c \<noteq> 0) (sb_buf src))) (\<lambda>(mem, ret).
       let dst = dst\<lparr>sb_buf := mem\<rparr> in
       if ret < 0 then rbind (strbuf_release junk dst) (\<lambda>_. Inr (- 1, src))
       else
         rbind (strbuf_setlen dst (length (takeWhile (\<lambda>c. c \<noteq> 0) (sb_buf dst)))) (\<lambda>dst.
         let (src, dst) = strbuf_swap src dst in
         rbind (strbuf_release junk dst) (\<lambda>_. Inr (0, src)))))"

subsection \<open>Ancestors and suffixes\<close>

fun longest_ancestor_loop :: "cstring \<Rightarrow> int \<Rightarrow> cstring list \<Rightarrow> int" where
  "longest_ancestor_loop path max_len [] = max_len"
| "longest_ancestor_loop path max_len (ceil # prefixes) =
     (let len = length ceil;
          len = (if 0 < len \<and> ceil ! (len - 1) = 0x2f then len - 1 else len) in
      if take len path \<noteq> take len ceil \<or> chr (drop len path) \<noteq> 0x2f \<or> drop (len + 1) path = []
      then longest_ancestor_loop path max_len prefixes
      else longest_ancestor_loop path (if int len > max_len then int len else max_len) prefixes)"

definition longest_ancestor_length :: "cstring \<Rightarrow> cstring list \<Rightarrow> int" where
  "longest_ancestor_length path prefixes =
     (if path = [0x2f] then - 1 else longest_ancestor_loop path (- 1) prefixes)"

fun chomp_trailing_dir_sep :: "cstring \<Rightarrow> nat \<Rightarrow> nat" where
  "chomp_trailing_dir_sep path 0 = 0"
| "chomp_trailing_dir_sep path (Suc len) =
     (if git_is_dir_sep (path ! len) then chomp_trailing_dir_sep path len else Suc len)"

lemma chomp_le: "chomp_trailing_dir_sep path len \<le> len"
  by (induction len) auto

function suffix_loop :: "cstring \<Rightarrow> cstring \<Rightarrow> nat \<Rightarrow> nat \<Rightarrow> nat option" where
  "suffix_loop path suffix path_len suffix_len =
     (if suffix_len = 0 then Some path_len
      else if path_len = 0 then None
      else if git_is_dir_sep (path ! (path_len - 1)) then
        if \<not> git_is_dir_sep (suffix ! (suffix_len - 1)) then None
        else suffix_loop path suffix (chomp_trailing_dir_sep path path_len) (chomp_trailing_dir_sep suffix suffix_len)
      else if path ! (path_len - 1) \<noteq> suffix ! (suffix_len - 1) then None
      else suffix_loop path suffix (path_len - 1) (suffix_len - 1))"
  by auto
termination
proof (relation "measure (\<lambda>(_, _, n, _). n)", goal_cases)
  case (2 path suffix path_len suffix_len)
  then show ?case using chomp_le [of path "path_len - 1"] by (cases path_len) auto
qed auto

declare suffix_loop.simps [simp del]

definition stripped_path_suffix_offset :: "cstring \<Rightarrow> cstring \<Rightarrow> int" where
  "stripped_path_suffix_offset path suffix =
     (case suffix_loop path suffix (length path) (length suffix) of
        None \<Rightarrow> - 1
      | Some path_len \<Rightarrow>
          if path_len \<noteq> 0 \<and> \<not> git_is_dir_sep (path ! (path_len - 1)) then - 1
          else int (chomp_trailing_dir_sep path path_len))"

definition ends_with_path_components :: "cstring \<Rightarrow> cstring \<Rightarrow> bool" where
  "ends_with_path_components path components \<longleftrightarrow> stripped_path_suffix_offset path components \<noteq> - 1"

definition strip_path_suffix :: "cstring \<Rightarrow> cstring \<Rightarrow> cstring option" where
  "strip_path_suffix path suffix =
     (let offset = stripped_path_suffix_offset path suffix in
      if offset = - 1 then None else Some (take (nat offset) path))"

subsection \<open>Paths that are refused\<close>

fun avoid_alias_loop :: "bool \<Rightarrow> nat \<Rightarrow> cstring \<Rightarrow> int" where
  "avoid_alias_loop sl ndot [] = (if sl \<and> 0 < ndot \<and> ndot < 3 then - 1 else 0)"
| "avoid_alias_loop sl ndot (ch # p) =
     (if sl then
        if ch = 0x2e then avoid_alias_loop sl (ndot + 1) p
        else if ch = 0x2f then (if ndot < 3 then - 1 else avoid_alias_loop sl 0 p)
        else avoid_alias_loop False 0 p
      else if ch = 0x2f then avoid_alias_loop True 0 p
      else avoid_alias_loop sl ndot p)"

definition daemon_avoid_alias :: "cstring option \<Rightarrow> int" where
  "daemon_avoid_alias p =
     (case p of
        None \<Rightarrow> - 1
      | Some p \<Rightarrow> if chr p \<noteq> 0x2f \<and> chr p \<noteq> 0x7e then - 1 else avoid_alias_loop True 0 (tl p))"

fun ntfs_dotgit_tail :: "cstring \<Rightarrow> bool" where
  "ntfs_dotgit_tail [] = True"
| "ntfs_dotgit_tail (c # name) =
     (if is_xplatform_dir_sep c \<or> c = 0x3a then True
      else if c \<noteq> 0x2e \<and> c \<noteq> 0x20 then False
      else ntfs_dotgit_tail name)"

definition is_ntfs_dotgit :: "cstring \<Rightarrow> bool" where
  "is_ntfs_dotgit name =
     (if chr name = 0x2e then
        if chr (drop 1 name) \<notin> {0x67, 0x47} \<or> chr (drop 2 name) \<notin> {0x69, 0x49} \<or> chr (drop 3 name) \<notin> {0x74, 0x54}
        then False else ntfs_dotgit_tail (drop 4 name)
      else if chr name \<in> {0x67, 0x47} then
        if chr (drop 1 name) \<notin> {0x69, 0x49} \<or> chr (drop 2 name) \<notin> {0x74, 0x54}
          \<or> chr (drop 3 name) \<noteq> 0x7e \<or> chr (drop 4 name) \<noteq> 0x31
        then False else ntfs_dotgit_tail (drop 5 name)
      else False)"

text \<open>\<^verbatim>\<open>!strncasecmp(s, t, n)\<close>\<close>

definition strncaseeq :: "cstring \<Rightarrow> cstring \<Rightarrow> nat \<Rightarrow> bool" where
  "strncaseeq s t n \<longleftrightarrow> map tolower (take n s) = map tolower (take n t)"

fun only_spaces_and_periods :: "cstring \<Rightarrow> bool" where
  "only_spaces_and_periods [] = True"
| "only_spaces_and_periods (c # name) =
     (if c = 0x3a then True else if c \<noteq> 0x20 \<and> c \<noteq> 0x2e then False else only_spaces_and_periods name)"

text \<open>The loop over a fall-back short name: the index behind it, or \<open>None\<close>.\<close>

function short_name_loop :: "cstring \<Rightarrow> cstring \<Rightarrow> nat \<Rightarrow> bool \<Rightarrow> nat option" where
  "short_name_loop name prefix i saw_tilde =
     (if \<not> i < 8 then Some i
      else let c = chr (drop i name) in
        if c = 0 then None
        else if saw_tilde then
          if c < 0x30 \<or> c > 0x39 then None else short_name_loop name prefix (i + 1) saw_tilde
        else if c = 0x7e then
          let i = i + 1; c = chr (drop i name) in
          if c < 0x31 \<or> c > 0x39 then None else short_name_loop name prefix (i + 1) True
        else if i \<ge> 6 then None
        else if c AND 0x80 \<noteq> 0 then None
        else if tolower c \<noteq> chr (drop i prefix) then None
        else short_name_loop name prefix (i + 1) saw_tilde)"
  by auto
termination by (relation "measure (\<lambda>(_, _, i, _). 8 - i)") auto

declare short_name_loop.simps [simp del]

definition is_ntfs_dot_generic :: "cstring \<Rightarrow> cstring \<Rightarrow> nat \<Rightarrow> cstring \<Rightarrow> bool" where
  "is_ntfs_dot_generic name dotgit_name len shortname_prefix =
     (if chr name = 0x2e \<and> strncaseeq (drop 1 name) dotgit_name len then only_spaces_and_periods (drop (len + 1) name)
      else if strncaseeq name dotgit_name 6 \<and> chr (drop 6 name) = 0x7e
        \<and> chr (drop 7 name) \<ge> 0x31 \<and> chr (drop 7 name) \<le> 0x34
      then only_spaces_and_periods (drop 8 name)
      else case short_name_loop name shortname_prefix 0 False of
        None \<Rightarrow> False | Some i \<Rightarrow> only_spaces_and_periods (drop i name))"

definition is_ntfs_dot_str :: "cstring \<Rightarrow> cstring \<Rightarrow> cstring \<Rightarrow> bool" where
  "is_ntfs_dot_str name dotgit_name shortname_prefix =
     is_ntfs_dot_generic name dotgit_name (length dotgit_name) shortname_prefix"

definition is_ntfs_dotgitmodules :: "cstring \<Rightarrow> bool" where
  "is_ntfs_dotgitmodules name = is_ntfs_dot_str name (map of_char ''gitmodules'') (map of_char ''gi7eba'')"

definition is_ntfs_dotgitignore :: "cstring \<Rightarrow> bool" where
  "is_ntfs_dotgitignore name = is_ntfs_dot_str name (map of_char ''gitignore'') (map of_char ''gi250a'')"

definition is_ntfs_dotgitattributes :: "cstring \<Rightarrow> bool" where
  "is_ntfs_dotgitattributes name = is_ntfs_dot_str name (map of_char ''gitattributes'') (map of_char ''gi7d29'')"

definition is_ntfs_dotmailmap :: "cstring \<Rightarrow> bool" where
  "is_ntfs_dotmailmap name = is_ntfs_dot_str name (map of_char ''mailmap'') (map of_char ''maba30'')"

definition looks_like_command_line_option :: "cstring option \<Rightarrow> bool" where
  "looks_like_command_line_option str = (case str of None \<Rightarrow> False | Some s \<Rightarrow> chr s = 0x2d)"

subsection \<open>The directory a path leads to\<close>

primrec path_components :: "cstring \<Rightarrow> cstring list" where
  "path_components [] = [[]]"
| "path_components (c # s) =
     (if git_is_dir_sep c then [] # path_components s
      else (c # hd (path_components s)) # tl (path_components s))"

definition path_name :: "cstring \<Rightarrow> bool" where
  "path_name c \<longleftrightarrow> c \<notin> {[], [0x2e], [0x2e, 0x2e]}"

fun walk :: "cstring list \<Rightarrow> cstring list \<Rightarrow> cstring list option" where
  "walk st [] = Some st"
| "walk st (c # cs) =
     (if path_name c then walk (c # st) cs
      else if c = [0x2e, 0x2e] then (case st of [] \<Rightarrow> None | _ # st \<Rightarrow> walk st cs)
      else walk st cs)"

text \<open>The text of the directory, and of a path that ends in \<open>c\<close>: a name has no slash behind it.\<close>

definition dir_text :: "cstring list \<Rightarrow> byte list" where
  "dir_text st = concat (map (\<lambda>c. c @ [0x2f]) (rev st))"

definition final_text :: "cstring \<Rightarrow> cstring list \<Rightarrow> byte list" where
  "final_text c st = (if path_name c then butlast (dir_text st) else dir_text st)"

definition no_sep :: "cstring \<Rightarrow> bool" where
  "no_sep s \<longleftrightarrow> (\<forall>c\<in>set s. \<not> git_is_dir_sep c)"

lemma no_sep_simps [simp]:
  "no_sep []" "no_sep (c # s) \<longleftrightarrow> \<not> git_is_dir_sep c \<and> no_sep s" "no_sep (s @ t) \<longleftrightarrow> no_sep s \<and> no_sep t"
  by (auto simp: no_sep_def)

lemma path_components_ne [simp]: "path_components s \<noteq> []"
  by (cases s) auto

lemma path_components_append:
  "no_sep a \<Longrightarrow> path_components (a @ s) = (a @ hd (path_components s)) # tl (path_components s)"
  by (induction a) simp_all

lemma path_components_no_sep [simp]: "no_sep a \<Longrightarrow> path_components a = [a]"
  using path_components_append [of a "[]"] by simp

lemma path_components_sep [simp]:
  "no_sep a \<Longrightarrow> git_is_dir_sep x \<Longrightarrow> path_components (a @ x # s) = a # path_components s"
  by (simp add: path_components_append)

lemma path_components_all: "list_all no_sep (path_components s)"
proof (induction s)
  case (Cons c s)
  then show ?case by (cases "path_components s") auto
qed simp

text \<open>A path is a component without a slash, alone or in front of a slash and the rest.\<close>

lemma component_cases:
  obtains (only) "no_sep src" "path_components src = [src]"
  | (sep) nm x r where "src = nm @ x # r" "no_sep nm" "git_is_dir_sep x"
      "path_components src = nm # path_components r"
proof (cases "no_sep src")
  case False
  then obtain nm x r where "src = nm @ x # r" "no_sep nm" "git_is_dir_sep x"
    using split_list_first_prop [of src git_is_dir_sep] by (auto simp: no_sep_def)
  then show ?thesis using sep by simp
qed (use only in simp)

lemma walk_seps:
  "walk st (path_components (dropWhile git_is_dir_sep s)) = walk st (path_components s)"
  "last (path_components (dropWhile git_is_dir_sep s)) = last (path_components s)"
  by (induction s) (auto simp: path_name_def)

lemma walk_append: "walk st (a @ b) = (case walk st a of None \<Rightarrow> None | Some st \<Rightarrow> walk st b)"
  by (induction st a rule: walk.induct) (auto split: list.splits)

lemma dir_text_simps [simp]: "dir_text [] = []" "dir_text (c # st) = dir_text st @ c @ [0x2f]"
  by (simp_all add: dir_text_def)

lemma final_text_name: "path_name c \<Longrightarrow> final_text c (c # st) = dir_text st @ c"
  by (simp add: final_text_def butlast_append)

lemma is_sep_slash [simp]: "git_is_dir_sep 0x2f" "\<not> git_is_dir_sep 0x2e" "\<not> git_is_dir_sep 0"
  by (simp_all add: git_is_dir_sep_def)

subsection \<open>Normalizing writes the text of the directory\<close>

lemma copy_component_run:
  "no_sep nm \<Longrightarrow> length nm \<le> length R \<Longrightarrow>
   copy_component (A @ R) (length A) (nm @ rest) =
   copy_component (A @ nm @ drop (length nm) R) (length A + length nm) rest"
proof (induction nm arbitrary: A R)
  case (Cons c nm)
  then obtain r R' where R: "R = r # R'" by (cases R) auto
  show ?case using Cons.IH [of R' "A @ [c]"] Cons.prems R by (simp add: list_update_append)
qed simp

lemma back_loop_run:
  assumes "no_sep x" "dst0 \<le> length P" "length P = dst0 \<or> P \<noteq> [] \<and> last P = 0x2f"
  shows "back_loop (P @ x @ R) dst0 (length P + length x) = Inr (length P)"
  using assms(1)
proof (induction x arbitrary: R rule: rev_induct)
  case Nil
  then show ?case using assms(2,3) by (cases P rule: rev_cases) auto
next
  case (snoc c x)
  have "c \<noteq> 0x2f" using snoc.prems by (auto simp: git_is_dir_sep_def)
  then show ?case using snoc.IH [of "c # R"] snoc.prems assms(2) by (simp add: nth_append)
qed

abbreviation dirs_ok :: "cstring list \<Rightarrow> bool" where
  "dirs_ok \<equiv> list_all (\<lambda>c. c \<noteq> [] \<and> no_sep c)"

lemma dir_text_last: "st \<noteq> [] \<Longrightarrow> dir_text st \<noteq> [] \<and> last (dir_text st) = 0x2f"
  by (cases st) auto

lemma up_one_run:
  assumes "dirs_ok st"
  shows "up_one ((pre @ dir_text st) @ R) (length pre) (length (pre @ dir_text st)) pl =
    (case st of [] \<Rightarrow> Inr None | _ # st \<Rightarrow>
       Inr (Some (length (pre @ dir_text st), case pl of None \<Rightarrow> None | Some n \<Rightarrow>
         Some (if n > int (length (dir_text st)) then int (length (dir_text st)) else n))))"
proof (cases st)
  case (Cons c st')
  have c: "c \<noteq> []" "no_sep c" using assms Cons by simp_all
  have "back_loop ((pre @ dir_text st') @ c @ 0x2f # R) (length pre) (length (pre @ dir_text st') + length c) =
      Inr (length (pre @ dir_text st'))"
    by (rule back_loop_run [OF c(2)]) (use dir_text_last [of st'] in \<open>cases st'; auto\<close>)+
  then show ?thesis using c(1) Cons by (simp add: up_one_def add.assoc split: option.split)
qed (simp add: up_one_def)

text \<open>What the loop leaves behind, for the directory a walk from \<open>st\<close> leads to.\<close>

definition normalized :: "(byte list \<times> int \<times> int option) result \<Rightarrow> byte list \<Rightarrow> nat \<Rightarrow> byte list option \<Rightarrow> bool" where
  "normalized r pre n t \<longleftrightarrow>
     (case r of
        Inl _ \<Rightarrow> False
      | Inr (mem, ret, _) \<Rightarrow> length mem = n \<and>
          (case t of None \<Rightarrow> ret = - 1 | Some t \<Rightarrow> ret = 0 \<and> (\<exists>R. mem = pre @ t @ 0 # R)))"

definition walk_text :: "cstring list \<Rightarrow> cstring \<Rightarrow> byte list option" where
  "walk_text st src = map_option (final_text (last (path_components src))) (walk st (path_components src))"

lemma walk_text_seps: "walk_text st (dropWhile git_is_dir_sep s) = walk_text st s"
  by (simp add: walk_text_def walk_seps)

lemma walk_text_sep:
  "no_sep nm \<Longrightarrow> git_is_dir_sep x \<Longrightarrow> walk_text st (nm @ x # r) =
     (if path_name nm then walk_text (nm # st) r
      else if nm = [0x2e, 0x2e] then (case st of [] \<Rightarrow> None | _ # st \<Rightarrow> walk_text st r)
      else walk_text st r)"
  by (auto simp: walk_text_def split: list.splits)

lemma not_sep_dropWhile: "\<not> git_is_dir_sep (chr (dropWhile git_is_dir_sep s))"
  by (induction s) auto

lemma name_tests:
  assumes "no_sep nm" "path_name nm" "s = [] \<or> git_is_dir_sep (chr s)"
  shows "\<not> (chr (nm @ s) = 0x2e \<and> git_is_dir_sep (chr (drop 1 (nm @ s))))" "dotdot_rest (nm @ s) = None"
    "\<not> (chr (nm @ s) = 0x2e \<and> drop 1 (nm @ s) = [])"
proof -
  obtain a nm1 where a: "nm = a # nm1" using assms(2) by (cases nm) (auto simp: path_name_def)
  show "\<not> (chr (nm @ s) = 0x2e \<and> git_is_dir_sep (chr (drop 1 (nm @ s))))" "dotdot_rest (nm @ s) = None"
    "\<not> (chr (nm @ s) = 0x2e \<and> drop 1 (nm @ s) = [])"
    using assms a by (cases nm1; cases "tl nm1"; auto simp: dotdot_rest_def path_name_def)+
qed

lemma normalize_loop_name:
  assumes nm: "no_sep nm" "path_name nm" and s: "s = [] \<or> git_is_dir_sep (chr s)" and len: "length nm < length R"
  shows "normalize_loop (A @ R) dst0 (length A) (nm @ s) pl =
    rbind (copy_component ((A @ nm) @ drop (length nm) R) (length (A @ nm)) s) (\<lambda>(mem, dst, src, sep).
      if sep then normalize_loop mem dst0 dst src pl else rbind (wr mem dst 0) (\<lambda>mem. Inr (mem, 0, pl)))"
  using copy_component_run [OF nm(1), of R A s] len
  by (subst normalize_loop.simps) (simp only: name_tests [OF nm s] if_False option.case append_assoc length_append less_imp_le)

lemma normalize_loop_end:
  assumes "0 < length R"
  shows "normalize_loop (A @ R) dst0 (length A) [] pl = Inr (A @ 0 # tl R, 0, pl)"
  using assms by (cases R) (simp_all add: normalize_loop.simps [of _ _ _ "[]"] dotdot_rest_def)

lemma normalize_loop_last:
  assumes src: "no_sep src" and len: "length src < length R" and ok: "dirs_ok st"
  shows "normalized (normalize_loop ((pre @ dir_text st) @ R) (length pre) (length (pre @ dir_text st)) src pl)
    pre (length ((pre @ dir_text st) @ R)) (walk_text st src)"
proof -
  let ?A = "pre @ dir_text st"
  have R: "0 < length R" using len by linarith
  have fin: "normalized (normalize_loop (B @ S) d (length B) [] pl') pre (length (B @ S)) (Some t)"
    if "0 < length S" "B = pre @ t" for B S d pl' t
    unfolding normalize_loop_end [OF that(1)] using that by (simp add: normalized_def)
  consider "src = []" | "src = [0x2e]" | "src = [0x2e, 0x2e]" | "path_name src" by (auto simp: path_name_def)
  then show ?thesis
  proof cases
    case 1
    then show ?thesis using fin [of R ?A "dir_text st"] R
      by (simp add: walk_text_def final_text_def path_name_def)
  next
    case 2
    have "normalize_loop (?A @ R) (length pre) (length ?A) src pl = normalize_loop (?A @ R) (length pre) (length ?A) [] pl"
      using 2 by (simp add: normalize_loop.simps [of _ _ _ "[]"] normalize_loop.simps [of _ _ _ "[0x2e]"] dotdot_rest_def)
    then show ?thesis using 2 fin [of R ?A "dir_text st"] R
      by (simp add: walk_text_def final_text_def path_name_def)
  next
    case 3
    have unfold: "normalize_loop (?A @ R) (length pre) (length ?A) src pl =
        rbind (up_one (?A @ R) (length pre) (length ?A) pl) (\<lambda>r. case r of None \<Rightarrow> Inr (?A @ R, - 1, pl)
          | Some (dst, pl) \<Rightarrow> normalize_loop (?A @ R) (length pre) dst [] pl)"
      using 3 by (subst normalize_loop.simps) (simp add: dotdot_rest_def del: append_assoc)
    show ?thesis
    proof (cases st)
      case Nil
      then show ?thesis using 3 unfold up_one_run [OF ok, of pre R pl]
        by (simp add: walk_text_def path_name_def normalized_def)
    next
      case (Cons c st')
      then show ?thesis
        using 3 unfold up_one_run [OF ok, of pre R pl] fin [of "c @ 0x2f # R" "pre @ dir_text st'" "dir_text st'"]
        by (simp add: walk_text_def path_name_def final_text_def)
    qed
  next
    case 4
    have "drop (length src) R \<noteq> []" using len by simp
    then obtain x R' where R': "drop (length src) R = x # R'" by (cases "drop (length src) R") auto
    have "length (?A @ R) = length (pre @ (dir_text st @ src) @ 0 # R')"
      using len arg_cong [OF R', of length] by simp
    moreover have "normalize_loop (?A @ R) (length pre) (length ?A) (src @ []) pl = Inr (pre @ (dir_text st @ src) @ 0 # R', 0, pl)"
      using normalize_loop_name [OF src 4, of "[]" R ?A "length pre" pl] len R'
      by (simp add: list_update_append)
    ultimately show ?thesis using 4 src
      by (simp add: walk_text_def final_text_name normalized_def)
  qed
qed

lemma normalize_loop_walk:
  "dirs_ok st \<Longrightarrow> length src < length R \<Longrightarrow> \<not> git_is_dir_sep (chr src) \<Longrightarrow>
   normalized (normalize_loop ((pre @ dir_text st) @ R) (length pre) (length (pre @ dir_text st)) src pl)
     pre (length ((pre @ dir_text st) @ R)) (walk_text st src)"
proof (induction "length src" arbitrary: src st R pl rule: less_induct)
  case less
  let ?A = "pre @ dir_text st"
  show ?case
  proof (cases src rule: component_cases)
    case only
    then show ?thesis using normalize_loop_last less.prems by blast
  next
    case (sep nm x r)
    let ?r = "dropWhile git_is_dir_sep r"
    have shorter: "length ?r < length src" "length nm + length ?r < length src"
      using sep(1) length_dropWhile_le [of git_is_dir_sep r] by simp_all
    have IH: "normalized (normalize_loop ((pre @ dir_text st') @ R') (length pre) (length (pre @ dir_text st')) ?r pl')
        pre (length ((pre @ dir_text st') @ R')) (walk_text st' r)" if "dirs_ok st'" "length ?r < length R'" for st' R' pl'
      using less.hyps [OF shorter(1) that not_sep_dropWhile] by (simp only: walk_text_seps)
    have w: "walk_text st src = (if path_name nm then walk_text (nm # st) r
        else if nm = [0x2e, 0x2e] then (case st of [] \<Rightarrow> None | _ # st \<Rightarrow> walk_text st r) else walk_text st r)"
      unfolding sep(1) by (rule walk_text_sep [OF sep(2,3)])
    consider "nm = [0x2e]" | "nm = [0x2e, 0x2e]" | "path_name nm"
      using sep less.prems(3) by (cases nm) (auto simp: path_name_def)
    then show ?thesis
    proof cases
      case 1
      then have "normalize_loop (?A @ R) (length pre) (length ?A) src pl = normalize_loop (?A @ R) (length pre) (length ?A) ?r pl"
        using sep by (subst normalize_loop.simps) simp
      then show ?thesis using IH [of st R pl] less.prems shorter w 1 by (simp add: path_name_def)
    next
      case 2
      then have unfold: "normalize_loop (?A @ R) (length pre) (length ?A) src pl =
          rbind (up_one (?A @ R) (length pre) (length ?A) pl) (\<lambda>r. case r of None \<Rightarrow> Inr (?A @ R, - 1, pl)
            | Some (dst, pl) \<Rightarrow> normalize_loop (?A @ R) (length pre) dst ?r pl)"
        using sep by (subst normalize_loop.simps) (simp add: dotdot_rest_def)
      show ?thesis
      proof (cases st)
        case Nil
        then show ?thesis using 2 unfold up_one_run [OF less.prems(1), of pre R pl] w
          by (simp add: path_name_def normalized_def)
      next
        case (Cons c st')
        then show ?thesis
          using 2 unfold up_one_run [OF less.prems(1), of pre R pl] w IH [of st' "c @ 0x2f # R"] less.prems shorter
          by (simp add: path_name_def)
      qed
    next
      case 3
      have len: "length nm < length R" using less.prems(2) sep(1) by simp
      then obtain y R' where R': "drop (length nm) R = y # R'" by (cases "drop (length nm) R") auto
      have len': "length R = length nm + Suc (length R')" using arg_cong [OF R', of length] len by simp
      have "normalize_loop (?A @ R) (length pre) (length ?A) src pl =
          normalize_loop ((pre @ dir_text (nm # st)) @ R') (length pre) (length (pre @ dir_text (nm # st))) ?r pl"
        using normalize_loop_name [OF sep(2) 3, of "x # r" R ?A "length pre" pl] len R' sep(1,3)
        by (simp add: list_update_append add.assoc)
      moreover have "normalized \<dots> pre (length (?A @ R)) (walk_text (nm # st) r)"
        using IH [of "nm # st" R'] less.prems sep(1,2) shorter len' 3 by (simp add: path_name_def)
      ultimately show ?thesis using w 3 by simp
    qed
  qed
qed

lemma sb_cstring:
  assumes "sb_ok sb" "cstring_ok (sb_str sb)"
  shows "takeWhile (\<lambda>c. c \<noteq> 0) (sb_buf sb) = sb_str sb"
proof -
  have "sb_buf sb = sb_str sb @ 0 # drop (Suc (sb_len sb)) (sb_buf sb)"
    using id_take_nth_drop [OF sb_okD(1) [OF assms(1)]] sb_okD(2) [OF assms(1)] by (simp add: sb_str_def)
  then show ?thesis using takeWhile_nul [OF assms(2)] by metis
qed

definition path_root :: "cstring \<Rightarrow> byte list" where
  "path_root s = (if git_is_dir_sep (chr s) then [0x2f] else [])"

lemma normalize_copy_walk:
  assumes "length src < length mem"
  shows "normalized (normalize_path_copy_len mem 0 src pl) (path_root src) (length mem) (walk_text [] src)"
proof (cases "git_is_dir_sep (chr src)")
  case True
  then obtain c s where src: "src = c # s" "git_is_dir_sep c" by (cases src) auto
  obtain x R where mem: "mem = x # R" using assms by (cases mem) auto
  let ?s = "dropWhile git_is_dir_sep s"
  have "length ?s < length R" using assms src mem length_dropWhile_le [of git_is_dir_sep s] by simp
  then have "normalized (normalize_loop (([0x2f] @ dir_text []) @ R) (length [0x2f :: byte]) (length ([0x2f] @ dir_text [])) ?s pl)
      [0x2f] (length (([0x2f] @ dir_text []) @ R)) (walk_text [] ?s)"
    by (intro normalize_loop_walk not_sep_dropWhile) simp_all
  moreover have "walk_text [] ?s = walk_text [] src"
    using walk_text_sep [of "[]" c "[]" s] src by (simp add: walk_text_seps path_name_def)
  ultimately show ?thesis
    using src mem by (simp add: normalize_path_copy_len_def git_offset_1st_component_def path_root_def)
next
  case False
  then have "dropWhile git_is_dir_sep src = src" by (cases src) auto
  then show ?thesis
    using False normalize_loop_walk [of "[]" src mem "[]" pl] assms
    by (simp add: normalize_path_copy_len_def git_offset_1st_component_def path_root_def)
qed

lemma walk_set: "walk st cs = Some st' \<Longrightarrow> set st' \<subseteq> set st \<union> {c \<in> set cs. path_name c}"
  by (induction st cs rule: walk.induct) (auto split: if_splits list.splits)

lemma path_components_chars: "list_all cstring_ok (path_components s) \<longleftrightarrow> cstring_ok s"
proof (induction s)
  case (Cons c s)
  then show ?case by (cases "path_components s") (auto simp: git_is_dir_sep_def)
qed simp

lemma walk_components:
  assumes "walk [] (path_components s) = Some st"
  shows "list_all path_name st" "dirs_ok st" "cstring_ok s \<Longrightarrow> list_all cstring_ok st"
  using walk_set [OF assms] path_components_all [of s] path_components_chars [of s]
  by (auto simp: list_all_iff path_name_def)

lemma dir_text_ok: "list_all cstring_ok st \<Longrightarrow> cstring_ok (dir_text st)"
  by (induction st) auto

lemma final_text_ok: "list_all cstring_ok st \<Longrightarrow> cstring_ok (final_text c st)"
  using dir_text_ok [of st] by (auto simp: final_text_def cstring_ok_def dest: in_set_butlastD)

lemma walk_text_length: "walk_text st s = Some t \<Longrightarrow> length t \<le> length (dir_text st) + length s"
proof (induction "length s" arbitrary: s st rule: less_induct)
  case less
  show ?case
  proof (cases s rule: component_cases)
    case only
    then show ?thesis using less.prems
      by (auto simp: walk_text_def final_text_def path_name_def split: if_splits list.splits)
  next
    case (sep nm x r)
    have IH: "length t \<le> length (dir_text st') + length r" if "walk_text st' r = Some t" for st'
      using less.hyps [OF _ that] sep(1) by simp
    show ?thesis
      using less.prems IH [of "nm # st"] IH [of st] IH [of "tl st"] walk_text_sep [OF sep(2,3), of st r]
      unfolding sep(1) by (auto split: if_splits list.splits)
  qed
qed

lemma path_text_length:
  assumes "walk_text [] s = Some t"
  shows "length (path_root s @ t) \<le> length s"
proof (cases "git_is_dir_sep (chr s)")
  case True
  then obtain c r where "s = c # r" "git_is_dir_sep c" by (cases s) auto
  then show ?thesis
    using assms walk_text_sep [of "[]" c "[]" r] walk_text_length [of "[]" r t] by (simp add: path_name_def path_root_def)
qed (use walk_text_length [OF assms] in \<open>simp add: path_root_def\<close>)

lemma strbuf_normalize_path_walk:
  assumes ok: "sb_ok src" "cstring_ok (sb_str src)" and len: "sb_len src + 1 < 2 ^ 64"
  shows "case walk_text [] (sb_str src) of
      None \<Rightarrow> strbuf_normalize_path junk src = Inr (- 1, src)
    | Some t \<Rightarrow> gives (rbind (strbuf_normalize_path junk src) (\<lambda>(ret, sb). if ret = 0 then Inr sb else Inl Bug_called))
        (path_root (sb_str src) @ t)"
proof -
  let ?s = "sb_str src"
  have "sb_ok STRBUF_INIT" by simp
  then show ?thesis
  proof (cases rule: strbuf_grow_cases [where junk = junk and extra = "sb_len src"])
    case died
    then show ?thesis using len by (simp add: STRBUF_INIT_def)
  next
    case (room mem)
    then have mem: "strbuf_grow junk STRBUF_INIT (sb_len src) = Inr (owned mem 0)" "length ?s < length mem"
      using sb_okD(3) [OF ok(1)] by (simp_all add: STRBUF_INIT_def)
    obtain mem' ret pl where run: "normalize_path_copy_len mem 0 ?s None = Inr (mem', ret, pl)" "length mem' = length mem"
        "case walk_text [] ?s of None \<Rightarrow> ret = - 1 | Some t \<Rightarrow> ret = 0 \<and> (\<exists>R. mem' = path_root ?s @ t @ 0 # R)"
      using normalize_copy_walk [OF mem(2), of None] by (auto simp: normalized_def split: sum.splits)
    have call: "strbuf_normalize_path junk src =
        (if ret < 0 then rbind (strbuf_release junk (owned mem' 0)) (\<lambda>_. Inr (- 1, src))
         else rbind (strbuf_setlen (owned mem' 0) (length (takeWhile (\<lambda>c. c \<noteq> 0) mem'))) (\<lambda>dst. Inr (0, dst)))"
      using mem(1) run(1,2) sb_cstring [OF ok] strbuf_release_eq [OF ok(1)]
      by (simp add: strbuf_normalize_path_def normalize_path_copy_def strbuf_swap_def Let_def)
    show ?thesis
    proof (cases "walk_text [] ?s")
      case None
      then show ?thesis using run(3) call by (simp add: strbuf_release_def strbuf_init_def)
    next
      case (Some t)
      then obtain R where R: "mem' = (path_root ?s @ t) @ 0 # R" and ret: "ret = 0" using run(3) by auto
      have "cstring_ok t"
        using Some walk_components(3) [of ?s] ok(2) by (auto simp: walk_text_def intro: final_text_ok)
      then have t: "cstring_ok (path_root ?s @ t)" by (simp add: path_root_def)
      have "takeWhile (\<lambda>c. c \<noteq> 0) mem' = path_root ?s @ t" unfolding R by (rule takeWhile_nul [OF t])
      moreover have "strbuf_setlen (owned mem' 0) (length (path_root ?s @ t)) =
          Inr (owned mem' (length (path_root ?s @ t)))"
        using R by (simp add: strbuf_setlen_def put_nul_def list_update_append owned_def)
      ultimately show ?thesis
        using Some call ret R by (simp add: gives_Inr owned_ok owned_str nth_append)
    qed
  qed
qed

lemma path_components_dir:
  "dirs_ok st \<Longrightarrow> path_components (dir_text st @ s) = rev st @ path_components s"
  by (induction st arbitrary: s) (simp_all add: path_components_sep [of _ "0x2f"])

lemma walk_names: "list_all path_name cs \<Longrightarrow> walk st cs = Some (rev cs @ st)"
  by (induction cs arbitrary: st) simp_all

lemma walk_last: "walk st (cs @ [c]) = Some st' \<Longrightarrow> path_name c \<Longrightarrow> \<exists>st1. st' = c # st1"
  by (auto simp: walk_append split: option.splits)

text \<open>The normalized text is a normal form.\<close>

lemma walk_text_idem:
  assumes "walk_text [] s = Some t"
  shows "walk_text [] (path_root s @ t) = Some t" "path_root (path_root s @ t) = path_root s"
proof -
  let ?l = "last (path_components s)"
  obtain st where st: "walk [] (path_components s) = Some st" and t: "t = final_text ?l st"
    using assms by (auto simp: walk_text_def)
  note ok = walk_components(1,2) [OF st]
  have shape: "\<exists>u. path_components t = rev st @ u \<and> (u = [] \<or> u = [[]]) \<and> (path_name ?l \<longleftrightarrow> u = [])"
  proof (cases "path_name ?l")
    case True
    then obtain st' where st': "st = ?l # st'"
      using walk_last [of "[]" "butlast (path_components s)" ?l st] st by auto
    have "t = dir_text st' @ ?l" unfolding t by (subst st') (rule final_text_name [OF True])
    moreover have "dirs_ok (?l # st')" using ok(2) st' by (rule subst [rotated])
    ultimately have "path_components t = rev st' @ [?l]" using path_components_dir [of st' ?l] by simp
    then have "path_components t = rev st" by (subst st') simp
    then show ?thesis using True by simp
  next
    case False
    then show ?thesis using path_components_dir [OF ok(2), of "[]"] t by (simp add: final_text_def)
  qed
  then obtain u where u: "path_components t = rev st @ u" "u = [] \<or> u = [[]]" "path_name ?l \<longleftrightarrow> u = []" by blast
  have "list_all path_name (rev st)" using ok(1) by simp
  then have walk: "walk [] (path_components t) = Some st"
    using u(1,2) by (auto simp: walk_append walk_names path_name_def)
  have "path_name (last (path_components t)) \<longleftrightarrow> path_name ?l"
  proof (cases "u = []")
    case True
    then have "last (path_components t) \<in> set st" using u(1) path_components_ne [of t] by (metis append_Nil2 last_in_set set_rev)
    then show ?thesis using True u(3) ok(1) by (auto simp: list_all_iff)
  next
    case False
    then show ?thesis using u by (auto simp: path_name_def)
  qed
  then have "walk_text [] t = Some t" using walk t by (simp add: walk_text_def final_text_def)
  moreover have "walk_text [] (path_root s @ t) = walk_text [] t"
    using walk_text_sep [of "[]" "0x2f" "[]" t] by (simp add: path_root_def path_name_def)
  moreover have "\<not> git_is_dir_sep (chr t)"
  proof
    assume "git_is_dir_sep (chr t)"
    then obtain x r where "t = x # r" "git_is_dir_sep x" by (cases t) auto
    then have "rev st @ u = [] # path_components r" using u(1) by simp
    then show False using ok(1) u(2) by (cases "rev st") (auto simp: path_name_def list_all_iff dest: arg_cong [of _ _ set])
  qed
  ultimately show "walk_text [] (path_root s @ t) = Some t" "path_root (path_root s @ t) = path_root s"
    by (simp_all add: path_root_def)
qed

text \<open>C33: \<^verbatim>\<open>strbuf_normalize_path()\<close> fails exactly when the path climbs above its start.  Otherwise it leaves
  the root, if the path had one, and the names that remain when every \<open>..\<close> takes back the name in front of it,
  with single slashes between them and one at the end unless the path ends in a name.  The result is never
  longer than the path, and is what it is itself normalized to.\<close>

theorem normalize_path_correct:
  assumes ok: "sb_ok src" "cstring_ok (sb_str src)" and len: "sb_len src + 1 < 2 ^ 64"
  shows "case walk [] (path_components (sb_str src)) of
      None \<Rightarrow> strbuf_normalize_path junk src = Inr (- 1, src)
    | Some st \<Rightarrow> list_all path_name st \<and> (\<exists>sb sb'.
        strbuf_normalize_path junk src = Inr (0, sb) \<and> sb_ok sb \<and> sb_len sb \<le> sb_len src \<and>
        sb_str sb = path_root (sb_str src) @ final_text (last (path_components (sb_str src))) st \<and>
        strbuf_normalize_path junk sb = Inr (0, sb') \<and> sb_ok sb' \<and> sb_str sb' = sb_str sb)"
proof (cases "walk [] (path_components (sb_str src))")
  case None
  then show ?thesis using strbuf_normalize_path_walk [OF assms, of junk] by (simp add: walk_text_def)
next
  case (Some st)
  let ?s = "sb_str src"
  define t where "t = final_text (last (path_components ?s)) st"
  have w: "walk_text [] ?s = Some t" using Some by (simp add: walk_text_def t_def)
  obtain sb where sb: "strbuf_normalize_path junk src = Inr (0, sb)" "sb_ok sb" "sb_str sb = path_root ?s @ t"
    using strbuf_normalize_path_walk [OF assms, of junk] w
    by (auto elim!: givesE simp: rbind_eq_Inr split: if_splits)
  have short: "sb_len sb \<le> sb_len src"
    using path_text_length [OF w] sb_okD(3) [OF ok(1)] sb_okD(3) [OF sb(2)] sb(3) by simp
  have "cstring_ok (sb_str sb)"
    using walk_components(3) [OF Some ok(2)] by (simp add: sb(3) path_root_def t_def final_text_ok)
  moreover have "sb_len sb + 1 < 2 ^ 64" using short len by simp
  ultimately obtain sb' where "strbuf_normalize_path junk sb = Inr (0, sb')" "sb_ok sb'" "sb_str sb' = sb_str sb"
    using strbuf_normalize_path_walk [OF sb(2), of junk] walk_text_idem [OF w] sb(3)
    by (auto elim!: givesE simp: rbind_eq_Inr split: if_splits)
  then show ?thesis using Some sb short walk_components(1) [OF Some] by (auto simp: t_def)
qed

theorem normalize_path_correct_witness:
  "list_all path_name [[0x64], [0x61]] \<and> (\<exists>sb sb'.
    strbuf_normalize_path (\<lambda>_. 0) (owned [0x2f, 0x61, 0x2f, 0x2f, 0x62, 0x2f, 0x2e, 0x2e, 0x2f, 0x64, 0] 10) = Inr (0, sb) \<and>
    sb_str sb = [0x2f, 0x61, 0x2f, 0x64] \<and>
    strbuf_normalize_path (\<lambda>_. 0) sb = Inr (0, sb') \<and> sb_str sb' = sb_str sb)"
  using normalize_path_correct [of "owned [0x2f, 0x61, 0x2f, 0x2f, 0x62, 0x2f, 0x2e, 0x2e, 0x2f, 0x64, 0] 10" "\<lambda>_. 0"]
  by (simp add: owned_ok owned_str path_name_def git_is_dir_sep_def final_text_def path_root_def) blast

subsection \<open>A relative path leads to the same directory\<close>

definition names :: "cstring \<Rightarrow> cstring list" where
  "names s = filter (\<lambda>c. c \<noteq> []) (path_components s)"

lemma names_simps [simp]: "names [] = []" "git_is_dir_sep c \<Longrightarrow> names (c # s) = names s"
  by (simp_all add: names_def)

lemma names_no_sep: "no_sep m \<Longrightarrow> names m = (if m = [] then [] else [m])"
  by (simp add: names_def)

lemma names_seps: "names (dropWhile git_is_dir_sep s) = names s"
  by (induction s) simp_all

lemma path_components_split: "git_is_dir_sep x \<Longrightarrow> path_components (a @ x # s) = path_components a @ path_components s"
proof (induction a)
  case (Cons c a)
  then show ?case by (cases "path_components a") simp_all
qed simp

lemma names_split: "git_is_dir_sep x \<Longrightarrow> names (a @ x # s) = names a @ names s"
  by (simp add: names_def path_components_split)

lemma walk_names_eq: "walk st (path_components s) = walk st (names s)"
proof -
  have "walk st cs = walk st (filter (\<lambda>c. c \<noteq> []) cs)" for cs
    by (induction st cs rule: walk.induct) (auto simp: path_name_def split: list.splits)
  then show ?thesis by (simp add: names_def)
qed

definition closed :: "cstring \<Rightarrow> bool" where
  "closed s \<longleftrightarrow> s = [] \<or> git_is_dir_sep (last s)"

lemma names_closed: "closed p \<Longrightarrow> names (p @ s) = names p @ names s"
  by (cases p rule: rev_cases) (auto simp: closed_def names_split)

lemma names_join:
  assumes "no_sep m" "\<not> git_is_dir_sep (chr s)" "s \<noteq> []"
  shows "length (names (m @ s)) = length (names s)"
proof -
  obtain c r where s: "s = c # r" using assms(3) by (cases s) auto
  then show ?thesis using assms by (simp add: names_def path_components_append)
qed

function sep_runs :: "cstring \<Rightarrow> nat" where
  "sep_runs [] = 0"
| "sep_runs (c # s) = (if git_is_dir_sep c then Suc (sep_runs (dropWhile git_is_dir_sep s)) else sep_runs s)"
  by pat_completeness auto
termination by (relation "measure length") (auto simp: less_Suc_eq_le length_dropWhile_le)

lemma last_dropWhile: "dropWhile P s \<noteq> [] \<Longrightarrow> last (dropWhile P s) = last s"
  by (induction s) auto

lemma sep_runs_names:
  "s \<noteq> [] \<Longrightarrow> sep_runs s + (if git_is_dir_sep (last s) then 0 else 1) =
     length (names s) + (if git_is_dir_sep (chr s) then 1 else 0)"
proof (induction s rule: sep_runs.induct)
  case (2 c s)
  show ?case
  proof (cases "git_is_dir_sep c")
    case True
    let ?s = "dropWhile git_is_dir_sep s"
    show ?thesis
    proof (cases "?s = []")
      case empty: True
      then have "\<forall>c\<in>set s. git_is_dir_sep c" by simp
      then have "git_is_dir_sep (last (c # s))" using True by (cases s rule: rev_cases) auto
      moreover have "sep_runs ?s = 0" "names s = []" using names_seps [of s] by (simp_all only: empty sep_runs.simps names_simps)
      ultimately show ?thesis using True by simp
    next
      case False
      then show ?thesis using "2.IH"(1) [OF True False] True names_seps [of s] last_dropWhile [OF False] not_sep_dropWhile [of s]
        by auto
    qed
  next
    case False
    show ?thesis
    proof (cases "s = []")
      case True
      then show ?thesis using False by (simp add: names_def)
    next
      case ne: False
      show ?thesis
      proof (cases "git_is_dir_sep (chr s)")
        case True
        then obtain x r where "s = x # r" "git_is_dir_sep x" using ne by (cases s) auto
        then have "length (names (c # s)) = Suc (length (names s))" using names_split [of x "[c]" r] False by (simp add: names_def)
        then show ?thesis using "2.IH"(2) [OF False ne] False True ne by simp
      next
        case nosep: False
        have "length (names (c # s)) = length (names s)" using names_join [of "[c]" s] nosep ne False by simp
        then show ?thesis using "2.IH"(2) [OF False ne] False nosep ne by simp
      qed
    qed
  qed
qed simp

lemma drop_skip_seps: "drop (skip_seps s i) s = dropWhile git_is_dir_sep (drop i s)"
  by (subst dropWhile_eq_drop) (simp add: skip_seps_def add.commute)

lemma skip_int_small:
  assumes "length s < 2 ^ 31" "i \<le> length s"
  shows "skip_int s i = Inr (skip_seps s i)"
proof -
  have "skip_seps s i \<le> length s"
    using length_takeWhile_le [of git_is_dir_sep "drop i s"] assms(2) by (simp add: skip_seps_def)
  then show ?thesis using assms(1) by (simp add: skip_int_def)
qed

lemma up_loop_yields:
  "sb_ok sb \<Longrightarrow> length prefix < 2 ^ 31 \<Longrightarrow> yields (up_loop junk sb prefix i) (sb_str sb @ concat (replicate (sep_runs (drop i prefix)) [0x2e, 0x2e, 0x2f]))"
proof (induction "length prefix - i" arbitrary: sb i rule: less_induct)
  case less
  show ?case
  proof (cases "i < length prefix")
    case False
    then show ?thesis using less.prems by (simp add: up_loop.simps [of _ _ _ i] c_int_small yields_Inr)
  next
    case True
    then have d: "drop i prefix = prefix ! i # drop (Suc i) prefix" by (simp add: Cons_nth_drop_Suc)
    show ?thesis
    proof (cases "git_is_dir_sep (prefix ! i)")
      case sep: True
      have "drop (skip_seps prefix i) prefix = dropWhile git_is_dir_sep (drop (Suc i) prefix)"
        unfolding drop_skip_seps d using sep by simp
      then have runs: "sep_runs (drop i prefix) = Suc (sep_runs (drop (skip_seps prefix i) prefix))" using d sep by simp
      have "yields (rbind (strbuf_addstr junk sb [0x2e, 0x2e, 0x2f]) (\<lambda>sb. up_loop junk sb prefix (skip_seps prefix i)))
          (sb_str sb @ concat (replicate (sep_runs (drop i prefix)) [0x2e, 0x2e, 0x2f]))"
        by (rule yields_step [OF strbuf_addstr_yields [OF less.prems(1)] less.hyps]) (use True sep runs less.prems(2) in simp_all)
      then show ?thesis using True sep less.prems(2) by (subst up_loop.simps) (simp add: c_int_small skip_int_small)
    next
      case False
      then show ?thesis using True d less.hyps [of "Suc i" sb] less.prems by (subst up_loop.simps) (simp add: c_int_small)
    qed
  qed
qed

text \<open>
  The comparison has found that \<open>P\<close> and \<open>I\<close> are the same up to repeated slashes, and end in one; behind
  them both paths have the text \<open>m\<close>, and then \<open>p\<close> and \<open>n\<close>.
\<close>

definition common_start :: "cstring \<Rightarrow> cstring \<Rightarrow> cstring \<Rightarrow> cstring \<Rightarrow> cstring \<Rightarrow> cstring \<Rightarrow> cstring \<Rightarrow> bool" where
  "common_start inp prefix P I m p n \<longleftrightarrow>
     prefix = P @ m @ p \<and> inp = I @ m @ n \<and> no_sep m \<and> names P = names I \<and> closed P \<and> closed I"

lemma names_run:
  assumes "closed P" "no_sep m" "git_is_dir_sep (chr p)"
  shows "names (P @ m @ takeWhile git_is_dir_sep p) = names P @ names m" "closed (P @ m @ takeWhile git_is_dir_sep p)"
proof -
  obtain x r where p: "p = x # r" "git_is_dir_sep x" using assms(3) by (cases p) auto
  have seps: "\<forall>c\<in>set s. git_is_dir_sep c \<Longrightarrow> names s = []" for s by (induction s) simp_all
  have "names (takeWhile git_is_dir_sep r) = []" by (rule seps) (auto dest: set_takeWhileD)
  then show "names (P @ m @ takeWhile git_is_dir_sep p) = names P @ names m"
    using p names_split [OF p(2), of m] names_closed [OF assms(1)] by simp
  have ne: "takeWhile git_is_dir_sep p \<noteq> []" using p by simp
  have "git_is_dir_sep (last (takeWhile git_is_dir_sep p))" using set_takeWhileD [OF last_in_set [OF ne]] by blast
  then show "closed (P @ m @ takeWhile git_is_dir_sep p)" using ne by (simp add: closed_def last_append)
qed

lemma relative_loop_common:
  "common_start inp prefix P I m p n \<Longrightarrow> m = [] \<longrightarrow> (git_is_dir_sep (chr p) \<longleftrightarrow> git_is_dir_sep (chr n)) \<Longrightarrow>
   length inp < 2 ^ 31 \<Longrightarrow> length prefix < 2 ^ 31 \<Longrightarrow>
   \<exists>P' I' m' p' n'. common_start inp prefix P' I' m' p' n' \<and> (m' = [] \<longrightarrow> \<not> git_is_dir_sep (chr p') \<and> \<not> git_is_dir_sep (chr n')) \<and>
     relative_loop inp prefix (length P + length m) (length I + length m) (length P) (length I) =
       Inr (length P' + length m', length I' + length m', length P', length I')"
proof (induction "length p" arbitrary: P I m p n rule: less_induct)
  case less
  let ?i = "length P + length m" and ?j = "length I + length m"
  have c: "prefix = P @ m @ p" "inp = I @ m @ n" "no_sep m" "names P = names I" "closed P" "closed I"
    using less.prems(1) by (simp_all add: common_start_def)
  note small = c_int_small [OF less.prems(3)] c_int_small [OF less.prems(4)]
  show ?case
  proof (cases "\<exists>x p1 n1. p = x # p1 \<and> n = x # n1")
    case False
    then have "\<not> (int ?i < c_int (length prefix) \<and> int ?j < c_int (length inp) \<and> prefix ! ?i = inp ! ?j)"
      unfolding small using c(1,2) by (cases p; cases n) (auto simp: nth_append)
    then have "relative_loop inp prefix ?i ?j (length P) (length I) = Inr (?i, ?j, length P, length I)"
      by (subst relative_loop.simps) (simp only: if_False)
    moreover have "m = [] \<longrightarrow> \<not> git_is_dir_sep (chr p) \<and> \<not> git_is_dir_sep (chr n)"
      using less.prems(2) False by (cases p; cases n) (auto simp: git_is_dir_sep_def)
    ultimately show ?thesis using less.prems(1) by blast
  next
    case True
    then obtain x p1 n1 where x: "p = x # p1" "n = x # n1" by blast
    have test: "?i < length prefix" "?j < length inp" "prefix ! ?i = x" "inp ! ?j = x"
      using c(1,2) x by (simp_all add: nth_append)
    show ?thesis
    proof (cases "git_is_dir_sep x")
      case False
      have "relative_loop inp prefix ?i ?j (length P) (length I) =
          relative_loop inp prefix (length P + length (m @ [x])) (length I + length (m @ [x])) (length P) (length I)"
        using test by (subst relative_loop.simps) (simp add: small False)
      moreover have "common_start inp prefix P I (m @ [x]) p1 n1" using c x False by (simp add: common_start_def)
      ultimately show ?thesis using less.hyps [of p1 P I "m @ [x]" n1] less.prems(3,4) x by simp
    next
      case sep: True
      let ?P = "P @ m @ takeWhile git_is_dir_sep p" and ?I = "I @ m @ takeWhile git_is_dir_sep n"
      let ?p = "dropWhile git_is_dir_sep p" and ?n = "dropWhile git_is_dir_sep n"
      have skip: "skip_seps prefix ?i = length ?P" "skip_seps inp ?j = length ?I"
        using c(1,2) by (simp_all add: skip_seps_def)
      have "relative_loop inp prefix ?i ?j (length P) (length I) =
          relative_loop inp prefix (length ?P + length ([] :: cstring)) (length ?I + length ([] :: cstring)) (length ?P) (length ?I)"
        unfolding skip [symmetric] using test sep less.prems(3,4)
        by (subst relative_loop.simps) (simp add: small skip_int_small)
      moreover have "common_start inp prefix ?P ?I [] ?p ?n"
        using c x sep names_run [of P m p] names_run [of I m n] by (simp add: common_start_def del: takeWhile.simps dropWhile.simps)
      moreover have "length ?p < length p" using x sep length_dropWhile_le [of git_is_dir_sep p1] by simp
      ultimately show ?thesis
        using less.hyps [of ?p ?P ?I "[]" ?n] not_sep_dropWhile less.prems(3,4) by (simp only: simp_thms)
    qed
  qed
qed

text \<open>
  The offsets split the names of both paths behind a common part: the number of levels to climb from the
  rest of the prefix is the number of its names.
\<close>

definition up_count :: "cstring \<Rightarrow> nat" where
  "up_count s = (if s = [] then 0 else sep_runs s + (if git_is_dir_sep (last s) then 0 else 1))"

lemma up_count_names:
  assumes "no_sep m" "m = [] \<longrightarrow> \<not> git_is_dir_sep (chr p)" "p \<noteq> [] \<or> m = []"
  shows "up_count p = length (names (m @ p))"
proof (cases "p = []")
  case False
  note runs = sep_runs_names [OF False]
  show ?thesis
  proof (cases "git_is_dir_sep (chr p)")
    case True
    then obtain x r where "p = x # r" "git_is_dir_sep x" using False by (cases p) auto
    then have "length (names (m @ p)) = Suc (length (names p))"
      using names_split [of x m r] names_no_sep [OF assms(1)] assms(2) by simp
    then show ?thesis using runs True False by (simp add: up_count_def)
  next
    case nosep: False
    then show ?thesis using runs names_join [OF assms(1) nosep False] False by (simp add: up_count_def)
  qed
qed (use assms(3) in \<open>simp add: up_count_def\<close>)

lemma relative_offsets_names:
  assumes ne: "inp \<noteq> []" "prefix \<noteq> []" and root: "git_is_dir_sep (chr prefix) \<longleftrightarrow> git_is_dir_sep (chr inp)"
    and small: "length inp < 2 ^ 31" "length prefix < 2 ^ 31"
  shows "\<exists>i in_off C D. relative_offsets inp prefix = Inr (i, int in_off) \<and> in_off \<le> length inp \<and>
    names prefix = C @ D \<and> names inp = C @ names (drop in_off inp) \<and> length D = up_count (drop i prefix)"
proof -
  have "common_start inp prefix [] [] [] prefix inp" by (simp add: common_start_def closed_def)
  then obtain P I m p n where c: "common_start inp prefix P I m p n"
      and ends: "m = [] \<longrightarrow> \<not> git_is_dir_sep (chr p) \<and> \<not> git_is_dir_sep (chr n)"
      and loop: "relative_loop inp prefix 0 0 0 0 = Inr (length P + length m, length I + length m, length P, length I)"
    using relative_loop_common [of inp prefix "[]" "[]" "[]" prefix inp] root small by auto
  have pre: "prefix = P @ m @ p" and inp: "inp = I @ m @ n" and m: "no_sep m" and PI: "names P = names I"
      and cl: "closed P" "closed I"
    using c by (simp_all add: common_start_def)
  have names: "names prefix = names P @ names (m @ p)" "names inp = names P @ names (m @ n)"
    using names_closed [OF cl(1), of "m @ p"] names_closed [OF cl(2), of "m @ n"] pre inp PI by simp_all
  have d: "drop (length P + length m) prefix = p" "drop (length P) prefix = m @ p" "drop (length I) inp = m @ n"
      "drop (length I + length m) inp = n"
    using pre inp by simp_all
  have seps: "drop (skip_seps prefix (length P + length m)) prefix = dropWhile git_is_dir_sep p"
      "drop (skip_seps inp (length I + length m)) inp = dropWhile git_is_dir_sep n"
    unfolding drop_skip_seps d by (rule refl)+
  have at_j: "n \<noteq> [] \<Longrightarrow> inp ! (length I + length m) = chr n" using inp by (cases n) (simp_all add: nth_append)
  have split: "names (m @ s) = names m @ names s" if "git_is_dir_sep (chr s)" for s
    using that names_split [of "hd s" m "tl s"] by (cases s) simp_all
  let ?off = "if p = [] \<and> m \<noteq> [] then
        if n = [] then (length P + length m, length inp)
        else if git_is_dir_sep (chr n) then (length P + length m, skip_seps inp (length I + length m))
        else (length P, length I)
      else if n = [] \<and> m \<noteq> [] then
        if git_is_dir_sep (chr p) then (skip_seps prefix (length P + length m), length inp) else (length P + length m, length I)
      else (length P + length m, length I)"
  obtain i in_off where off': "?off = (i, in_off)" by (cases ?off)
  have off: "relative_offsets inp prefix = Inr (i, int in_off)"
  proof -
    have "length prefix \<le> length P + length m \<and> length P < length prefix \<longleftrightarrow> p = [] \<and> m \<noteq> []"
      "length inp \<le> length I + length m \<longleftrightarrow> n = []" "n = [] \<Longrightarrow> length I < length inp \<longleftrightarrow> m \<noteq> []"
      "length P + length m \<le> length prefix" "length I + length m \<le> length inp"
      using pre inp by auto
    then show ?thesis
      using off' at_j d(1) small by (cases "n = []")
        (auto simp: relative_offsets_def git_has_dos_drive_prefix_def loop c_int_small skip_int_small Let_def split: if_splits)
  qed
  have le: "in_off \<le> length inp"
    using off' inp length_takeWhile_le [of git_is_dir_sep n] by (auto simp: skip_seps_def split: if_splits)
  let ?names = "\<exists>C D. names prefix = C @ D \<and> names inp = C @ names (drop in_off inp) \<and> length D = up_count (drop i prefix)"
  have plain: ?names if "i = length P + length m" "in_off = length I" "p \<noteq> [] \<or> m = []"
    using names d up_count_names [OF m _ that(3)] ends that(1,2) by (intro exI [of _ "names P"] exI [of _ "names (m @ p)"]) simp
  consider (same) "p = []" "m \<noteq> []" "n = []" "i = length P + length m" "in_off = length inp"
    | (below) "p = []" "m \<noteq> []" "git_is_dir_sep (chr n)" "i = length P + length m" "in_off = skip_seps inp (length I + length m)"
    | (longer) "p = []" "m \<noteq> []" "i = length P" "in_off = length I"
    | (above) "n = []" "m \<noteq> []" "git_is_dir_sep (chr p)" "i = skip_seps prefix (length P + length m)" "in_off = length inp"
    | (other) "i = length P + length m" "in_off = length I" "p \<noteq> [] \<or> m = []"
    using off' by (auto split: if_splits)
  then have ?names
  proof cases
    case same
    then show ?names using names d(1) by (intro exI [of _ "names P @ names m"] exI [of _ "[]"]) (simp add: up_count_def)
  next
    case below
    then show ?names
      using names d(1) seps(2) split [of n] names_seps [of n]
      by (intro exI [of _ "names P @ names m"] exI [of _ "[]"]) (simp add: up_count_def)
  next
    case longer
    have "\<not> git_is_dir_sep (chr m)" using m by (cases m) auto
    then show ?names
      using names d longer up_count_names [of "[]" m] by (intro exI [of _ "names P"] exI [of _ "names m"]) simp
  next
    case above
    then show ?names
      using names seps(1) split [of p] names_seps [of p] up_count_names [of "[]" "dropWhile git_is_dir_sep p"] not_sep_dropWhile [of p]
      by (intro exI [of _ "names P @ names m"] exI [of _ "names p"]) simp
  next
    case other
    then show ?names by (rule plain)
  qed
  with off le show ?thesis by blast
qed

definition climb :: "nat \<Rightarrow> byte list" where
  "climb k = concat (replicate k [0x2e, 0x2e, 0x2f])"

lemma names_climb: "names (climb k @ s) = replicate k [0x2e, 0x2e] @ names s"
proof (induction k)
  case (Suc k)
  have "names ([0x2e, 0x2e] @ 0x2f # climb k @ s) = names [0x2e, 0x2e] @ names (climb k @ s)" by (rule names_split) simp
  then show ?case using Suc by (simp add: climb_def names_def)
qed (simp add: climb_def)

lemma walk_climb:
  "list_all path_name D \<Longrightarrow> walk st (D @ replicate (length D) [0x2e, 0x2e] @ cs) = walk st cs"
proof (induction D arbitrary: cs rule: rev_induct)
  case (snoc d D)
  have dotdot: "\<not> path_name [0x2e, 0x2e]" by (simp add: path_name_def)
  have "walk st ((D @ [d]) @ replicate (length (D @ [d])) [0x2e, 0x2e] @ cs) = walk st (D @ replicate (length D) [0x2e, 0x2e] @ cs)"
    using snoc.prems dotdot by (simp add: walk_append walk_names)
  then show ?case using snoc by simp
qed simp

lemma climb_Suc: "climb k @ [0x2e, 0x2e, 0x2f] = climb (Suc k)"
  by (induction k) (simp_all add: climb_def)

lemma sep_runs_le: "sep_runs s \<le> length s"
  by (induction s rule: sep_runs.induct) (auto intro: le_trans length_dropWhile_le)

lemma up_count_le: "up_count s \<le> length s + 1"
  using sep_runs_le [of s] by (simp add: up_count_def)

lemma length_climb: "length (climb k) = 3 * k"
  by (induction k) (simp_all add: climb_def)

lemma climb_text:
  assumes ok: "sb_ok sb" and i: "i < length prefix" and len: "length prefix < 2 ^ 31" "length inp < 2 ^ 31"
  shows "gives (rbind (strbuf_reset sb) (\<lambda>sb.
      rbind (strbuf_grow junk sb (length inp)) (\<lambda>sb.
      rbind (up_loop junk sb prefix i) (\<lambda>sb.
      rbind (if \<not> git_is_dir_sep (prefix ! (length prefix - 1)) then strbuf_addstr junk sb [0x2e, 0x2e, 0x2f] else Inr sb) (\<lambda>sb.
        strbuf_addstr junk sb inp))))) (climb (up_count (drop i prefix)) @ inp)"
proof -
  let ?b = "\<not> git_is_dir_sep (prefix ! (length prefix - 1))"
  let ?t = "climb (up_count (drop i prefix)) @ inp"
  let ?tail = "\<lambda>sb. rbind (up_loop junk sb prefix i) (\<lambda>sb.
      rbind (if ?b then strbuf_addstr junk sb [0x2e, 0x2e, 0x2f] else Inr sb) (\<lambda>sb. strbuf_addstr junk sb inp))"
  have b: "?b \<longleftrightarrow> \<not> git_is_dir_sep (last (drop i prefix))" using i by (simp add: last_conv_nth)
  have count: "?t = climb (sep_runs (drop i prefix)) @ (if ?b then [0x2e, 0x2e, 0x2f] else []) @ inp"
    using i climb_Suc [of "sep_runs (drop i prefix)"] unfolding b by (simp add: up_count_def)
  have two: "yields (rbind (if ?b then strbuf_addstr junk sb [0x2e, 0x2e, 0x2f] else Inr sb) (\<lambda>sb. strbuf_addstr junk sb inp))
      (sb_str sb @ (if ?b then [0x2e, 0x2e, 0x2f] else []) @ inp)" if "sb_ok sb" for sb
    by (rule yields_step [OF yields_opt [OF that strbuf_addstr_yields [OF that]] strbuf_addstr_yields]) simp_all
  have tail: "yields (?tail sb) (sb_str sb @ ?t)" if "sb_ok sb" for sb
    using yields_step [OF up_loop_yields [OF that len(1)] two count [unfolded climb_def]] by (simp only: climb_def)
  have "length ?t \<le> 3 * (length prefix + 1) + length inp"
    using up_count_le [of "drop i prefix"] by (simp add: length_climb)
  then have small: "gives (?tail sb) ?t" if "sb_ok sb" "sb_str sb = []" for sb
    using yields_small [OF tail [OF that(1)]] len that(2) by simp
  obtain sb1 where sb1: "strbuf_reset sb = Inr sb1" "sb_ok sb1" "sb_str sb1 = []" by (rule givesE [OF strbuf_reset_gives [OF ok]])
  have zero: "sb_len sb1 = 0" using sb_okD(3) [OF sb1(2)] sb1(3) by simp
  show ?thesis using sb1(2)
  proof (cases rule: strbuf_grow_cases [where junk = junk and extra = "length inp"])
    case died
    then show ?thesis using len zero by simp
  next
    case (room mem)
    then have "0 < length mem" by linarith
    then show ?thesis using room sb1(1) zero small [of "owned mem 0"] by (simp add: owned_ok owned_str)
  qed
qed

lemma relative_path_small:
  assumes ne: "inp \<noteq> []" "prefix \<noteq> []" and same: "have_same_root inp prefix"
    and len: "length inp < 2 ^ 31" "length prefix < 2 ^ 31"
    and off: "relative_offsets inp prefix = Inr (i, int in_off)" "in_off \<le> length inp"
  shows "relative_path junk (Some inp) (Some prefix) sb =
    (if length prefix \<le> i then Inr (if drop in_off inp = [] then [0x2e, 0x2f] else drop in_off inp, sb)
     else
       rbind (rbind (strbuf_reset sb) (\<lambda>sb.
         rbind (strbuf_grow junk sb (length (drop in_off inp))) (\<lambda>sb.
         rbind (up_loop junk sb prefix i) (\<lambda>sb.
         rbind (if \<not> git_is_dir_sep (prefix ! (length prefix - 1)) then strbuf_addstr junk sb [0x2e, 0x2e, 0x2f] else Inr sb) (\<lambda>sb.
           strbuf_addstr junk sb (drop in_off inp)))))) (\<lambda>sb. Inr (takeWhile (\<lambda>c. c \<noteq> 0) (sb_buf sb), sb)))"
proof -
  define x where "x = int (length inp) - int in_off"
  have x: "int_val x = Inr x" "x = 0 \<longleftrightarrow> drop in_off inp = []" "nat (x mod 2 ^ 64) = length (drop in_off inp)"
    using len(1) off(2) by (auto simp: x_def nat_diff_distrib)
  have l: "nat (int (length prefix) - 1) = length prefix - 1" by simp
  have z: "int (length inp) \<noteq> 0" "int (length prefix) \<noteq> 0" "\<not> int in_off < 0" using ne by simp_all
  show ?thesis
    unfolding relative_path_def Let_def option.case option.sel c_int_small [OF len(1)] c_int_small [OF len(2)]
      off(1) rbind_simps prod.case x_def [symmetric] x l nat_int rbind_assoc of_nat_le_iff
    using z same by (simp only: if_False not_True_eq_False)
qed

text \<open>C34: for a path and a prefix that are not empty, shorter than 2 GiB and both absolute or both relative, and a
  prefix without the components \<open>.\<close> and \<open>..\<close>, the path \<^verbatim>\<open>relative_path()\<close> returns leads from the prefix to the directory the path leads to, and
  climbs above the start only if the path does.\<close>

theorem relative_path_leads_back:
  assumes ok: "sb_ok sb" "cstring_ok inp" and ne: "inp \<noteq> []" "prefix \<noteq> []"
    and root: "is_absolute_path inp = is_absolute_path prefix"
    and plain: "[0x2e] \<notin> set (path_components prefix)" "[0x2e, 0x2e] \<notin> set (path_components prefix)"
    and len: "length inp < 2 ^ 31" "length prefix < 2 ^ 31"
  shows "\<exists>r sb'. relative_path junk (Some inp) (Some prefix) sb = Inr (r, sb') \<and> sb_ok sb' \<and>
    walk [] (path_components (prefix @ 0x2f # r)) = walk [] (path_components inp)"
proof -
  have sep: "git_is_dir_sep (chr prefix) \<longleftrightarrow> git_is_dir_sep (chr inp)"
    using root by (simp add: is_absolute_path_def git_has_dos_drive_prefix_def)
  then have same: "have_same_root inp prefix"
    by (auto simp: have_same_root_def is_absolute_path_def git_has_dos_drive_prefix_def git_is_dir_sep_def Let_def)
  obtain i in_off C D where off: "relative_offsets inp prefix = Inr (i, int in_off)" "in_off \<le> length inp"
    and CD: "names prefix = C @ D" "names inp = C @ names (drop in_off inp)" "length D = up_count (drop i prefix)"
    using relative_offsets_names [OF ne sep len] by blast
  let ?r = "drop in_off inp"
  note path = relative_path_small [OF ne same len off]
  have "list_all path_name (names prefix)" using plain by (auto simp: names_def path_name_def list_all_iff)
  then have D: "list_all path_name D" using CD(1) by simp
  have leads: "walk [] (path_components (prefix @ 0x2f # r)) = walk [] (path_components inp)"
    if "\<And>st. walk st (names r) = walk st (replicate (length D) [0x2e, 0x2e] @ names ?r)" for r
  proof -
    have "walk st (D @ names r) = walk st (D @ replicate (length D) [0x2e, 0x2e] @ names ?r)" for st
      by (simp only: walk_append [of st D] that)
    then have "walk [] (C @ D @ names r) = walk [] (C @ names ?r)"
      by (simp only: walk_append [of "[]" C] walk_climb [OF D])
    then show ?thesis using names_split [of "0x2f" prefix r] by (simp add: walk_names_eq CD(1,2))
  qed
  have dot: "walk st (names [0x2e, 0x2f]) = Some st" for st by (simp add: names_def path_name_def git_is_dir_sep_def)
  show ?thesis
  proof (cases "length prefix \<le> i")
    case True
    let ?a = "if ?r = [] then [0x2e, 0x2f] else ?r"
    have "relative_path junk (Some inp) (Some prefix) sb = Inr (?a, sb)"
      using True unfolding path by simp
    moreover have "walk st (names ?a) = walk st (replicate (length D) [0x2e, 0x2e] @ names ?r)" for st
      using CD(3) True dot by (simp add: up_count_def)
    ultimately show ?thesis using leads [of ?a] ok(1) by blast
  next
    case False
    let ?t = "climb (up_count (drop i prefix)) @ ?r"
    obtain sb' where sb': "rbind (strbuf_reset sb) (\<lambda>sb.
        rbind (strbuf_grow junk sb (length ?r)) (\<lambda>sb.
        rbind (up_loop junk sb prefix i) (\<lambda>sb.
        rbind (if \<not> git_is_dir_sep (prefix ! (length prefix - 1)) then strbuf_addstr junk sb [0x2e, 0x2e, 0x2f] else Inr sb) (\<lambda>sb.
          strbuf_addstr junk sb ?r)))) = Inr sb'" "sb_ok sb'" "sb_str sb' = ?t"
      by (rule givesE [OF climb_text [OF ok(1), of i prefix ?r junk]]) (use False len in auto)
    have "cstring_ok ?r" using ok(2) by (auto simp: cstring_ok_def dest: in_set_dropD)
    then have "cstring_ok (sb_str sb')" by (simp add: sb'(3) climb_def cstring_ok_def)
    then have "takeWhile (\<lambda>c. c \<noteq> 0) (sb_buf sb') = ?t" using sb_cstring [OF sb'(2)] sb'(3) by simp
    then have "relative_path junk (Some inp) (Some prefix) sb = Inr (?t, sb')"
      using False unfolding path sb'(1) by simp
    moreover have "walk st (names ?t) = walk st (replicate (length D) [0x2e, 0x2e] @ names ?r)" for st
      by (simp add: names_climb CD(3))
    ultimately show ?thesis using leads [of ?t] sb'(2) by blast
  qed
qed

theorem relative_path_leads_back_witness:
  "\<exists>r sb'. relative_path (\<lambda>_. 0) (Some [0x2f, 0x61, 0x2f, 0x62]) (Some [0x2f, 0x61, 0x2f, 0x63]) STRBUF_INIT = Inr (r, sb') \<and>
    sb_ok sb' \<and>
    walk [] (path_components ([0x2f, 0x61, 0x2f, 0x63] @ 0x2f # r)) = walk [] (path_components [0x2f, 0x61, 0x2f, 0x62])"
  by (rule relative_path_leads_back) (simp_all add: is_absolute_path_def git_is_dir_sep_def)

subsection \<open>The daemon refuses aliases\<close>

text \<open>No component is empty or \<open>.\<close> or \<open>..\<close>, but the last one may be empty.\<close>

definition no_alias :: "cstring list \<Rightarrow> bool" where
  "no_alias cs \<longleftrightarrow> list_all path_name (butlast cs) \<and> (last cs = [] \<or> path_name (last cs))"

lemma no_alias_sep:
  "no_sep a \<Longrightarrow> no_alias (path_components (a @ 0x2f # p)) \<longleftrightarrow> path_name a \<and> no_alias (path_components p)"
  by (simp add: no_alias_def)

lemma dots_name: "path_name (replicate n 0x2e) \<longleftrightarrow> 3 \<le> n"
proof -
  consider "n = 0" | "n = 1" | "n = 2" | k where "n = k + 3" by atomize_elim presburger
  then show ?thesis by cases (auto simp: path_name_def numeral_2_eq_2 numeral_3_eq_3)
qed

lemma nondot_name: "c \<in> set a \<Longrightarrow> c \<noteq> 0x2e \<Longrightarrow> path_name a"
  by (auto simp: path_name_def)

lemma avoid_alias_loop_eq:
  "avoid_alias_loop True n p = (if no_alias (path_components (replicate n 0x2e @ p)) then 0 else - 1)"
  "no_sep a \<Longrightarrow> c \<in> set a \<Longrightarrow> c \<noteq> 0x2e \<Longrightarrow>
     avoid_alias_loop False m p = (if no_alias (path_components (a @ p)) then 0 else - 1)"
proof (induction p arbitrary: n a c m)
  case Nil
  {
    case 1
    have "no_sep (replicate n 0x2e)" by (simp add: no_sep_def git_is_dir_sep_def)
    then show ?case using dots_name [of n] by (auto simp: no_alias_def)
  next
    case 2
    then show ?case using nondot_name [of c a] by (simp add: no_alias_def)
  }
next
  case (Cons x p)
  {
    case 1
    have dots: "no_sep (replicate n 0x2e)" by (simp add: no_sep_def git_is_dir_sep_def)
    consider "x = 0x2e" | "x = 0x2f" | "x \<noteq> 0x2e" "x \<noteq> 0x2f" by blast
    then show ?case
    proof cases
      case 1
      then show ?thesis using Cons.IH(1) [of "Suc n"] by (simp add: replicate_app_Cons_same)
    next
      case 2
      then show ?thesis using Cons.IH(1) [of 0] no_alias_sep [OF dots, of p] dots_name [of n] by auto
    next
      case 3
      have "no_sep (replicate n 0x2e @ [x])" using dots 3 by (simp add: git_is_dir_sep_def)
      from Cons.IH(2) [OF this, of x 0] show ?thesis using 3 by simp
    qed
  next
    case 2
    show ?case
    proof (cases "x = 0x2f")
      case True
      then show ?thesis using Cons.IH(1) [of 0] no_alias_sep [OF 2(1), of p] nondot_name [OF 2(2,3)] by simp
    next
      case False
      have "no_sep (a @ [x])" using False 2 by (simp add: git_is_dir_sep_def)
      from Cons.IH(2) [OF this, of c m] show ?thesis using False 2 by simp
    qed
  }
qed

lemma daemon_avoid_alias_iff:
  "daemon_avoid_alias (Some (c # s)) = 0 \<longleftrightarrow> c \<in> {0x2f, 0x7e} \<and> no_alias (path_components s)"
  using avoid_alias_loop_eq(1) [of 0 s] by (auto simp: daemon_avoid_alias_def)

end
