(* ===== verification/Git_Quote.thy ===== *)
theory Git_Quote
  imports Git_Path
begin

unbundle bit_operations_syntax

section \<open>Quoting for the shell, for C and for other languages: quote.c\<close>

text \<open>
  The quoting functions append to string buffers.  The shell dequoter works in place: \<open>mem\<close> is the
  block that holds the string, \<open>src\<close> and \<open>dst\<close> are positions in it.  The array of arguments is a list: its
  allocation and the \<^verbatim>\<open>int\<close>s that count its elements are not modelled.  \<open>qpf\<close> is the global variable
  \<^verbatim>\<open>quote_path_fully\<close>.
\<close>

definition need_bs_quote :: "byte \<Rightarrow> bool" where
  "need_bs_quote c \<longleftrightarrow> c = 0x27 \<or> c = 0x21"

fun sq_bs_loop :: "(nat \<Rightarrow> byte) \<Rightarrow> strbuf \<Rightarrow> cstring \<Rightarrow> (strbuf \<times> cstring) result" where
  "sq_bs_loop junk dst [] = Inr (dst, [])"
| "sq_bs_loop junk dst (c # src) =
     (if need_bs_quote c then
        rbind (strbuf_addstr junk dst [0x27, 0x5c]) (\<lambda>dst.
        rbind (strbuf_addch junk dst c) (\<lambda>dst.
        rbind (strbuf_addch junk dst 0x27) (\<lambda>dst.
          sq_bs_loop junk dst src)))
      else Inr (dst, c # src))"

lemma sq_bs_loop_rest: "sq_bs_loop junk dst src = Inr (dst', src') \<Longrightarrow> src' = dropWhile need_bs_quote src"
  by (induction src arbitrary: dst) (auto simp: rbind_eq_Inr split: if_splits)

function sq_quote_loop :: "(nat \<Rightarrow> byte) \<Rightarrow> strbuf \<Rightarrow> cstring \<Rightarrow> strbuf result" where
  "sq_quote_loop junk dst src =
     (if src = [] then Inr dst
      else let len = length (takeWhile (\<lambda>c. c \<notin> set [0x27, 0x21]) src) in
           rbind (strbuf_add junk dst (take len src)) (\<lambda>dst.
           rbind (sq_bs_loop junk dst (drop len src)) (\<lambda>(dst, src).
             sq_quote_loop junk dst src)))"
  by auto
termination
proof (relation "measure (\<lambda>(_, _, src). length src)", goal_cases)
  case (2 junk dst src len dst1 p dst2 src2)
  have "src2 = dropWhile need_bs_quote (dropWhile (\<lambda>c. c \<notin> set [0x27, 0x21]) src)"
    using 2 sq_bs_loop_rest by (metis dropWhile_eq_drop)
  moreover have "length (dropWhile need_bs_quote (dropWhile (\<lambda>c. c \<notin> set [0x27, 0x21]) src)) < length src"
  proof (cases src)
    case (Cons c cs)
    have "length (dropWhile need_bs_quote (dropWhile (\<lambda>c. c \<notin> set [0x27, 0x21]) cs)) \<le> length cs"
      by (metis length_dropWhile_le order_trans)
    moreover have "length (dropWhile need_bs_quote cs) \<le> length cs" by (rule length_dropWhile_le)
    ultimately show ?thesis using Cons by (auto simp: need_bs_quote_def)
  qed (use 2 in simp)
  ultimately show ?case by simp
qed simp

declare sq_quote_loop.simps [simp del]

definition sq_quote_body :: "(nat \<Rightarrow> byte) \<Rightarrow> strbuf \<Rightarrow> cstring \<Rightarrow> strbuf result" where
  "sq_quote_body junk dst src =
     rbind (strbuf_addch junk dst 0x27) (\<lambda>dst.
     rbind (sq_quote_loop junk dst src) (\<lambda>dst.
       strbuf_addch junk dst 0x27))"

text \<open>The source may be the destination's own buffer, which is then detached first: \<open>None\<close>.\<close>

definition sq_quote_buf :: "(nat \<Rightarrow> byte) \<Rightarrow> strbuf \<Rightarrow> cstring option \<Rightarrow> strbuf result" where
  "sq_quote_buf junk dst src =
     (case src of
        Some s \<Rightarrow> sq_quote_body junk dst s
      | None \<Rightarrow> rbind (strbuf_detach junk dst) (\<lambda>(mem, len, dst).
                 sq_quote_body junk dst (takeWhile (\<lambda>c. c \<noteq> 0) mem)))"

definition ok_punct :: "byte list" where
  "ok_punct = [0x2b, 0x2c, 0x2d, 0x2e, 0x2f, 0x3a, 0x3d, 0x40, 0x5f, 0x5e]"

definition sq_quote_buf_pretty :: "(nat \<Rightarrow> byte) \<Rightarrow> strbuf \<Rightarrow> cstring \<Rightarrow> strbuf result" where
  "sq_quote_buf_pretty junk dst src =
     (if src = [] then strbuf_addstr junk dst [0x27, 0x27]
      else if list_ex (\<lambda>c. \<not> isalnum c \<and> c \<notin> set ok_punct) src then sq_quote_buf junk dst (Some src)
      else strbuf_addstr junk dst src)"

definition sq_quotef :: "(nat \<Rightarrow> byte) \<Rightarrow> strbuf \<Rightarrow> byte list \<Rightarrow> strbuf result" where
  "sq_quotef junk dst formatted =
     rbind (strbuf_vaddf junk STRBUF_INIT formatted) (\<lambda>src.
       sq_quote_buf junk dst (Some (takeWhile (\<lambda>c. c \<noteq> 0) (sb_buf src))))"

fun sq_quote_argv_loop :: "(nat \<Rightarrow> byte) \<Rightarrow> strbuf \<Rightarrow> cstring list \<Rightarrow> strbuf result" where
  "sq_quote_argv_loop junk dst [] = Inr dst"
| "sq_quote_argv_loop junk dst (a # argv) =
     rbind (strbuf_addch junk dst 0x20) (\<lambda>dst.
     rbind (sq_quote_buf junk dst (Some a)) (\<lambda>dst. sq_quote_argv_loop junk dst argv))"

definition sq_quote_argv :: "(nat \<Rightarrow> byte) \<Rightarrow> strbuf \<Rightarrow> cstring list \<Rightarrow> strbuf result" where
  "sq_quote_argv junk dst argv = rbind (strbuf_grow junk dst 255) (\<lambda>dst. sq_quote_argv_loop junk dst argv)"

fun append_argv_loop :: "(nat \<Rightarrow> byte) \<Rightarrow> strbuf \<Rightarrow> nat \<Rightarrow> cstring list \<Rightarrow> strbuf result" where
  "append_argv_loop junk dst i [] = Inr dst"
| "append_argv_loop junk dst i (a # argv) =
     rbind (if i > 0 then strbuf_addch junk dst 0x20 else Inr dst) (\<lambda>dst.
     rbind (sq_quote_buf_pretty junk dst a) (\<lambda>dst. append_argv_loop junk dst (i + 1) argv))"

definition sq_append_quote_argv_pretty :: "(nat \<Rightarrow> byte) \<Rightarrow> strbuf \<Rightarrow> cstring list \<Rightarrow> strbuf result" where
  "sq_append_quote_argv_pretty junk dst argv = append_argv_loop junk dst 0 argv"

definition sq_quote_argv_pretty :: "(nat \<Rightarrow> byte) \<Rightarrow> strbuf \<Rightarrow> cstring list \<Rightarrow> strbuf result" where
  "sq_quote_argv_pretty junk dst argv =
     rbind (if argv \<noteq> [] then strbuf_addch junk dst 0x20 else Inr dst) (\<lambda>dst.
       sq_append_quote_argv_pretty junk dst argv)"

subsection \<open>Dequoting in place\<close>

text \<open>
  The loop of \<^verbatim>\<open>sq_dequote_step()\<close>: the changed block, and \<open>None\<close> for a NULL return or \<open>Some\<close> of the value
  stored through \<^verbatim>\<open>next\<close>, itself NULL at the end of the string.  \<open>has_next\<close> tells whether \<^verbatim>\<open>next\<close> was given.
\<close>

function sq_dequote_loop ::
  "byte list \<Rightarrow> nat \<Rightarrow> nat \<Rightarrow> bool \<Rightarrow> (byte list \<times> nat option option) result" where
  "sq_dequote_loop mem dst src has_next =
     rbind (rd mem (src + 1)) (\<lambda>c.
       if c = 0 then Inr (mem, None)
       else if c \<noteq> 0x27 then
         rbind (wr mem dst c) (\<lambda>mem. sq_dequote_loop mem (dst + 1) (src + 1) has_next)
       else
         rbind (rd mem (src + 2)) (\<lambda>c.
           if c = 0 then rbind (wr mem dst 0) (\<lambda>mem. Inr (mem, Some None))
           else
             rbind (if c = 0x5c then
                      rbind (rd mem (src + 3)) (\<lambda>e.
                        if need_bs_quote e then rbind (rd mem (src + 4)) (\<lambda>f. Inr (if f = 0x27 then Some e else None))
                        else Inr None)
                    else Inr None) (\<lambda>esc.
               case esc of
                 Some e \<Rightarrow> rbind (wr mem dst e) (\<lambda>mem. sq_dequote_loop mem (dst + 1) (src + 4) has_next)
               | None \<Rightarrow>
                   if \<not> has_next then Inr (mem, None)
                   else rbind (wr mem dst 0) (\<lambda>mem. Inr (mem, Some (Some (src + 2)))))))"
  by auto
termination
  by (relation "measure (\<lambda>(mem, _, src, _). length mem - src)") (auto dest!: rd_bound wr_length)

declare sq_dequote_loop.simps [simp del]

definition sq_dequote_step :: "byte list \<Rightarrow> nat \<Rightarrow> bool \<Rightarrow> (byte list \<times> nat option option) result" where
  "sq_dequote_step mem arg has_next =
     rbind (rd mem arg) (\<lambda>c. if c \<noteq> 0x27 then Inr (mem, None) else sq_dequote_loop mem arg arg has_next)"

definition sq_dequote :: "byte list \<Rightarrow> nat \<Rightarrow> (byte list \<times> nat option option) result" where
  "sq_dequote mem arg = sq_dequote_step mem arg False"

lemma sq_dequote_loop_props:
  "sq_dequote_loop mem dst src has_next = Inr (mem', r) \<Longrightarrow>
   length mem' = length mem \<and> (\<forall>p. r = Some (Some p) \<longrightarrow> src < p \<and> p < length mem)"
proof (induction "length mem - src" arbitrary: mem dst src rule: less_induct)
  case less
  have IH: "length mem1 = length mem \<and> (\<forall>p. q = Some (Some p) \<longrightarrow> src < p \<and> p < length mem)"
    if "sq_dequote_loop m d s h = Inr (mem1, q)" "wr mem i c = Inr m" "rd mem s = Inr x" "src < s" "h = has_next"
      "mem1 = mem'" "q = r" for m d s i c x h mem1 q
    using less.hyps [of m s d] that wr_length [OF that(2)] rd_bound [OF that(3)] by fastforce
  from less.prems show ?case
    by (subst (asm) sq_dequote_loop.simps)
       (auto simp: rbind_eq_Inr split: if_splits option.splits dest: wr_length rd_bound IH)
qed

function skip_space :: "byte list \<Rightarrow> nat \<Rightarrow> nat result" where
  "skip_space mem p =
     rbind (rd mem (p + 1)) (\<lambda>c. if isspace c then skip_space mem (p + 1) else Inr (p + 1))"
  by auto
termination by (relation "measure (\<lambda>(mem, p). length mem - p)") (auto dest: rd_bound)

declare skip_space.simps [simp del]

lemma skip_space_gt: "skip_space mem p = Inr q \<Longrightarrow> p < q \<and> q < length mem"
proof (induction mem p rule: skip_space.induct)
  case (1 mem p)
  from "1.prems" show ?case
    by (subst (asm) skip_space.simps) (use "1.IH" in \<open>fastforce simp: rbind_eq_Inr dest: rd_bound split: if_splits\<close>)
qed

text \<open>
  The loop of \<^verbatim>\<open>sq_dequote_to_argv_internal()\<close>: the block, the return value, the pointers stored in
  \<^verbatim>\<open>argv\<close> and the strings copied to \<^verbatim>\<open>array\<close>.
\<close>

function dequote_argv_loop ::
  "byte list \<Rightarrow> nat \<Rightarrow> nat list \<Rightarrow> cstring list \<Rightarrow> (byte list \<times> int \<times> nat list \<times> cstring list) result" where
  "dequote_argv_loop mem arg argv array =
     rbind (sq_dequote_step mem arg True) (\<lambda>(mem, r).
       case r of
         None \<Rightarrow> Inr (mem, - 1, argv, array)
       | Some None \<Rightarrow> Inr (mem, 0, argv @ [arg], array @ [cstr_at mem arg])
       | Some (Some p) \<Rightarrow>
           rbind (rd mem p) (\<lambda>c.
             if \<not> isspace c then Inr (mem, - 1, argv, array)
             else rbind (skip_space mem p) (\<lambda>p.
               dequote_argv_loop mem p (argv @ [arg]) (array @ [cstr_at mem arg]))))"
  by auto
termination
  by (relation "measure (\<lambda>(mem, arg, _). length mem - arg)")
     (auto simp: sq_dequote_step_def rbind_eq_Inr split: if_splits dest!: sq_dequote_loop_props skip_space_gt)

declare dequote_argv_loop.simps [simp del]

definition sq_dequote_to_argv_internal ::
  "byte list \<Rightarrow> nat \<Rightarrow> (byte list \<times> int \<times> nat list \<times> cstring list) result" where
  "sq_dequote_to_argv_internal mem arg =
     rbind (rd mem arg) (\<lambda>c. if c = 0 then Inr (mem, 0, [], []) else dequote_argv_loop mem arg [] [])"

definition sq_dequote_to_argv :: "byte list \<Rightarrow> nat \<Rightarrow> (byte list \<times> int \<times> nat list) result" where
  "sq_dequote_to_argv mem arg =
     rbind (sq_dequote_to_argv_internal mem arg) (\<lambda>(mem, ret, argv, _). Inr (mem, ret, argv))"

definition sq_dequote_to_strvec :: "byte list \<Rightarrow> nat \<Rightarrow> (byte list \<times> int \<times> cstring list) result" where
  "sq_dequote_to_strvec mem arg =
     rbind (sq_dequote_to_argv_internal mem arg) (\<lambda>(mem, ret, _, array). Inr (mem, ret, array))"

subsection \<open>C-style quoting\<close>

definition cq_lookup :: "int list" where
  "cq_lookup =
     replicate 7 1 @ map (\<lambda>c. int (of_char c)) ''abtnvfr'' @ [1, 1] @ replicate 16 1 @
     [- 1, - 1, 0x22, - 1, - 1, - 1, - 1, - 1] @ replicate 48 (- 1) @
     [- 1, - 1, - 1, - 1, 0x5c, - 1, - 1, - 1] @ replicate 24 (- 1) @
     [- 1, - 1, - 1, - 1, - 1, - 1, - 1, 1] @ replicate 128 0"

definition cq_must_quote :: "int \<Rightarrow> byte \<Rightarrow> bool" where
  "cq_must_quote quote_path_fully c \<longleftrightarrow> cq_lookup ! unat c + quote_path_fully > 0"

text \<open>At the end of the string both loops meet the NUL, which must be quoted.\<close>

definition next_quote_pos :: "int \<Rightarrow> cstring \<Rightarrow> int \<Rightarrow> nat" where
  "next_quote_pos qpf s maxlen =
     (if maxlen < 0 then length (takeWhile (\<lambda>c. \<not> cq_must_quote qpf c) s)
      else length (takeWhile (\<lambda>c. \<not> cq_must_quote qpf c) (take (nat maxlen) s)))"

text \<open>
  The places the quoted text goes to: a string buffer, a file (the bytes written), both or none; the
  number of bytes, and whether the scan is still at the start of the name.
\<close>

record cq_out =
  cq_sb :: "strbuf option"
  cq_fp :: "byte list option"
  cq_count :: nat
  cq_at_name :: bool

definition EMITBUF :: "(nat \<Rightarrow> byte) \<Rightarrow> cq_out \<Rightarrow> byte list \<Rightarrow> cq_out result" where
  "EMITBUF junk out s =
     rbind (case cq_sb out of None \<Rightarrow> Inr None | Some sb \<Rightarrow> rbind (strbuf_add junk sb s) (\<lambda>sb. Inr (Some sb)))
       (\<lambda>sb. Inr (out\<lparr>cq_sb := sb, cq_fp := map_option (\<lambda>f. f @ s) (cq_fp out),
                       cq_count := cq_count out + length s\<rparr>))"

definition EMIT :: "(nat \<Rightarrow> byte) \<Rightarrow> cq_out \<Rightarrow> byte \<Rightarrow> cq_out result" where
  "EMIT junk out c =
     rbind (case cq_sb out of None \<Rightarrow> Inr None | Some sb \<Rightarrow> rbind (strbuf_addch junk sb c) (\<lambda>sb. Inr (Some sb)))
       (\<lambda>sb. Inr (out\<lparr>cq_sb := sb, cq_fp := map_option (\<lambda>f. f @ [c]) (cq_fp out),
                       cq_count := cq_count out + 1\<rparr>))"

definition emit_escape :: "(nat \<Rightarrow> byte) \<Rightarrow> cq_out \<Rightarrow> byte \<Rightarrow> cq_out result" where
  "emit_escape junk out ch =
     (if cq_lookup ! unat ch \<ge> 0x20 then EMIT junk out (of_int (cq_lookup ! unat ch))
      else rbind (EMIT junk out ((drop_bit 6 ch AND 3) + 0x30)) (\<lambda>out.
           rbind (EMIT junk out ((drop_bit 3 ch AND 7) + 0x30)) (\<lambda>out.
             EMIT junk out ((ch AND 7) + 0x30))))"

text \<open>
  With a \<open>maxlen\<close> beyond the end of the name the NUL is quoted too, and a further turn would read behind it.
\<close>

function quote_c_loop :: "(nat \<Rightarrow> byte) \<Rightarrow> int \<Rightarrow> bool \<Rightarrow> cstring \<Rightarrow> int \<Rightarrow> cq_out \<Rightarrow> cq_out result" where
  "quote_c_loop junk qpf no_dq p maxlen out =
     (let len = next_quote_pos qpf p maxlen in
      if int len = maxlen \<or> (maxlen < 0 \<and> len = length p) then EMITBUF junk out (take len p)
      else
        rbind (if \<not> no_dq \<and> cq_at_name out then EMIT junk out 0x22 else Inr out) (\<lambda>out.
        rbind (EMITBUF junk out (take len p)) (\<lambda>out.
        rbind (EMIT junk out 0x5c) (\<lambda>out.
          case drop len p of
            [] \<Rightarrow> rbind (emit_escape junk (out\<lparr>cq_at_name := False\<rparr>) 0) (\<lambda>out.
                    if maxlen = int len + 1 then Inr out else Inl Oob)
          | ch # p \<Rightarrow>
              rbind (emit_escape junk (out\<lparr>cq_at_name := False\<rparr>) ch) (\<lambda>out.
                quote_c_loop junk qpf no_dq p (if maxlen \<ge> 0 then maxlen - int (len + 1) else maxlen) out)))))"
  by pat_completeness auto
termination
proof (relation "measure (\<lambda>(_, _, _, p, _, _). length p)", goal_cases)
  case (2 junk qpf no_dq p maxlen out len out1 out2 out3 ch p')
  then have "Suc (length p') = length (drop len p)" by simp
  then show ?case by simp
qed simp

declare quote_c_loop.simps [simp del]

definition CQUOTE_NODQ :: u32 where "CQUOTE_NODQ = 1"

text \<open>The returned count, the string buffer and the file.\<close>

definition quote_c_style_counted ::
  "(nat \<Rightarrow> byte) \<Rightarrow> int \<Rightarrow> cstring \<Rightarrow> int \<Rightarrow> strbuf option \<Rightarrow> byte list option \<Rightarrow> u32 \<Rightarrow>
   (nat \<times> strbuf option \<times> byte list option) result" where
  "quote_c_style_counted junk qpf name maxlen sb fp flags =
     (let no_dq = (flags AND CQUOTE_NODQ \<noteq> 0) in
      rbind (quote_c_loop junk qpf no_dq name maxlen
               \<lparr>cq_sb = sb, cq_fp = fp, cq_count = 0, cq_at_name = True\<rparr>) (\<lambda>out.
        if cq_at_name out then Inr (0, cq_sb out, cq_fp out)
        else rbind (if \<not> no_dq then EMIT junk out 0x22 else Inr out) (\<lambda>out.
               Inr (cq_count out, cq_sb out, cq_fp out))))"

definition quote_c_style ::
  "(nat \<Rightarrow> byte) \<Rightarrow> int \<Rightarrow> cstring \<Rightarrow> strbuf option \<Rightarrow> byte list option \<Rightarrow> u32 \<Rightarrow>
   (nat \<times> strbuf option \<times> byte list option) result" where
  "quote_c_style junk qpf name sb fp flags = quote_c_style_counted junk qpf name (- 1) sb fp flags"

definition quote_two_c_style ::
  "(nat \<Rightarrow> byte) \<Rightarrow> int \<Rightarrow> strbuf \<Rightarrow> cstring \<Rightarrow> cstring \<Rightarrow> u32 \<Rightarrow> strbuf result" where
  "quote_two_c_style junk qpf sb prefix path flags =
     (let nodq = (flags AND CQUOTE_NODQ \<noteq> 0) in
      rbind (quote_c_style junk qpf prefix None None 0) (\<lambda>(n1, _).
      rbind (quote_c_style junk qpf path None None 0) (\<lambda>(n2, _).
        if n1 \<noteq> 0 \<or> n2 \<noteq> 0 then
          rbind (if \<not> nodq then strbuf_addch junk sb 0x22 else Inr sb) (\<lambda>sb.
          rbind (quote_c_style junk qpf prefix (Some sb) None CQUOTE_NODQ) (\<lambda>(_, sb, _).
          rbind (quote_c_style junk qpf path sb None CQUOTE_NODQ) (\<lambda>(_, sb, _).
            if \<not> nodq then strbuf_addch junk (the sb) 0x22 else Inr (the sb))))
        else rbind (strbuf_addstr junk sb prefix) (\<lambda>sb. strbuf_addstr junk sb path))))"

definition write_name_quoted ::
  "(nat \<Rightarrow> byte) \<Rightarrow> int \<Rightarrow> cstring \<Rightarrow> byte list \<Rightarrow> byte \<Rightarrow> byte list result" where
  "write_name_quoted junk qpf name fp terminator =
     rbind (if terminator \<noteq> 0 then
              rbind (quote_c_style junk qpf name None (Some fp) 0) (\<lambda>(_, _, fp). Inr (the fp))
            else Inr (fp @ name)) (\<lambda>fp. Inr (fp @ [terminator]))"

definition write_name_quoted_relative ::
  "(nat \<Rightarrow> byte) \<Rightarrow> int \<Rightarrow> cstring option \<Rightarrow> cstring option \<Rightarrow> byte list \<Rightarrow> byte \<Rightarrow> byte list result" where
  "write_name_quoted_relative junk qpf name prefix fp terminator =
     rbind (relative_path junk name prefix STRBUF_INIT) (\<lambda>(name, sb).
     rbind (write_name_quoted junk qpf name fp terminator) (\<lambda>fp.
     rbind (strbuf_release junk sb) (\<lambda>_. Inr fp)))"

definition QUOTE_PATH_QUOTE_SP :: u32 where "QUOTE_PATH_QUOTE_SP = 1"

text \<open>The returned pointer is that to the block of \<^verbatim>\<open>out\<close>.\<close>

definition quote_path ::
  "(nat \<Rightarrow> byte) \<Rightarrow> int \<Rightarrow> cstring option \<Rightarrow> cstring option \<Rightarrow> strbuf \<Rightarrow> u32 \<Rightarrow> strbuf result" where
  "quote_path junk qpf inp prefix out flags =
     rbind (relative_path junk inp prefix STRBUF_INIT) (\<lambda>(rel, sb).
       let force_dq = (flags AND QUOTE_PATH_QUOTE_SP \<noteq> 0 \<and> 0x20 \<in> set rel) in
       rbind (strbuf_reset out) (\<lambda>out.
       rbind (if force_dq then strbuf_addch junk out 0x22 else Inr out) (\<lambda>out.
       rbind (quote_c_style_counted junk qpf rel (int (length rel)) (Some out) None
                (if force_dq then CQUOTE_NODQ else 0)) (\<lambda>(_, out, _).
       rbind (if force_dq then strbuf_addch junk (the out) 0x22 else Inr (the out)) (\<lambda>out.
       rbind (strbuf_release junk sb) (\<lambda>_. Inr out))))))"

subsection \<open>C-style unquoting\<close>

definition octal_digit :: "byte \<Rightarrow> bool" where
  "octal_digit ch \<longleftrightarrow> \<not> (ch < 0x30 \<or> 0x37 < ch)"

text \<open>The character after a backslash: its value and the rest of the string, or \<open>None\<close> for an error.\<close>

definition unquote_escape :: "cstring \<Rightarrow> (byte \<times> cstring) option" where
  "unquote_escape quoted =
     (let ch = chr quoted; q = tl quoted in
      if ch = 0x61 then Some (0x07, q)
      else if ch = 0x62 then Some (0x08, q)
      else if ch = 0x66 then Some (0x0c, q)
      else if ch = 0x6e then Some (0x0a, q)
      else if ch = 0x72 then Some (0x0d, q)
      else if ch = 0x74 then Some (0x09, q)
      else if ch = 0x76 then Some (0x0b, q)
      else if ch = 0x5c \<or> ch = 0x22 then Some (ch, q)
      else if ch \<in> set [0x30, 0x31, 0x32, 0x33] then
        (let ac = push_bit 6 (ch - 0x30); ch = chr q; q = tl q in
         if \<not> octal_digit ch then None
         else let ac = ac OR push_bit 3 (ch - 0x30); ch = chr q; q = tl q in
              if \<not> octal_digit ch then None
              else Some (ac OR (ch - 0x30), q))
      else None)"

lemma unquote_escape_length: "unquote_escape q = Some (c, q') \<Longrightarrow> length q' \<le> length q - 1"
  by (auto simp: unquote_escape_def Let_def split: if_splits)

function unquote_loop :: "(nat \<Rightarrow> byte) \<Rightarrow> strbuf \<Rightarrow> cstring \<Rightarrow> (strbuf \<times> cstring option) result" where
  "unquote_loop junk sb quoted =
     (let len = length (takeWhile (\<lambda>c. c \<notin> set [0x22, 0x5c]) quoted) in
      rbind (strbuf_add junk sb (take len quoted)) (\<lambda>sb.
        case drop len quoted of
          [] \<Rightarrow> Inr (sb, None)
        | c # quoted \<Rightarrow>
            if c = 0x22 then Inr (sb, Some quoted)
            else if c \<noteq> 0x5c then Inr (sb, None)
            else (case unquote_escape quoted of
                    None \<Rightarrow> Inr (sb, None)
                  | Some (ch, quoted) \<Rightarrow>
                      rbind (strbuf_addch junk sb ch) (\<lambda>sb. unquote_loop junk sb quoted))))"
  by pat_completeness auto
termination
proof (relation "measure (\<lambda>(_, _, q). length q)", goal_cases)
  case (2 junk sb quoted len sb1 c q1 p ch q2 sb2)
  then have "Suc (length q1) = length (drop len quoted)" by simp
  moreover have "length q2 \<le> length q1 - 1" using 2 unquote_escape_length by blast
  ultimately show ?case by simp
qed simp

declare unquote_loop.simps [simp del]

definition unquote_c_style :: "(nat \<Rightarrow> byte) \<Rightarrow> strbuf \<Rightarrow> cstring \<Rightarrow> (int \<times> strbuf \<times> cstring option) result" where
  "unquote_c_style junk sb quoted =
     (let oldlen = sb_len sb in
      if chr quoted \<noteq> 0x22 then Inr (- 1, sb, None)
      else rbind (unquote_loop junk sb (tl quoted)) (\<lambda>(sb, r).
        case r of
          Some endp \<Rightarrow> Inr (0, sb, Some endp)
        | None \<Rightarrow> rbind (strbuf_setlen sb oldlen) (\<lambda>sb. Inr (- 1, sb, None))))"

subsection \<open>String literals of other languages\<close>

fun perl_quote_loop :: "(nat \<Rightarrow> byte) \<Rightarrow> strbuf \<Rightarrow> byte list \<Rightarrow> strbuf result" where
  "perl_quote_loop junk sb [] = Inr sb"
| "perl_quote_loop junk sb (c # src) =
     rbind (if c = 0x27 \<or> c = 0x5c then strbuf_addch junk sb 0x5c else Inr sb) (\<lambda>sb.
     rbind (strbuf_addch junk sb c) (\<lambda>sb. perl_quote_loop junk sb src))"

definition perl_quote_buf :: "(nat \<Rightarrow> byte) \<Rightarrow> strbuf \<Rightarrow> cstring \<Rightarrow> strbuf result" where
  "perl_quote_buf junk sb src =
     rbind (strbuf_addch junk sb 0x27) (\<lambda>sb.
     rbind (perl_quote_loop junk sb src) (\<lambda>sb. strbuf_addch junk sb 0x27))"

definition perl_quote_buf_with_len :: "(nat \<Rightarrow> byte) \<Rightarrow> strbuf \<Rightarrow> byte list \<Rightarrow> strbuf result" where
  "perl_quote_buf_with_len junk sb src =
     rbind (strbuf_addch junk sb 0x27) (\<lambda>sb.
     rbind (perl_quote_loop junk sb src) (\<lambda>sb. strbuf_addch junk sb 0x27))"

fun python_quote_loop :: "(nat \<Rightarrow> byte) \<Rightarrow> strbuf \<Rightarrow> cstring \<Rightarrow> strbuf result" where
  "python_quote_loop junk sb [] = Inr sb"
| "python_quote_loop junk sb (c # src) =
     (if c = 0x0a then
        rbind (strbuf_addch junk sb 0x5c) (\<lambda>sb.
        rbind (strbuf_addch junk sb 0x6e) (\<lambda>sb. python_quote_loop junk sb src))
      else
        rbind (if c = 0x27 \<or> c = 0x5c then strbuf_addch junk sb 0x5c else Inr sb) (\<lambda>sb.
        rbind (strbuf_addch junk sb c) (\<lambda>sb. python_quote_loop junk sb src)))"

definition python_quote_buf :: "(nat \<Rightarrow> byte) \<Rightarrow> strbuf \<Rightarrow> cstring \<Rightarrow> strbuf result" where
  "python_quote_buf junk sb src =
     rbind (strbuf_addch junk sb 0x27) (\<lambda>sb.
     rbind (python_quote_loop junk sb src) (\<lambda>sb. strbuf_addch junk sb 0x27))"

definition tcl_char :: "(nat \<Rightarrow> byte) \<Rightarrow> strbuf \<Rightarrow> byte \<Rightarrow> strbuf result" where
  "tcl_char junk sb c =
     (if c \<in> set [0x5b, 0x5d, 0x7b, 0x7d, 0x24, 0x5c, 0x22] then
        rbind (strbuf_addch junk sb 0x5c) (\<lambda>sb. strbuf_addch junk sb c)
      else if c = 0x0c then strbuf_addstr junk sb [0x5c, 0x66]
      else if c = 0x0d then strbuf_addstr junk sb [0x5c, 0x72]
      else if c = 0x0a then strbuf_addstr junk sb [0x5c, 0x6e]
      else if c = 0x09 then strbuf_addstr junk sb [0x5c, 0x74]
      else if c = 0x0b then strbuf_addstr junk sb [0x5c, 0x76]
      else strbuf_addch junk sb c)"

fun tcl_quote_loop :: "(nat \<Rightarrow> byte) \<Rightarrow> strbuf \<Rightarrow> cstring \<Rightarrow> strbuf result" where
  "tcl_quote_loop junk sb [] = Inr sb"
| "tcl_quote_loop junk sb (c # src) = rbind (tcl_char junk sb c) (\<lambda>sb. tcl_quote_loop junk sb src)"

definition tcl_quote_buf :: "(nat \<Rightarrow> byte) \<Rightarrow> strbuf \<Rightarrow> cstring \<Rightarrow> strbuf result" where
  "tcl_quote_buf junk sb src =
     rbind (strbuf_addch junk sb 0x22) (\<lambda>sb.
     rbind (tcl_quote_loop junk sb src) (\<lambda>sb. strbuf_addch junk sb 0x22))"

fun basic_regex_loop :: "(nat \<Rightarrow> byte) \<Rightarrow> strbuf \<Rightarrow> cstring \<Rightarrow> strbuf result" where
  "basic_regex_loop junk sb [] = Inr sb"
| "basic_regex_loop junk sb (c # src) =
     rbind (if c \<in> set [0x5b, 0x2e, 0x5c, 0x2a] then
              rbind (strbuf_addch junk sb 0x5c) (\<lambda>sb. strbuf_addch junk sb c)
            else if c = 0x24 then
              rbind (if chr src = 0 then strbuf_addch junk sb 0x5c else Inr sb) (\<lambda>sb. strbuf_addch junk sb c)
            else strbuf_addch junk sb c) (\<lambda>sb.
       basic_regex_loop junk sb src)"

definition basic_regex_quote_buf :: "(nat \<Rightarrow> byte) \<Rightarrow> strbuf \<Rightarrow> cstring \<Rightarrow> strbuf result" where
  "basic_regex_quote_buf junk sb src =
     rbind (if chr src = 0x5e then
              rbind (strbuf_addch junk sb 0x5c) (\<lambda>sb.
              rbind (strbuf_addch junk sb (chr src)) (\<lambda>sb. Inr (sb, tl src)))
            else Inr (sb, src)) (\<lambda>(sb, src).
     rbind (if chr src = 0x2a then rbind (strbuf_addch junk sb (chr src)) (\<lambda>sb. Inr (sb, tl src))
            else Inr (sb, src)) (\<lambda>(sb, src).
       basic_regex_loop junk sb src))"

subsection \<open>Shell quoting, as lists\<close>

definition sq_char :: "byte \<Rightarrow> byte list" where
  "sq_char c = (if need_bs_quote c then [0x27, 0x5c, c, 0x27] else [c])"

definition sq_text :: "cstring \<Rightarrow> byte list" where
  "sq_text s = 0x27 # concat (map sq_char s) @ [0x27]"

text \<open>Both loops append the images of the characters they consume.\<close>

definition consumes :: "(strbuf \<times> cstring) result \<Rightarrow> strbuf \<Rightarrow> cstring \<Rightarrow> cstring \<Rightarrow> bool" where
  "consumes r sb src rest \<longleftrightarrow>
     (case r of
        Inl e \<Rightarrow> e = Died \<and> 2 ^ 64 \<le> length (sb_str sb @ concat (map sq_char src)) + 65
      | Inr (sb', src') \<Rightarrow> src' = rest \<and> sb_ok sb' \<and>
          sb_str sb' @ concat (map sq_char rest) = sb_str sb @ concat (map sq_char src))"

lemma sq_escape_yields:
  assumes "sb_ok sb" "need_bs_quote c"
  shows "yields (rbind (strbuf_addstr junk sb [0x27, 0x5c]) (\<lambda>sb.
      rbind (strbuf_addch junk sb c) (\<lambda>sb. strbuf_addch junk sb 0x27))) (sb_str sb @ sq_char c)"
proof -
  have two: "yields (rbind (strbuf_addch junk sb c) (\<lambda>sb. strbuf_addch junk sb 0x27)) (sb_str sb @ [c, 0x27])"
    if "sb_ok sb" for sb
    by (rule yields_step [OF strbuf_addch_yields [OF that] strbuf_addch_yields]) simp_all
  show ?thesis
    by (rule yields_step [OF strbuf_addstr_yields [OF assms(1)] two]) (simp_all add: sq_char_def assms(2))
qed

lemma consumes_step:
  assumes r: "yields r (sb_str sb @ concat (map sq_char a))" and f: "\<And>sb'. sb_ok sb' \<Longrightarrow> consumes (f sb') sb' src rest"
  shows "consumes (rbind r f) sb (a @ src) rest"
proof (cases r)
  case (Inr b)
  then have "sb_ok b" "sb_str b = sb_str sb @ concat (map sq_char a)" using r by (simp_all add: yields_Inr)
  then show ?thesis using Inr f [of b] by (auto simp: consumes_def split: sum.splits)
qed (use r in \<open>simp add: yields_def consumes_def\<close>)

lemma sq_bs_loop_consumes:
  "sb_ok sb \<Longrightarrow> consumes (sq_bs_loop junk sb src) sb src (dropWhile need_bs_quote src)"
proof (induction src arbitrary: sb)
  case (Cons c src)
  show ?case
  proof (cases "need_bs_quote c")
    case True
    have "sq_bs_loop junk sb (c # src) =
        rbind (rbind (strbuf_addstr junk sb [0x27, 0x5c]) (\<lambda>sb.
          rbind (strbuf_addch junk sb c) (\<lambda>sb. strbuf_addch junk sb 0x27))) (\<lambda>sb. sq_bs_loop junk sb src)"
      using True by (simp add: rbind_assoc)
    moreover have "consumes \<dots> sb ([c] @ src) (dropWhile need_bs_quote src)"
      by (rule consumes_step) (use sq_escape_yields [OF Cons.prems True] Cons.IH in simp_all)
    ultimately show ?thesis using True by simp
  next
    case False
    then show ?thesis using Cons.prems by (simp add: consumes_def)
  qed
qed (simp add: consumes_def)

lemma sq_plain: "\<forall>c\<in>set s. c \<notin> set [0x27, 0x21] \<Longrightarrow> concat (map sq_char s) = s"
  by (induction s) (auto simp: sq_char_def need_bs_quote_def)

lemma sq_quote_loop_yields:
  "sb_ok dst \<Longrightarrow> yields (sq_quote_loop junk dst src) (sb_str dst @ concat (map sq_char src))"
proof (induction "length src" arbitrary: src dst rule: less_induct)
  case less
  show ?case
  proof (cases "src = []")
    case True
    then show ?thesis using less.prems by (subst sq_quote_loop.simps) (simp add: yields_Inr)
  next
    case False
    define a b where "a = takeWhile (\<lambda>c. c \<notin> set [0x27, 0x21]) src" and "b = dropWhile (\<lambda>c. c \<notin> set [0x27, 0x21]) src"
    define rest where "rest = dropWhile need_bs_quote b"
    have src: "src = a @ b" "take (length a) src = a" "drop (length a) src = b"
      by (simp_all add: a_def b_def dropWhile_eq_drop [symmetric] takeWhile_eq_take [symmetric])
    have plain: "concat (map sq_char a) = a" by (rule sq_plain) (auto simp: a_def dest: set_takeWhileD)
    have shorter: "length rest < length src"
    proof (cases b)
      case Nil
      then show ?thesis using False by (simp add: rest_def)
    next
      case (Cons c b')
      then have "need_bs_quote c"
        using hd_dropWhile [of "\<lambda>c. c \<notin> set [0x27, 0x21]" src] by (auto simp: b_def need_bs_quote_def)
      then show ?thesis
        using Cons src(1) length_dropWhile_le [of need_bs_quote b'] by (simp add: rest_def)
    qed
    have unfold: "sq_quote_loop junk dst src =
        rbind (rbind (strbuf_add junk dst a) (\<lambda>dst. sq_bs_loop junk dst b)) (\<lambda>(dst, src). sq_quote_loop junk dst src)"
      using False src(2,3) by (subst sq_quote_loop.simps) (simp only: a_def [symmetric] Let_def rbind_assoc if_False)
    have "consumes (rbind (strbuf_add junk dst a) (\<lambda>dst. sq_bs_loop junk dst b)) dst (a @ b) rest"
      unfolding rest_def
      by (rule consumes_step) (use strbuf_add_yields [OF less.prems, of junk a] sq_bs_loop_consumes in \<open>simp_all add: plain\<close>)
    then have cons: "consumes (rbind (strbuf_add junk dst a) (\<lambda>dst. sq_bs_loop junk dst b)) dst src rest"
      by (simp only: src(1) [symmetric])
    show ?thesis unfolding unfold
    proof (cases "rbind (strbuf_add junk dst a) (\<lambda>dst. sq_bs_loop junk dst b)")
      case (Inl e)
      then show "yields (rbind (rbind (strbuf_add junk dst a) (\<lambda>dst. sq_bs_loop junk dst b))
          (\<lambda>(dst, src). sq_quote_loop junk dst src)) (sb_str dst @ concat (map sq_char src))"
        using cons by (simp add: consumes_def yields_def)
    next
      case (Inr p)
      obtain sb s where p: "p = (sb, s)" by (cases p)
      then have "sb_ok sb" "s = rest" "sb_str sb @ concat (map sq_char rest) = sb_str dst @ concat (map sq_char src)"
        using cons Inr by (simp_all add: consumes_def)
      then show "yields (rbind (rbind (strbuf_add junk dst a) (\<lambda>dst. sq_bs_loop junk dst b))
          (\<lambda>(dst, src). sq_quote_loop junk dst src)) (sb_str dst @ concat (map sq_char src))"
        using less.hyps [OF shorter, of sb] Inr p by simp
    qed
  qed
qed

lemma sq_quote_body_yields:
  assumes "sb_ok dst"
  shows "yields (sq_quote_body junk dst src) (sb_str dst @ sq_text src)"
proof -
  have two: "yields (rbind (sq_quote_loop junk sb src) (\<lambda>dst. strbuf_addch junk dst 0x27))
      (sb_str sb @ concat (map sq_char src) @ [0x27])" if "sb_ok sb" for sb
    by (rule yields_step [OF sq_quote_loop_yields [OF that] strbuf_addch_yields]) simp_all
  show ?thesis unfolding sq_quote_body_def
    by (rule yields_step [OF strbuf_addch_yields [OF assms] two]) (simp_all add: sq_text_def)
qed

lemma sq_quote_argv_loop_yields:
  "sb_ok dst \<Longrightarrow> yields (sq_quote_argv_loop junk dst argv) (sb_str dst @ concat (map (\<lambda>a. 0x20 # sq_text a) argv))"
proof (induction argv arbitrary: dst)
  case (Cons a argv)
  have two: "yields (rbind (sq_quote_buf junk sb (Some a)) (\<lambda>dst. sq_quote_argv_loop junk dst argv))
      (sb_str sb @ sq_text a @ concat (map (\<lambda>a. 0x20 # sq_text a) argv))" if "sb_ok sb" for sb
    by (rule yields_step [OF _ Cons.IH]) (use sq_quote_body_yields [OF that] in \<open>simp_all add: sq_quote_buf_def\<close>)
  show ?case using yields_step [OF strbuf_addch_yields [OF Cons.prems] two] by simp
qed (simp add: yields_Inr)

subsection \<open>Dequoting gives the quoted strings back\<close>

lemma drop_Cons_nth: "drop k xs = y # ys \<Longrightarrow> k < length xs \<and> xs ! k = y \<and> drop (Suc k) xs = ys"
  by (metis drop_Suc drop_eq_Nil2 linorder_not_less list.distinct(1) list.sel(3) nth_via_drop tl_drop)

text \<open>
  Inside the quotes, with the write position behind the read position: the string is stored, with a
  NUL, in front of the text that follows the closing quote, which is left alone.
\<close>

lemma dequote_loop_text:
  assumes "drop (src + 1) mem = concat (map sq_char s) @ 0x27 # t # tail" "dst \<le> src" "cstring_ok s"
    and "t = 0 \<or> has_next \<and> t \<noteq> 0x5c"
  shows "\<exists>mem'. sq_dequote_loop mem dst src has_next =
      Inr (mem', Some (if t = 0 then None else Some (src + 2 + length (concat (map sq_char s))))) \<and>
    length mem' = length mem \<and> take (dst + length s + 1) mem' = take dst mem @ s @ [0] \<and>
    drop (src + 2 + length (concat (map sq_char s))) mem' = t # tail"
  using assms
proof (induction s arbitrary: mem dst src)
  case Nil
  have m1: "src + 1 < length mem" "mem ! (src + 1) = 0x27" "drop (src + 2) mem = t # tail"
    using drop_Cons_nth [of "src + 1" mem "0x27" "t # tail"] Nil.prems(1) by simp_all
  have m2: "src + 2 < length mem" "mem ! (src + 2) = t" using drop_Cons_nth [OF m1(3)] by simp_all
  have "sq_dequote_loop mem dst src has_next = Inr (mem[dst := 0], Some (if t = 0 then None else Some (src + 2)))"
    using m1 m2 Nil.prems by (subst sq_dequote_loop.simps) auto
  moreover have "take (dst + 1) (mem[dst := 0]) = take dst mem @ [0]"
    using Nil.prems(2) m1(1) by (simp add: take_Suc_conv_app_nth)
  ultimately show ?case using m1 Nil.prems(2) by simp
next
  case (Cons c s)
  let ?rest = "concat (map sq_char s) @ 0x27 # t # tail"
  have c: "c \<noteq> 0" "cstring_ok s" using Cons.prems(3) by simp_all
  have step: ?case if k: "sq_dequote_loop mem dst src has_next = sq_dequote_loop (mem[dst := c]) (dst + 1) (src + k) has_next"
    and rest: "drop (src + k + 1) mem = ?rest" and len: "length (sq_char c) = k" "0 < k" for k
  proof -
    have "drop (src + k + 1) mem \<noteq> []" using rest by simp
    then have "src + k + 1 < length mem" by (simp add: not_le)
    then have dst: "dst < length mem" using Cons.prems(2) by simp
    have "drop (src + k + 1) (mem[dst := c]) = ?rest" using rest Cons.prems(2) len by simp
    moreover have "dst + 1 \<le> src + k" using Cons.prems(2) len by simp
    ultimately obtain mem' where mem': "sq_dequote_loop (mem[dst := c]) (dst + 1) (src + k) has_next =
        Inr (mem', Some (if t = 0 then None else Some (src + k + 2 + length (concat (map sq_char s)))))"
        "length mem' = length (mem[dst := c])" "take (dst + 1 + length s + 1) mem' = take (dst + 1) (mem[dst := c]) @ s @ [0]"
        "drop (src + k + 2 + length (concat (map sq_char s))) mem' = t # tail"
      using Cons.IH c(2) Cons.prems(4) by blast
    moreover have "take (dst + 1) (mem[dst := c]) = take dst mem @ [c]" using dst by (simp add: take_Suc_conv_app_nth)
    ultimately show ?case using k len by (intro exI [of _ mem']) (simp add: add.assoc add.commute add.left_commute)
  qed
  show ?case
  proof (cases "need_bs_quote c")
    case True
    have d: "drop (src + 1) mem = 0x27 # 0x5c # c # 0x27 # ?rest" using Cons.prems(1) True by (simp add: sq_char_def [of c])
    note d1 = drop_Cons_nth [OF d]
    note d2 = drop_Cons_nth [OF conjunct2 [OF conjunct2 [OF d1]]]
    note d3 = drop_Cons_nth [OF conjunct2 [OF conjunct2 [OF d2]]]
    note d4 = drop_Cons_nth [OF conjunct2 [OF conjunct2 [OF d3]]]
    have nums: "src + 3 = Suc (Suc (Suc src))" "src + 4 = Suc (Suc (Suc (Suc src)))" by simp_all
    have "sq_dequote_loop mem dst src has_next = sq_dequote_loop (mem[dst := c]) (dst + 1) (src + 4) has_next"
      using d1 d2 d3 d4 True Cons.prems(2) by (subst sq_dequote_loop.simps) (simp add: nums)
    then show ?thesis using step [of 4] d4 True by (simp add: sq_char_def [of c] nums)
  next
    case False
    have d: "drop (src + 1) mem = c # ?rest" using Cons.prems(1) False by (simp add: sq_char_def [of c])
    note d1 = drop_Cons_nth [OF d]
    have "c \<noteq> 0x27" using False by (auto simp: need_bs_quote_def)
    then have "sq_dequote_loop mem dst src has_next = sq_dequote_loop (mem[dst := c]) (dst + 1) (src + 1) has_next"
      using d1 c(1) Cons.prems(2) by (subst sq_dequote_loop.simps) simp
    then show ?thesis using step [of 1] d1 False by (simp add: sq_char_def [of c])
  qed
qed

lemma dequote_step_text:
  assumes mem: "drop arg mem = sq_text s @ t # tail" and s: "cstring_ok s" and t: "t = 0 \<or> has_next \<and> t \<noteq> 0x5c"
  obtains mem' where
    "sq_dequote_step mem arg has_next = Inr (mem', Some (if t = 0 then None else Some (arg + length (sq_text s))))"
    "length mem' = length mem" "take (arg + length s + 1) mem' = take arg mem @ s @ [0]"
    "drop (arg + length (sq_text s)) mem' = t # tail"
proof -
  have d: "drop arg mem = 0x27 # concat (map sq_char s) @ 0x27 # t # tail" using mem by (simp add: sq_text_def)
  note d1 = drop_Cons_nth [OF d]
  then have "drop (arg + 1) mem = concat (map sq_char s) @ 0x27 # t # tail" by simp
  from dequote_loop_text [OF this order_refl s t] show thesis
    using d1 that by (auto simp: sq_dequote_step_def sq_text_def)
qed

lemma take_prefix:
  assumes "take m xs = ys @ zs" "length ys \<le> m"
  shows "take (length ys) xs = ys"
proof -
  have "take (length ys) (take m xs) = ys" by (simp add: assms(1))
  then show ?thesis using assms(2) by simp
qed

lemma take_shorter:
  assumes "take m xs = take m ys" "n \<le> m"
  shows "take n xs = take n ys"
proof -
  have "take n (take m xs) = take n (take m ys)" by (simp only: assms(1))
  then show ?thesis using assms(2) by simp
qed

lemma cstr_at_text: "take (i + length s + 1) mem = r @ s @ [0] \<Longrightarrow> length r = i \<Longrightarrow> cstring_ok s \<Longrightarrow> cstr_at mem i = s"
proof -
  assume t: "take (i + length s + 1) mem = r @ s @ [0]" and r: "length r = i" and s: "cstring_ok s"
  have m: "(r @ s @ [0]) @ drop (i + length s + 1) mem = mem"
    using append_take_drop_id [of "i + length s + 1" mem] by (simp only: t)
  have "drop i mem = s @ 0 # drop (i + length s + 1) mem" by (subst m [symmetric]) (simp add: r)
  moreover have "takeWhile (\<lambda>c. c \<noteq> 0) (s @ 0 # u) = s" for u
    using s by (induction s) simp_all
  ultimately show ?thesis by (simp add: cstr_at_def)
qed

lemma length_sq_text: "length s + 2 \<le> length (sq_text s)"
  using length_concat_ge [of sq_char s] by (simp add: sq_text_def sq_char_def)

lemma dequote_argv_text:
  "drop arg mem = sq_text a @ concat (map (\<lambda>a. 0x20 # sq_text a) as) @ 0 # r \<Longrightarrow> list_all cstring_ok (a # as) \<Longrightarrow>
   \<exists>mem' ps. dequote_argv_loop mem arg argv array = Inr (mem', 0, argv @ ps, array @ a # as) \<and>
     length mem' = length mem \<and> take arg mem' = take arg mem \<and> map (cstr_at mem') ps = a # as"
proof (induction as arbitrary: mem arg a argv array)
  case Nil
  have "drop arg mem = sq_text a @ 0 # r" "cstring_ok a" using Nil.prems by simp_all
  then obtain mem' where mem': "sq_dequote_step mem arg True = Inr (mem', Some None)" "length mem' = length mem"
      "take (arg + length a + 1) mem' = take arg mem @ a @ [0]"
    by (rule dequote_step_text [where has_next = True]) auto
  have arg: "arg < length mem" using drop_Cons_nth [of arg mem] Nil.prems(1) by (simp add: sq_text_def)
  then have at: "cstr_at mem' arg = a" using cstr_at_text [OF mem'(3)] \<open>cstring_ok a\<close> by simp
  have "take arg mem' = take arg mem" using take_prefix [OF mem'(3)] arg by simp
  then show ?case using mem' at by (subst dequote_argv_loop.simps) simp
next
  case (Cons b bs)
  let ?p = "arg + length (sq_text a)"
  let ?tail = "sq_text b @ concat (map (\<lambda>a. 0x20 # sq_text a) bs) @ 0 # r"
  have ok: "cstring_ok a" "list_all cstring_ok (b # bs)" using Cons.prems(2) by simp_all
  have "drop arg mem = sq_text a @ 0x20 # ?tail" using Cons.prems(1) by simp
  then obtain mem1 where mem1: "sq_dequote_step mem arg True = Inr (mem1, Some (Some ?p))" "length mem1 = length mem"
      "take (arg + length a + 1) mem1 = take arg mem @ a @ [0]" "drop ?p mem1 = 0x20 # ?tail"
    by (rule dequote_step_text [where has_next = True, OF _ ok(1)]) simp_all
  have arg: "arg < length mem" using drop_Cons_nth [of arg mem] Cons.prems(1) by (simp add: sq_text_def)
  note d1 = drop_Cons_nth [OF mem1(4)]
  have d2: "drop (?p + 1) mem1 = ?tail" using d1 by simp
  have "skip_space mem1 ?p = Inr (?p + 1)"
    using drop_Cons_nth [of "?p + 1" mem1] d2 by (subst skip_space.simps) (simp add: sq_text_def isspace_iff)
  then have unfold: "dequote_argv_loop mem arg argv array =
      dequote_argv_loop mem1 (?p + 1) (argv @ [arg]) (array @ [cstr_at mem1 arg])"
    using mem1(1) d1 by (subst dequote_argv_loop.simps) (simp add: isspace_iff)
  obtain mem' ps where mem': "dequote_argv_loop mem1 (?p + 1) (argv @ [arg]) (array @ [cstr_at mem1 arg]) =
      Inr (mem', 0, (argv @ [arg]) @ ps, (array @ [cstr_at mem1 arg]) @ b # bs)" "length mem' = length mem1"
      "take (?p + 1) mem' = take (?p + 1) mem1" "map (cstr_at mem') ps = b # bs"
    using Cons.IH [OF d2 ok(2), of "argv @ [arg]" "array @ [cstr_at mem1 arg]"]
    by (elim exE conjE) (rule that; assumption)
  have "arg + length a + 1 \<le> ?p + 1" using length_sq_text [of a] by simp
  then have same: "take (arg + length a + 1) mem' = take arg mem @ a @ [0]"
    using take_shorter [OF mem'(3)] mem1(3) by simp
  then have "take arg mem' = take arg mem" using take_prefix [OF same] arg by simp
  moreover have "cstr_at mem1 arg = a" "cstr_at mem' arg = a"
    using cstr_at_text [OF mem1(3)] cstr_at_text [OF same] ok(1) arg by simp_all
  ultimately show ?case using unfold mem' mem1(2) by (intro exI [of _ mem'] exI [of _ "arg # ps"]) simp
qed

subsection \<open>String literals, as lists\<close>

lemma addch_opt_yields:
  "sb_ok sb \<Longrightarrow> yields (rbind (if b then strbuf_addch junk sb x else Inr sb) (\<lambda>sb. strbuf_addch junk sb c))
     (sb_str sb @ (if b then [x] else []) @ [c])"
  by (rule yields_step [OF yields_opt [OF _ strbuf_addch_yields] strbuf_addch_yields]) simp_all

lemma delimited_yields:
  assumes "sb_ok sb" "\<And>sb. sb_ok sb \<Longrightarrow> yields (f sb) (sb_str sb @ s)"
  shows "yields (rbind (strbuf_addch junk sb d) (\<lambda>sb. rbind (f sb) (\<lambda>sb. strbuf_addch junk sb d))) (sb_str sb @ d # s @ [d])"
proof -
  have "yields (rbind (f sb) (\<lambda>sb. strbuf_addch junk sb d)) (sb_str sb @ s @ [d])" if "sb_ok sb" for sb
    by (rule yields_step [OF assms(2) [OF that] strbuf_addch_yields]) simp_all
  then show ?thesis by (rule yields_step [OF strbuf_addch_yields [OF assms(1)]]) simp_all
qed

definition perl_char :: "byte \<Rightarrow> byte list" where
  "perl_char c = (if c = 0x27 \<or> c = 0x5c then [0x5c] else []) @ [c]"

lemma perl_quote_buf_yields:
  assumes "sb_ok sb"
  shows "yields (perl_quote_buf junk sb src) (sb_str sb @ 0x27 # concat (map perl_char src) @ [0x27])"
    "yields (perl_quote_buf_with_len junk sb src) (sb_str sb @ 0x27 # concat (map perl_char src) @ [0x27])"
proof -
  have loop: "yields (perl_quote_loop junk sb src) (sb_str sb @ concat (map perl_char src))" if "sb_ok sb" for sb
    by (rule yields_char_loop [where emit = "\<lambda>sb c. rbind (if c = 0x27 \<or> c = 0x5c then strbuf_addch junk sb 0x5c
          else Inr sb) (\<lambda>sb. strbuf_addch junk sb c)"])
       (use addch_opt_yields that in \<open>simp_all add: rbind_assoc perl_char_def\<close>)
  show "yields (perl_quote_buf junk sb src) (sb_str sb @ 0x27 # concat (map perl_char src) @ [0x27])"
    "yields (perl_quote_buf_with_len junk sb src) (sb_str sb @ 0x27 # concat (map perl_char src) @ [0x27])"
    unfolding perl_quote_buf_def perl_quote_buf_with_len_def by (rule delimited_yields [OF assms loop]; assumption)+
qed

definition python_char :: "byte \<Rightarrow> byte list" where
  "python_char c = (if c = 0x0a then [0x5c, 0x6e] else perl_char c)"

lemma two_chars_yield:
  "sb_ok sb \<Longrightarrow> yields (rbind (strbuf_addch junk sb x) (\<lambda>sb. strbuf_addch junk sb y)) (sb_str sb @ [x, y])"
  using addch_opt_yields [of sb True] by simp

lemma python_quote_buf_yields:
  assumes "sb_ok sb"
  shows "yields (python_quote_buf junk sb src) (sb_str sb @ 0x27 # concat (map python_char src) @ [0x27])"
proof -
  have "yields (python_quote_loop junk sb src) (sb_str sb @ concat (map python_char src))" if "sb_ok sb" for sb
    by (rule yields_char_loop [where emit = "\<lambda>sb c. if c = 0x0a
          then rbind (strbuf_addch junk sb 0x5c) (\<lambda>sb. strbuf_addch junk sb 0x6e)
          else rbind (if c = 0x27 \<or> c = 0x5c then strbuf_addch junk sb 0x5c else Inr sb) (\<lambda>sb. strbuf_addch junk sb c)"])
       (use addch_opt_yields two_chars_yield that in \<open>simp_all add: rbind_assoc perl_char_def python_char_def\<close>)
  then show ?thesis unfolding python_quote_buf_def using assms by (rule delimited_yields [rotated])
qed

definition tcl_escape :: "byte \<Rightarrow> byte list" where
  "tcl_escape c =
     (if c \<in> set [0x5b, 0x5d, 0x7b, 0x7d, 0x24, 0x5c, 0x22] then [0x5c, c]
      else case map_of [(0x0c, 0x66), (0x0d, 0x72), (0x0a, 0x6e), (0x09, 0x74), (0x0b, 0x76)] c of
        Some e \<Rightarrow> [0x5c, e] | None \<Rightarrow> [c])"

lemma tcl_quote_buf_yields:
  assumes "sb_ok sb"
  shows "yields (tcl_quote_buf junk sb src) (sb_str sb @ 0x22 # concat (map tcl_escape src) @ [0x22])"
proof -
  have "yields (tcl_char junk sb c) (sb_str sb @ tcl_escape c)" if "sb_ok sb" for sb c
    using two_chars_yield [OF that] strbuf_addstr_yields [OF that] strbuf_addch_yields [OF that]
    by (simp add: tcl_char_def tcl_escape_def)
  then have "yields (tcl_quote_loop junk sb src) (sb_str sb @ concat (map tcl_escape src))" if "sb_ok sb" for sb
    by (intro yields_char_loop [where emit = "tcl_char junk"]) (use that in simp_all)
  then show ?thesis unfolding tcl_quote_buf_def using assms by (rule delimited_yields [rotated])
qed

subsection \<open>C-style quoting, as lists\<close>

definition cq_char :: "int \<Rightarrow> byte \<Rightarrow> byte list" where
  "cq_char qpf c =
     (if cq_must_quote qpf c then
        0x5c # (if cq_lookup ! unat c \<ge> 0x20 then [of_int (cq_lookup ! unat c)]
                else [(drop_bit 6 c AND 3) + 0x30, (drop_bit 3 c AND 7) + 0x30, (c AND 7) + 0x30])
      else [c])"

text \<open>What an output operation does to all its targets.\<close>

definition cq_ok :: "cq_out \<Rightarrow> bool" where
  "cq_ok out \<longleftrightarrow> (case cq_sb out of None \<Rightarrow> True | Some sb \<Rightarrow> sb_ok sb)"

definition emits :: "cq_out result \<Rightarrow> cq_out \<Rightarrow> byte list \<Rightarrow> bool \<Rightarrow> bool" where
  "emits r out s at_name \<longleftrightarrow>
     (case r of
        Inl e \<Rightarrow> e = Died \<and> (\<exists>sb. cq_sb out = Some sb \<and> 2 ^ 64 \<le> length (sb_str sb @ s) + 65)
      | Inr out' \<Rightarrow> cq_ok out' \<and> cq_count out' = cq_count out + length s \<and>
          cq_fp out' = map_option (\<lambda>f. f @ s) (cq_fp out) \<and>
          map_option sb_str (cq_sb out') = map_option (\<lambda>sb. sb_str sb @ s) (cq_sb out) \<and>
          cq_at_name out' = at_name)"

lemma EMITBUF_emits: "cq_ok out \<Longrightarrow> emits (EMITBUF junk out s) out s (cq_at_name out)"
proof (cases "cq_sb out")
  case (Some sb)
  assume "cq_ok out"
  then have "yields (strbuf_add junk sb s) (sb_str sb @ s)" using Some by (simp add: cq_ok_def strbuf_add_yields)
  then show ?thesis
    using Some by (cases "strbuf_add junk sb s") (auto simp: emits_def EMITBUF_def yields_def cq_ok_def)
qed (auto simp: emits_def EMITBUF_def cq_ok_def)

lemma EMIT_emits: "cq_ok out \<Longrightarrow> emits (EMIT junk out c) out [c] (cq_at_name out)"
proof (cases "cq_sb out")
  case (Some sb)
  assume "cq_ok out"
  then have "yields (strbuf_addch junk sb c) (sb_str sb @ [c])" using Some by (simp add: cq_ok_def strbuf_addch_yields)
  then show ?thesis
    using Some by (cases "strbuf_addch junk sb c") (auto simp: emits_def EMIT_def yields_def cq_ok_def)
qed (auto simp: emits_def EMIT_def cq_ok_def)

lemma emits_step:
  assumes r: "emits r out a n"
    and f: "\<And>out'. cq_ok out' \<Longrightarrow> cq_at_name out' = n \<Longrightarrow> emits (f out') out' b m" and s: "s = a @ b"
  shows "emits (rbind r f) out s m"
proof (cases r)
  case (Inl e)
  then show ?thesis using r s by (auto simp: emits_def)
next
  case (Inr out1)
  then have one: "cq_ok out1" "cq_at_name out1 = n" "cq_count out1 = cq_count out + length a"
      "cq_fp out1 = map_option (\<lambda>f. f @ a) (cq_fp out)"
      "map_option sb_str (cq_sb out1) = map_option (\<lambda>sb. sb_str sb @ a) (cq_sb out)"
    using r by (simp_all add: emits_def)
  have two: "emits (f out1) out1 b m" using f one(1,2) by simp
  show ?thesis
  proof (cases "cq_sb out")
    case None
    then show ?thesis using one two Inr s by (auto simp: emits_def option.map_comp o_def split: sum.splits)
  next
    case (Some sb)
    then obtain sb1 where "cq_sb out1 = Some sb1" "sb_str sb1 = sb_str sb @ a" using one(5) by auto
    then show ?thesis
      using one two Inr s Some by (auto simp: emits_def option.map_comp o_def split: sum.splits)
  qed
qed

lemma emit_escape_emits:
  assumes ok: "cq_ok out" and must: "cq_must_quote qpf c"
  shows "emits (rbind (EMIT junk out 0x5c) (\<lambda>out. emit_escape junk (out\<lparr>cq_at_name := False\<rparr>) c)) out (cq_char qpf c) False"
proof -
  have set_name: "emits r (out\<lparr>cq_at_name := n\<rparr>) s m \<longleftrightarrow> emits r out s m" for r out n s m
    by (cases r) (simp_all add: emits_def)
  have ok': "cq_ok (out\<lparr>cq_at_name := n\<rparr>) \<longleftrightarrow> cq_ok out" for out n by (simp add: cq_ok_def)
  let ?e = "tl (cq_char qpf c)"
  have esc: "emits (emit_escape junk out c) out ?e False" if "cq_ok out" "cq_at_name out = False" for out
  proof (cases "cq_lookup ! unat c \<ge> 0x20")
    case True
    then show ?thesis using EMIT_emits [OF that(1)] that(2) must by (simp add: emit_escape_def cq_char_def)
  next
    case False
    have three: "emits (rbind (EMIT junk out x) (\<lambda>out. rbind (EMIT junk out y) (\<lambda>out. EMIT junk out z))) out [x, y, z] False"
      if "cq_ok out" "cq_at_name out = False" for out x y z
    proof (rule emits_step [OF EMIT_emits [OF that(1)]])
      fix out1
      assume out1: "cq_ok out1" "cq_at_name out1 = cq_at_name out"
      show "emits (rbind (EMIT junk out1 y) (\<lambda>out. EMIT junk out z)) out1 [y, z] False"
        by (rule emits_step [OF EMIT_emits [OF out1(1)]]) (use EMIT_emits out1 that(2) in \<open>force, simp\<close>)
    qed simp
    show ?thesis using three [OF that] False must by (simp add: emit_escape_def cq_char_def)
  qed
  show ?thesis
  proof (rule emits_step [OF EMIT_emits [OF ok]])
    fix out1
    assume "cq_ok out1"
    then show "emits (emit_escape junk (out1\<lparr>cq_at_name := False\<rparr>) c) out1 ?e False"
      using esc [of "out1\<lparr>cq_at_name := False\<rparr>"] by (simp add: set_name ok')
  qed (use must in \<open>simp add: cq_char_def\<close>)
qed

lemma cq_plain: "\<forall>c\<in>set s. \<not> cq_must_quote qpf c \<Longrightarrow> concat (map (cq_char qpf) s) = s"
  by (induction s) (auto simp: cq_char_def)

lemma emits_opt:
  assumes "cq_ok out"
  shows "emits (if b then EMIT junk out c else Inr out) out (if b then [c] else []) (cq_at_name out)"
  using EMIT_emits [OF assms] assms by (auto simp: emits_def map_option_case split: option.splits)

lemma quote_c_loop_emits:
  "cq_ok out \<Longrightarrow> maxlen < 0 \<or> maxlen = int (length p) \<Longrightarrow>
   emits (quote_c_loop junk qpf no_dq p maxlen out) out
     ((if \<not> no_dq \<and> cq_at_name out \<and> list_ex (cq_must_quote qpf) p then [0x22] else []) @ concat (map (cq_char qpf) p))
     (cq_at_name out \<and> \<not> list_ex (cq_must_quote qpf) p)"
proof (induction "length p" arbitrary: p maxlen out rule: less_induct)
  case less
  define a b where "a = takeWhile (\<lambda>c. \<not> cq_must_quote qpf c) p" and "b = dropWhile (\<lambda>c. \<not> cq_must_quote qpf c) p"
  have p: "p = a @ b" "take (length a) p = a" "drop (length a) p = b"
    by (simp_all add: a_def b_def dropWhile_eq_drop [symmetric] takeWhile_eq_take [symmetric])
  have plain: "\<forall>c\<in>set a. \<not> cq_must_quote qpf c" by (auto simp: a_def dest: set_takeWhileD)
  have len: "next_quote_pos qpf p maxlen = length a" using less.prems(2) by (auto simp: next_quote_pos_def a_def)
  show ?case
  proof (cases b)
    case Nil
    have "int (length a) = maxlen \<or> maxlen < 0 \<and> length a = length p" using less.prems(2) Nil p(1) by auto
    then have "quote_c_loop junk qpf no_dq p maxlen out = EMITBUF junk out a"
      by (subst quote_c_loop.simps) (simp only: len Let_def if_True p(2))
    moreover have "\<not> list_ex (cq_must_quote qpf) p" "concat (map (cq_char qpf) p) = a"
      using plain Nil p(1) by (simp_all add: list_ex_iff cq_plain)
    ultimately show ?thesis using EMITBUF_emits [OF less.prems(1)] by simp
  next
    case (Cons ch p')
    have must: "cq_must_quote qpf ch"
      using Cons hd_dropWhile [of "\<lambda>c. \<not> cq_must_quote qpf c" p] by (simp add: b_def)
    have ex: "list_ex (cq_must_quote qpf) p" using p(1) Cons must by simp
    let ?m = "if maxlen \<ge> 0 then maxlen - int (length a + 1) else maxlen"
    let ?e = "concat (map (cq_char qpf) p')"
    have IH: "emits (quote_c_loop junk qpf no_dq p' ?m out') out' ?e False" if "cq_ok out'" "cq_at_name out' = False" for out'
      using less.hyps [of p' out' ?m] that less.prems(2) p(1) Cons by auto
    have stop: "\<not> (int (length a) = maxlen \<or> maxlen < 0 \<and> length a = length p)"
      using less.prems(2) p(1) Cons by auto
    have unfold: "quote_c_loop junk qpf no_dq p maxlen out =
        rbind (if \<not> no_dq \<and> cq_at_name out then EMIT junk out 0x22 else Inr out) (\<lambda>out.
        rbind (EMITBUF junk out a) (\<lambda>out.
        rbind (rbind (EMIT junk out 0x5c) (\<lambda>out. emit_escape junk (out\<lparr>cq_at_name := False\<rparr>) ch)) (\<lambda>out.
          quote_c_loop junk qpf no_dq p' ?m out)))"
      using stop p(2,3) Cons by (subst quote_c_loop.simps) (simp only: len Let_def if_False list.case rbind_assoc)
    have three: "emits (rbind (rbind (EMIT junk out 0x5c) (\<lambda>out. emit_escape junk (out\<lparr>cq_at_name := False\<rparr>) ch)) (\<lambda>out.
          quote_c_loop junk qpf no_dq p' ?m out)) out (cq_char qpf ch @ ?e) False" if "cq_ok out" for out
      by (rule emits_step [OF emit_escape_emits [OF that must]]) (use IH in simp_all)
    have two: "emits (rbind (EMITBUF junk out a) (\<lambda>out.
        rbind (rbind (EMIT junk out 0x5c) (\<lambda>out. emit_escape junk (out\<lparr>cq_at_name := False\<rparr>) ch)) (\<lambda>out.
          quote_c_loop junk qpf no_dq p' ?m out))) out (a @ cq_char qpf ch @ ?e) False" if "cq_ok out" for out
      by (rule emits_step [OF EMITBUF_emits [OF that]]) (use three in simp_all)
    have "concat (map (cq_char qpf) p) = a @ cq_char qpf ch @ ?e" using p(1) Cons plain by (simp add: cq_plain)
    moreover have "emits (quote_c_loop junk qpf no_dq p maxlen out) out
        ((if \<not> no_dq \<and> cq_at_name out then [0x22] else []) @ a @ cq_char qpf ch @ ?e) False"
      unfolding unfold by (rule emits_step [OF emits_opt [OF less.prems(1)] two]) simp_all
    ultimately show ?thesis using ex by simp
  qed
qed

text \<open>What \<^verbatim>\<open>quote_c_style()\<close> writes, and its return value.\<close>

definition cq_text :: "int \<Rightarrow> cstring \<Rightarrow> byte list" where
  "cq_text qpf s =
     (if list_ex (cq_must_quote qpf) s then 0x22 # concat (map (cq_char qpf) s) @ [0x22] else s)"

lemma quote_c_style_sb:
  assumes "sb_ok sb"
  shows "case quote_c_style junk qpf name (Some sb) None 0 of
      Inl e \<Rightarrow> e = Died \<and> 2 ^ 64 \<le> length (sb_str sb @ cq_text qpf name) + 65
    | Inr (n, sb', fp) \<Rightarrow>
        n = (if list_ex (cq_must_quote qpf) name then length (cq_text qpf name) else 0) \<and> fp = None \<and>
        (\<exists>sb1. sb' = Some sb1 \<and> sb_ok sb1 \<and> sb_str sb1 = sb_str sb @ cq_text qpf name)"
proof -
  let ?o = "\<lparr>cq_sb = Some sb, cq_fp = None, cq_count = 0, cq_at_name = True\<rparr>"
  let ?loop = "quote_c_loop junk qpf False name (- 1) ?o"
  have ok: "cq_ok ?o" using assms by (simp add: cq_ok_def)
  have call: "quote_c_style junk qpf name (Some sb) None 0 = rbind ?loop (\<lambda>out.
      if cq_at_name out then Inr (0, cq_sb out, cq_fp out)
      else rbind (EMIT junk out 0x22) (\<lambda>out. Inr (cq_count out, cq_sb out, cq_fp out)))"
    by (simp add: quote_c_style_def quote_c_style_counted_def cong: if_cong)
  show ?thesis
  proof (cases "list_ex (cq_must_quote qpf) name")
    case False
    have "emits ?loop ?o (concat (map (cq_char qpf) name)) True"
      using quote_c_loop_emits [OF ok, of "- 1" name junk qpf False] False by simp
    moreover have "concat (map (cq_char qpf) name) = name" using False by (intro cq_plain) (simp add: list_ex_iff)
    ultimately show ?thesis
      using False unfolding call by (cases ?loop) (auto simp: emits_def cq_ok_def cq_text_def)
  next
    case True
    let ?t = "0x22 # concat (map (cq_char qpf) name)"
    have loop: "emits ?loop ?o ?t False"
      using quote_c_loop_emits [OF ok, of "- 1" name junk qpf False] True by simp
    have "emits (rbind ?loop (\<lambda>out. EMIT junk out 0x22)) ?o (?t @ [0x22]) False"
      by (rule emits_step [OF loop]) (use EMIT_emits in \<open>force, simp\<close>)
    moreover have "quote_c_style junk qpf name (Some sb) None 0 =
        rbind (rbind ?loop (\<lambda>out. EMIT junk out 0x22)) (\<lambda>out. Inr (cq_count out, cq_sb out, cq_fp out))"
      using loop unfolding call by (cases ?loop) (simp_all add: emits_def)
    ultimately show ?thesis
      using True by (cases "rbind ?loop (\<lambda>out. EMIT junk out 0x22)") (auto simp: emits_def cq_ok_def cq_text_def)
  qed
qed

subsection \<open>Unquoting gives the quoted string back\<close>

lemma octal_digit_chr: "octal_digit (chr q) \<Longrightarrow> \<exists>c r. q = c # r"
  by (cases q) (auto simp: octal_digit_def)

lemma unquote_escape_append:
  assumes e: "unquote_escape e = Some (c, [])"
  shows "unquote_escape (e @ r) = Some (c, r)"
proof -
  obtain x e1 where x: "e = x # e1" using e by (cases e) (auto simp: unquote_escape_def)
  show ?thesis
  proof (cases "x \<in> set [0x30, 0x31, 0x32, 0x33]")
    case False
    then show ?thesis using e x by (auto simp: unquote_escape_def Let_def split: if_splits)
  next
    case True
    then have "octal_digit (chr e1)" "octal_digit (chr (tl e1))"
      using e x by (auto simp: unquote_escape_def Let_def split: if_splits)
    then obtain y z e3 where "e = [x, y, z] @ e3" using octal_digit_chr [of e1] octal_digit_chr [of "tl e1"] x by auto
    then show ?thesis using e True by (auto simp: unquote_escape_def Let_def split: if_splits)
  qed
qed

lemma length_cq_lookup: "length cq_lookup = 256"
  by (simp add: cq_lookup_def)

lemma unquote_escape_cq:
  assumes "cq_must_quote qpf c" "qpf \<in> {0, 1}"
  shows "unquote_escape (tl (cq_char qpf c)) = Some (c, [])"
proof -
  have "cq_must_quote 0 c \<longrightarrow> unquote_escape (tl (cq_char 0 c)) = Some (c, [])"
    unfolding cq_must_quote_def cq_char_def by (rule byte_table_allI [OF length_cq_lookup]) code_simp
  moreover have "cq_must_quote 1 c \<longrightarrow> unquote_escape (tl (cq_char 1 c)) = Some (c, [])"
    unfolding cq_must_quote_def cq_char_def by (rule byte_table_allI [OF length_cq_lookup]) code_simp
  ultimately show ?thesis using assms by auto
qed

lemma cq_not_special: "\<not> cq_must_quote qpf c \<Longrightarrow> qpf \<in> {0, 1} \<Longrightarrow> c \<notin> set [0x22, 0x5c]"
  by (auto simp: cq_must_quote_def cq_lookup_def nth_append)

lemma cq_char_quoted: "cq_must_quote qpf c \<Longrightarrow> cq_char qpf c = 0x5c # tl (cq_char qpf c)"
  by (simp add: cq_char_def)

text \<open>What a successful run of the loop does: it appends \<open>s\<close> and stops in front of \<open>rest\<close>.\<close>

definition unquotes :: "(strbuf \<times> cstring option) result \<Rightarrow> strbuf \<Rightarrow> byte list \<Rightarrow> cstring \<Rightarrow> bool" where
  "unquotes r sb s rest \<longleftrightarrow>
     (case r of
        Inl e \<Rightarrow> e = Died \<and> 2 ^ 64 \<le> length (sb_str sb @ s) + 65
      | Inr (sb', q) \<Rightarrow> q = Some rest \<and> sb_ok sb' \<and> sb_str sb' = sb_str sb @ s)"

lemma unquotes_step:
  assumes r: "yields r (sb_str sb @ a)" and f: "\<And>sb'. sb_ok sb' \<Longrightarrow> unquotes (f sb') sb' b rest"
  shows "unquotes (rbind r f) sb (a @ b) rest"
proof (cases r)
  case (Inr sb1)
  then have "sb_ok sb1" "sb_str sb1 = sb_str sb @ a" using r by (simp_all add: yields_Inr)
  then show ?thesis using Inr f [of sb1] by (auto simp: unquotes_def split: sum.splits)
qed (use r in \<open>simp add: yields_def unquotes_def\<close>)

lemma unquote_loop_text:
  assumes qpf: "qpf \<in> {0, 1}"
  shows "sb_ok sb \<Longrightarrow> unquotes (unquote_loop junk sb (concat (map (cq_char qpf) name) @ 0x22 # rest)) sb name rest"
proof (induction "length name" arbitrary: name sb rule: less_induct)
  case less
  define a b where "a = takeWhile (\<lambda>c. \<not> cq_must_quote qpf c) name" and "b = dropWhile (\<lambda>c. \<not> cq_must_quote qpf c) name"
  have name: "name = a @ b" by (simp add: a_def b_def)
  have plain: "\<forall>c\<in>set a. \<not> cq_must_quote qpf c" by (auto simp: a_def dest: set_takeWhileD)
  then have special: "\<forall>c\<in>set a. c \<notin> set [0x22, 0x5c]" using cq_not_special [OF _ qpf] by blast
  have run: "length (takeWhile (\<lambda>c. c \<notin> set [0x22, 0x5c]) (a @ x # q)) = length a" if "x \<in> set [0x22, 0x5c]" for x q
    by (subst takeWhile_stop) (use special that in auto)
  show ?case
  proof (cases b)
    case Nil
    have "unquote_loop junk sb (a @ 0x22 # rest) = rbind (strbuf_add junk sb a) (\<lambda>sb. Inr (sb, Some rest))"
      by (subst unquote_loop.simps) (use run [of "0x22" rest] in \<open>simp add: Let_def\<close>)
    moreover have "unquotes \<dots> sb (a @ []) rest"
      by (rule unquotes_step [OF strbuf_add_yields [OF less.prems]]) (simp add: unquotes_def)
    ultimately show ?thesis using name Nil cq_plain [OF plain] by simp
  next
    case (Cons ch b')
    have must: "cq_must_quote qpf ch"
      using Cons hd_dropWhile [of "\<lambda>c. \<not> cq_must_quote qpf c" name] by (simp add: b_def)
    let ?q = "concat (map (cq_char qpf) b') @ 0x22 # rest"
    let ?e = "tl (cq_char qpf ch)"
    have esc: "unquote_escape (?e @ ?q) = Some (ch, ?q)"
      by (rule unquote_escape_append [OF unquote_escape_cq [OF must qpf]])
    have "unquote_loop junk sb (a @ 0x5c # ?e @ ?q) =
        rbind (rbind (strbuf_add junk sb a) (\<lambda>sb. strbuf_addch junk sb ch)) (\<lambda>sb. unquote_loop junk sb ?q)"
      by (subst unquote_loop.simps) (use run [of "0x5c" "?e @ ?q"] esc in \<open>simp add: Let_def rbind_assoc\<close>)
    moreover have "unquotes \<dots> sb ((a @ [ch]) @ b') rest"
    proof (rule unquotes_step)
      show "yields (rbind (strbuf_add junk sb a) (\<lambda>sb. strbuf_addch junk sb ch)) (sb_str sb @ a @ [ch])"
        by (rule yields_step [OF strbuf_add_yields [OF less.prems] strbuf_addch_yields]) simp_all
    qed (use less.hyps [of b'] name Cons in simp)
    moreover have "concat (map (cq_char qpf) name) @ 0x22 # rest = a @ 0x5c # ?e @ ?q"
      unfolding append_Cons [symmetric, of "0x5c" ?e]
      by (simp only: cq_char_quoted [OF must, symmetric]) (simp add: name Cons cq_plain [OF plain])
    moreover have "(a @ [ch]) @ b' = name" by (simp add: name Cons)
    ultimately show ?thesis by (simp only:)
  qed
qed

text \<open>Every run, on any text: it only appends.\<close>

definition appends :: "(strbuf \<times> 'a) result \<Rightarrow> strbuf \<Rightarrow> nat \<Rightarrow> bool" where
  "appends r sb n \<longleftrightarrow>
     (case r of
        Inl e \<Rightarrow> e = Died \<and> 2 ^ 64 \<le> length (sb_str sb) + n + 65
      | Inr (sb', _) \<Rightarrow> sb_ok sb' \<and> (\<exists>s. sb_str sb' = sb_str sb @ s))"

lemma appends_step:
  assumes r: "yields r (sb_str sb @ a)" and f: "\<And>sb'. sb_ok sb' \<Longrightarrow> appends (f sb') sb' m" and n: "length a + m \<le> n"
  shows "appends (rbind r f) sb n"
proof (cases r)
  case (Inr sb1)
  then have "sb_ok sb1" "sb_str sb1 = sb_str sb @ a" using r by (simp_all add: yields_Inr)
  then show ?thesis using Inr f [of sb1] n by (auto simp: appends_def split: sum.splits)
qed (use r n in \<open>simp add: yields_def appends_def\<close>)

lemma appends_Inr: "sb_ok sb \<Longrightarrow> appends (Inr (sb, x)) sb n"
  by (simp add: appends_def)

lemma unquote_loop_appends: "sb_ok sb \<Longrightarrow> appends (unquote_loop junk sb q) sb (length q)"
proof (induction "length q" arbitrary: q sb rule: less_induct)
  case less
  define a b where "a = takeWhile (\<lambda>c. c \<notin> set [0x22, 0x5c]) q" and "b = dropWhile (\<lambda>c. c \<notin> set [0x22, 0x5c]) q"
  have q: "take (length a) q = a" "drop (length a) q = b" "length q = length a + length b"
    by (simp_all add: a_def b_def dropWhile_eq_drop [symmetric] takeWhile_eq_take [symmetric]
        length_append [symmetric] del: length_append)
  have step: "appends (case b of [] \<Rightarrow> Inr (sb, None) | c # q \<Rightarrow>
      if c = 0x22 then Inr (sb, Some q) else if c \<noteq> 0x5c then Inr (sb, None)
      else (case unquote_escape q of None \<Rightarrow> Inr (sb, None)
            | Some (ch, q) \<Rightarrow> rbind (strbuf_addch junk sb ch) (\<lambda>sb. unquote_loop junk sb q))) sb (length b)"
    if ok: "sb_ok sb" for sb
  proof (cases "\<exists>q1 ch q2. b = 0x5c # q1 \<and> unquote_escape q1 = Some (ch, q2)")
    case True
    then obtain q1 ch q2 where b: "b = 0x5c # q1" and e: "unquote_escape q1 = Some (ch, q2)" by blast
    have len: "length q2 \<le> length q1" using unquote_escape_length [OF e] by simp
    have "appends (rbind (strbuf_addch junk sb ch) (\<lambda>sb. unquote_loop junk sb q2)) sb (length b)"
      by (rule appends_step [OF strbuf_addch_yields [OF ok] less.hyps]) (use len b q(3) in simp_all)
    then show ?thesis using b e by simp
  next
    case False
    then show ?thesis using appends_Inr [OF ok] by (auto split: list.split option.split)
  qed
  show ?case
    by (subst unquote_loop.simps)
       (use appends_step [OF strbuf_add_yields [OF less.prems] step] q in \<open>simp only: a_def [symmetric] Let_def\<close>)
qed

lemma sb_len_init [simp]: "sb_len STRBUF_INIT = 0"
  by (simp add: STRBUF_INIT_def)

lemma unquote_c_style_text:
  assumes ok: "sb_ok sb" and qpf: "qpf \<in> {0, 1}" and len: "length (sb_str sb @ name) + 65 < 2 ^ 64"
    and must: "list_ex (cq_must_quote qpf) name"
  obtains sb' where "unquote_c_style junk sb (cq_text qpf name @ rest) = Inr (0, sb', Some rest)" "sb_ok sb'"
    "sb_str sb' = sb_str sb @ name"
  using unquote_loop_text [OF qpf ok, of junk name rest] len must that
  by (auto simp: unquotes_def unquote_c_style_def cq_text_def split: sum.splits)

lemma length_concat_le:
  assumes "\<And>x. length (f x) \<le> n"
  shows "length (concat (map f s)) \<le> n * length s"
proof (induction s)
  case (Cons x s)
  then show ?case using assms [of x] by simp
qed simp

lemma length_cq_text: "length (cq_text qpf s) \<le> 4 * length s + 2"
  using length_concat_le [of "cq_char qpf" 4 s] by (auto simp: cq_text_def cq_char_def)

lemma length_sq_text_le: "length (sq_text s) \<le> 4 * length s + 2"
  using length_concat_le [of sq_char 4 s] by (simp add: sq_text_def sq_char_def)

lemma length_argv_text: "length (concat (map (\<lambda>a. 0x20 # sq_text a) argv)) \<le> (\<Sum>a\<leftarrow>argv. 4 * length a + 3)"
proof (induction argv)
  case (Cons a argv)
  then show ?case using length_sq_text_le [of a] by simp
qed simp

lemma sq_quote_argv_gives:
  assumes ok: "sb_ok dst" and len: "sb_len dst + (\<Sum>a\<leftarrow>argv. 4 * length a + 3) + 400 < 2 ^ 64"
  shows "gives (sq_quote_argv junk dst argv) (sb_str dst @ concat (map (\<lambda>a. 0x20 # sq_text a) argv))"
  using ok
proof (cases rule: strbuf_grow_cases [where junk = junk and extra = 255])
  case died
  then show ?thesis using len by simp
next
  case (room mem)
  let ?sb = "owned mem (sb_len dst)"
  have "sb_ok ?sb" "sb_str ?sb = sb_str dst" using room by (simp_all add: owned_ok owned_str)
  moreover from this have "yields (sq_quote_argv_loop junk ?sb argv) (sb_str dst @ concat (map (\<lambda>a. 0x20 # sq_text a) argv))"
    using sq_quote_argv_loop_yields [of ?sb junk argv] by simp
  ultimately have "gives (sq_quote_argv_loop junk ?sb argv) (sb_str dst @ concat (map (\<lambda>a. 0x20 # sq_text a) argv))"
    using length_argv_text [of argv] len sb_okD(3) [OF ok] by (intro yields_small) simp_all
  then show ?thesis using room(1) by (simp add: sq_quote_argv_def)
qed

lemma sq_dequote_argv_text:
  assumes ok: "list_all cstring_ok argv" and mem: "mem = pre @ tl (concat (map (\<lambda>a. 0x20 # sq_text a) argv)) @ 0 # post"
  shows "\<exists>mem' ps. sq_dequote_to_argv_internal mem (length pre) = Inr (mem', 0, ps, argv) \<and>
      length mem' = length mem \<and> take (length pre) mem' = pre \<and> map (cstr_at mem') ps = argv"
proof (cases argv)
  case Nil
  then show ?thesis using mem by (simp add: sq_dequote_to_argv_internal_def rd_def)
next
  case (Cons a as)
  then have d: "drop (length pre) mem = sq_text a @ concat (map (\<lambda>a. 0x20 # sq_text a) as) @ 0 # post" using mem by simp
  have "sq_dequote_to_argv_internal mem (length pre) = dequote_argv_loop mem (length pre) [] []"
    using Cons mem by (simp add: sq_dequote_to_argv_internal_def rd_def sq_text_def nth_append)
  then show ?thesis using dequote_argv_text [OF d, of "[]" "[]"] ok Cons mem by auto
qed

text \<open>C35: the arguments \<^verbatim>\<open>sq_quote_argv()\<close> writes, each behind a blank, are read back by both dequoters from any
  place of any block of memory: they succeed, the pointers in \<^verbatim>\<open>argv\<close> lead to the original strings in the
  changed block, \<^verbatim>\<open>array\<close> receives copies of them, and nothing in front of the text is changed.
\<close>

theorem sq_argv_roundtrip:
  assumes ok: "sb_ok dst" "list_all cstring_ok argv" and len: "sb_len dst + (\<Sum>a\<leftarrow>argv. 4 * length a + 3) + 400 < 2 ^ 64"
  shows "\<exists>dst' t. sq_quote_argv junk dst argv = Inr dst' \<and> sb_ok dst' \<and> sb_str dst' = sb_str dst @ t \<and>
    (\<forall>pre post. \<exists>mem' ps.
       sq_dequote_to_argv (pre @ tl t @ 0 # post) (length pre) = Inr (mem', 0, ps) \<and>
       map (cstr_at mem') ps = argv \<and> take (length pre) mem' = pre \<and>
       sq_dequote_to_strvec (pre @ tl t @ 0 # post) (length pre) = Inr (mem', 0, argv))"
proof -
  let ?t = "concat (map (\<lambda>a. 0x20 # sq_text a) argv)"
  obtain dst' where "sq_quote_argv junk dst argv = Inr dst'" "sb_ok dst'" "sb_str dst' = sb_str dst @ ?t"
    by (rule givesE [OF sq_quote_argv_gives [OF ok(1) len]])
  moreover have "\<exists>mem' ps.
       sq_dequote_to_argv (pre @ tl ?t @ 0 # post) (length pre) = Inr (mem', 0, ps) \<and>
       map (cstr_at mem') ps = argv \<and> take (length pre) mem' = pre \<and>
       sq_dequote_to_strvec (pre @ tl ?t @ 0 # post) (length pre) = Inr (mem', 0, argv)" for pre post
    using sq_dequote_argv_text [OF ok(2) refl, of pre post]
    by (auto simp: sq_dequote_to_argv_def sq_dequote_to_strvec_def)
  ultimately show ?thesis by blast
qed

theorem sq_argv_roundtrip_witness:
  "\<exists>dst' t. sq_quote_argv (\<lambda>_. 0) STRBUF_INIT [[0x61, 0x27], [], [0x20, 0x21]] = Inr dst' \<and> sb_ok dst' \<and>
    sb_str dst' = sb_str STRBUF_INIT @ t \<and>
    (\<forall>pre post. \<exists>mem' ps.
       sq_dequote_to_argv (pre @ tl t @ 0 # post) (length pre) = Inr (mem', 0, ps) \<and>
       map (cstr_at mem') ps = [[0x61, 0x27], [], [0x20, 0x21]] \<and> take (length pre) mem' = pre \<and>
       sq_dequote_to_strvec (pre @ tl t @ 0 # post) (length pre) = Inr (mem', 0, [[0x61, 0x27], [], [0x20, 0x21]]))"
  by (rule sq_argv_roundtrip) simp_all

text \<open>C36: a name \<^verbatim>\<open>quote_c_style()\<close> quotes is read back by \<^verbatim>\<open>unquote_c_style()\<close>, which stops right behind
  the closing quote, under either value of \<^verbatim>\<open>quote_path_fully\<close>.  The return value is the number of bytes
  written, and 0 when the name needs no quoting and is copied as it is.
\<close>

theorem c_style_roundtrip:
  assumes "sb_ok sb" "sb_ok dst" "qpf \<in> {0, 1}"
    and "sb_len sb + 4 * length name + 100 < 2 ^ 64" "sb_len dst + length name + 65 < 2 ^ 64"
  shows "\<exists>n sb' t. quote_c_style junk qpf name (Some sb) None 0 = Inr (n, Some sb', None) \<and>
    sb_ok sb' \<and> sb_str sb' = sb_str sb @ t \<and>
    (if list_ex (cq_must_quote qpf) name then
       n = length t \<and> (\<forall>rest. \<exists>dst'. unquote_c_style junk dst (t @ rest) = Inr (0, dst', Some rest) \<and>
         sb_ok dst' \<and> sb_str dst' = sb_str dst @ name)
     else n = 0 \<and> t = name)"
proof -
  let ?n = "if list_ex (cq_must_quote qpf) name then length (cq_text qpf name) else 0"
  obtain sb' where "quote_c_style junk qpf name (Some sb) None 0 = Inr (?n, Some sb', None)" "sb_ok sb'"
      "sb_str sb' = sb_str sb @ cq_text qpf name"
    using quote_c_style_sb [OF assms(1), where junk = junk and qpf = qpf and name = name] assms(4)
      length_cq_text [of qpf name] sb_okD(3) [OF assms(1)]
    by (auto split: sum.splits)
  moreover have "\<exists>dst'. unquote_c_style junk dst (cq_text qpf name @ rest) = Inr (0, dst', Some rest) \<and>
         sb_ok dst' \<and> sb_str dst' = sb_str dst @ name" if "list_ex (cq_must_quote qpf) name" for rest
    by (rule unquote_c_style_text [OF assms(2,3) _ that]) (use assms(5) sb_okD(3) [OF assms(2)] in auto)
  moreover have "cq_text qpf name = name" if "\<not> list_ex (cq_must_quote qpf) name" using that by (simp add: cq_text_def)
  ultimately show ?thesis by (intro exI [of _ ?n] exI [of _ sb'] exI [of _ "cq_text qpf name"]) simp
qed

theorem c_style_roundtrip_witness:
  "\<exists>n sb' t. quote_c_style (\<lambda>_. 0) 1 [0x61, 0x22, 0xe3] (Some STRBUF_INIT) None 0 = Inr (n, Some sb', None) \<and>
    sb_ok sb' \<and> sb_str sb' = sb_str STRBUF_INIT @ t \<and>
    (if list_ex (cq_must_quote 1) [0x61, 0x22, 0xe3] then
       n = length t \<and> (\<forall>rest. \<exists>dst'. unquote_c_style (\<lambda>_. 0) STRBUF_INIT (t @ rest) = Inr (0, dst', Some rest) \<and>
         sb_ok dst' \<and> sb_str dst' = sb_str STRBUF_INIT @ [0x61, 0x22, 0xe3])
     else n = 0 \<and> t = [0x61, 0x22, 0xe3])"
  by (rule c_style_roundtrip) simp_all

lemma tl_suffix: "\<exists>p. q = p @ tl q"
  by (cases q) (auto intro: exI [of _ "[]"] exI [of _ "[_]"])

lemma unquote_escape_suffix: "unquote_escape q = Some (ch, q') \<Longrightarrow> \<exists>p. q = p @ q'"
  using tl_suffix [of q] tl_suffix [of "tl q"] tl_suffix [of "tl (tl q)"]
  by (auto simp: unquote_escape_def Let_def split: if_splits)

lemma unquote_loop_end:
  "unquote_loop junk sb q = Inr (sb', Some rest) \<Longrightarrow> \<exists>p. q = p @ 0x22 # rest"
proof (induction "length q" arbitrary: q sb rule: less_induct)
  case less
  define a b where "a = takeWhile (\<lambda>c. c \<notin> set [0x22, 0x5c]) q" and "b = dropWhile (\<lambda>c. c \<notin> set [0x22, 0x5c]) q"
  have q: "q = a @ b" "take (length a) q = a" "drop (length a) q = b"
    by (simp_all add: a_def b_def dropWhile_eq_drop [symmetric] takeWhile_eq_take [symmetric])
  obtain sb1 where "(case b of [] \<Rightarrow> Inr (sb1, None) | c # q \<Rightarrow>
      if c = 0x22 then Inr (sb1, Some q) else if c \<noteq> 0x5c then Inr (sb1, None)
      else (case unquote_escape q of None \<Rightarrow> Inr (sb1, None)
            | Some (ch, q) \<Rightarrow> rbind (strbuf_addch junk sb1 ch) (\<lambda>sb. unquote_loop junk sb q))) = Inr (sb', Some rest)"
    using less.prems q(2,3)
    by (subst (asm) unquote_loop.simps) (auto simp only: a_def [symmetric] Let_def rbind_eq_Inr)
  then consider "b = 0x22 # rest" | q1 ch q2 sb2 where "b = 0x5c # q1" "unquote_escape q1 = Some (ch, q2)"
      "unquote_loop junk sb2 q2 = Inr (sb', Some rest)"
    by (auto simp: rbind_eq_Inr split: list.splits if_splits option.splits)
  then show ?case
  proof cases
    case 1
    then show ?thesis using q(1) by blast
  next
    case 2
    have "length q2 < length q" using unquote_escape_length [OF 2(2)] 2(1) q(1) by simp
    then obtain p where "q2 = p @ 0x22 # rest" using less.hyps 2(3) by blast
    moreover obtain p1 where "q1 = p1 @ q2" using unquote_escape_suffix [OF 2(2)] by blast
    ultimately have "q = (a @ 0x5c # p1 @ p) @ 0x22 # rest" using q(1) 2(1) by simp
    then show ?thesis by blast
  qed
qed

text \<open>C37: on any text, \<^verbatim>\<open>unquote_c_style()\<close> either succeeds and has appended to the buffer, or returns -1 and the
  buffer has the string it had before, however much was appended until the error was met.
\<close>

theorem unquote_c_style_outcomes:
  assumes ok: "sb_ok sb" and len: "sb_len sb + length quoted + 65 < 2 ^ 64"
  shows "\<exists>ret sb' endp. unquote_c_style junk sb quoted = Inr (ret, sb', endp) \<and> sb_ok sb' \<and>
    (case endp of
       Some rest \<Rightarrow> ret = 0 \<and> (\<exists>s. sb_str sb' = sb_str sb @ s) \<and> (\<exists>p. quoted = 0x22 # p @ 0x22 # rest)
     | None \<Rightarrow> ret = - 1 \<and> sb_str sb' = sb_str sb)"
proof (cases "chr quoted = 0x22")
  case False
  then show ?thesis using ok by (simp add: unquote_c_style_def)
next
  case True
  then obtain q where q: "quoted = 0x22 # q" by (cases quoted) auto
  obtain sb1 r s where run: "unquote_loop junk sb q = Inr (sb1, r)" "sb_ok sb1" "sb_str sb1 = sb_str sb @ s"
    using unquote_loop_appends [OF ok, of junk q] len q sb_okD(3) [OF ok] by (auto simp: appends_def split: sum.splits)
  show ?thesis
  proof (cases r)
    case (Some rest)
    then show ?thesis using run q unquote_loop_end [of junk sb q sb1 rest] by (auto simp: unquote_c_style_def)
  next
    case None
    have old: "sb_len sb \<le> sb_len sb1" "take (sb_len sb) (sb_str sb1) = sb_str sb"
      using sb_okD(3) [OF ok] sb_okD(3) [OF run(2)] run(3) by simp_all
    obtain sb2 where "strbuf_setlen sb1 (sb_len sb) = Inr sb2" "sb_ok sb2" "sb_str sb2 = sb_str sb"
      using strbuf_setlen_gives [OF run(2) old(1)] unfolding old(2) by (rule givesE)
    then show ?thesis using run(1) None q by (simp add: unquote_c_style_def)
  qed
qed

theorem unquote_c_style_outcomes_witness:
  "\<exists>ret sb' endp. unquote_c_style (\<lambda>_. 0) STRBUF_INIT [0x22, 0x61, 0x5c, 0x39] = Inr (ret, sb', endp) \<and> sb_ok sb' \<and>
    (case endp of
       Some rest \<Rightarrow> ret = 0 \<and> (\<exists>s. sb_str sb' = sb_str STRBUF_INIT @ s) \<and>
         (\<exists>p. [0x22, 0x61, 0x5c, 0x39] = 0x22 # p @ 0x22 # rest)
     | None \<Rightarrow> ret = - 1 \<and> sb_str sb' = sb_str STRBUF_INIT)"
  by (rule unquote_c_style_outcomes) simp_all

end
