(* ===== verification/Git_String_List.thy ===== *)
theory Git_String_List
  imports Git_Strbuf_Text Git_Prio_Queue
begin

unbundle bit_operations_syntax

section \<open>Lists of strings: string-list.c\<close>

text \<open>
  The first \<^verbatim>\<open>nr\<close> elements of the array \<^verbatim>\<open>items\<close> are a list; an item is the text of its string and its
  \<^verbatim>\<open>util\<close> pointer, of a type of the client's.  \<^verbatim>\<open>strdup_strings\<close> decides who owns the text, and whether
  splitting is allowed.  Functions that return a pointer to an item return its index.

  The comparison function is an interface: the locale \<open>string_cmp\<close> is the contract \<open>compare_fn\<close> for
  strings, in which the operations on sorted lists are shown to be those of a set; \<^verbatim>\<open>strcmp()\<close> is its
  interpretation.  Sorting is the merge sort of \<^verbatim>\<open>compat/qsort_s.c\<close>.
\<close>

record 'u string_list_item =
  si_string :: cstring
  si_util :: "'u option"

record 'u string_list =
  sl_items :: "'u string_list_item list"
  sl_strdup :: bool
  sl_cmp :: "(cstring \<Rightarrow> cstring \<Rightarrow> int) option"

definition STRING_LIST_INIT_NODUP :: "'u string_list" where
  "STRING_LIST_INIT_NODUP = \<lparr>sl_items = [], sl_strdup = False, sl_cmp = None\<rparr>"

definition STRING_LIST_INIT_DUP :: "'u string_list" where
  "STRING_LIST_INIT_DUP = \<lparr>sl_items = [], sl_strdup = True, sl_cmp = None\<rparr>"

definition string_list_init_nodup :: "'u string_list" where
  "string_list_init_nodup = STRING_LIST_INIT_NODUP"

definition string_list_init_dup :: "'u string_list" where
  "string_list_init_dup = STRING_LIST_INIT_DUP"

text \<open>\<^verbatim>\<open>strcmp()\<close> up to the size of its result, and \<^verbatim>\<open>list->cmp ? list->cmp : strcmp\<close>.\<close>

fun strcmp :: "cstring \<Rightarrow> cstring \<Rightarrow> int" where
  "strcmp [] [] = 0"
| "strcmp [] (y # t) = - 1"
| "strcmp (x # s) [] = 1"
| "strcmp (x # s) (y # t) = (if x < y then - 1 else if y < x then 1 else strcmp s t)"

definition sl_compare :: "'u string_list \<Rightarrow> cstring \<Rightarrow> cstring \<Rightarrow> int" where
  "sl_compare list = (case sl_cmp list of Some cmp \<Rightarrow> cmp | None \<Rightarrow> strcmp)"

subsection \<open>Sorted lists\<close>

function get_entry_loop ::
  "(cstring \<Rightarrow> cstring \<Rightarrow> int) \<Rightarrow> 'u string_list_item list \<Rightarrow> cstring \<Rightarrow> nat \<Rightarrow> nat \<Rightarrow> (nat \<times> bool) result" where
  "get_entry_loop cmp items string left right =
     (if left < right then
        let middle = left + (right - left) div 2 in
        rbind (rd items middle) (\<lambda>item.
          let compare = cmp string (si_string item) in
          if compare < 0 then get_entry_loop cmp items string left middle
          else if compare > 0 then get_entry_loop cmp items string (middle + 1) right
          else Inr (middle, True))
      else Inr (right, False))"
  by auto
termination by (relation "measure (\<lambda>(_, _, _, left, right). right - left)") auto

declare get_entry_loop.simps [simp del]

definition get_entry_index :: "'u string_list \<Rightarrow> cstring \<Rightarrow> (nat \<times> bool) result" where
  "get_entry_index list string = get_entry_loop (sl_compare list) (sl_items list) string 0 (length (sl_items list))"

text \<open>\<^verbatim>\<open>MOVE_ARRAY()\<close> makes room for the new item.\<close>

definition add_entry :: "'u string_list \<Rightarrow> cstring \<Rightarrow> ('u string_list \<times> nat) result" where
  "add_entry list string =
     rbind (get_entry_index list string) (\<lambda>(index, exact_match).
       if exact_match then Inr (list, index)
       else Inr (list\<lparr>sl_items := take index (sl_items list) @ \<lparr>si_string = string, si_util = None\<rparr> #
                        drop index (sl_items list)\<rparr>, index))"

definition string_list_insert :: "'u string_list \<Rightarrow> cstring \<Rightarrow> ('u string_list \<times> nat) result" where
  "string_list_insert list string = add_entry list string"

text \<open>The index is kept in an \<^verbatim>\<open>int\<close>.\<close>

definition string_list_remove :: "'u string_list \<Rightarrow> cstring \<Rightarrow> 'u string_list result" where
  "string_list_remove list string =
     rbind (get_entry_index list string) (\<lambda>(index, exact_match).
       if exact_match then
         let i = sint (word_of_nat index :: u32) in
         if i < 0 then Inl Oob
         else Inr (list\<lparr>sl_items := take (nat i) (sl_items list) @ drop (nat i + 1) (sl_items list)\<rparr>)
       else Inr list)"

definition string_list_has_string :: "'u string_list \<Rightarrow> cstring \<Rightarrow> bool result" where
  "string_list_has_string list string = rbind (get_entry_index list string) (\<lambda>(_, exact_match). Inr exact_match)"

definition string_list_find_insert_index :: "'u string_list \<Rightarrow> cstring \<Rightarrow> (nat \<times> bool) result" where
  "string_list_find_insert_index list string = get_entry_index list string"

definition string_list_lookup :: "'u string_list \<Rightarrow> cstring \<Rightarrow> nat option result" where
  "string_list_lookup list string =
     rbind (get_entry_index list string) (\<lambda>(i, exact_match). Inr (if \<not> exact_match then None else Some i))"

function duplicates_loop ::
  "(cstring \<Rightarrow> cstring \<Rightarrow> int) \<Rightarrow> 'u string_list_item list \<Rightarrow> nat \<Rightarrow> nat \<Rightarrow> ('u string_list_item list \<times> nat) result" where
  "duplicates_loop cmp items dst src =
     (if src < length items then
        rbind (rd items (dst - 1)) (\<lambda>one.
        rbind (rd items src) (\<lambda>two.
          if cmp (si_string one) (si_string two) = 0 then duplicates_loop cmp items dst (src + 1)
          else rbind (wr items dst two) (\<lambda>items. duplicates_loop cmp items (dst + 1) (src + 1))))
      else Inr (items, dst))"
  by auto
termination by (relation "measure (\<lambda>(_, items, _, src). length items - src)") (auto dest!: wr_length)

declare duplicates_loop.simps [simp del]

definition string_list_remove_duplicates :: "'u string_list \<Rightarrow> 'u string_list result" where
  "string_list_remove_duplicates list =
     (if length (sl_items list) > 1 then
        rbind (duplicates_loop (sl_compare list) (sl_items list) 1 1) (\<lambda>(items, dst).
          Inr (list\<lparr>sl_items := take dst items\<rparr>))
      else Inr list)"

subsection \<open>Any lists\<close>

text \<open>A callback returns an \<^verbatim>\<open>int\<close>, the item, which it may change, and its data.\<close>

type_synonym ('u, 's) each_func = "'u string_list_item \<Rightarrow> 's \<Rightarrow> int \<times> 'u string_list_item \<times> 's"

fun for_each_loop :: "('u, 's) each_func \<Rightarrow> 'u string_list_item list \<Rightarrow> 's \<Rightarrow> int \<times> 'u string_list_item list \<times> 's" where
  "for_each_loop fn [] cb_data = (0, [], cb_data)"
| "for_each_loop fn (item # items) cb_data =
     (case fn item cb_data of (ret, item, cb_data) \<Rightarrow>
        if ret \<noteq> 0 then (ret, item # items, cb_data)
        else case for_each_loop fn items cb_data of (ret, items, cb_data) \<Rightarrow> (ret, item # items, cb_data))"

definition for_each_string_list :: "'u string_list \<Rightarrow> ('u, 's) each_func \<Rightarrow> 's \<Rightarrow> int \<times> 'u string_list \<times> 's" where
  "for_each_string_list list fn cb_data =
     (case for_each_loop fn (sl_items list) cb_data of (ret, items, cb_data) \<Rightarrow> (ret, list\<lparr>sl_items := items\<rparr>, cb_data))"

function filter_loop ::
  "('u, 's) each_func \<Rightarrow> 'u string_list_item list \<Rightarrow> nat \<Rightarrow> nat \<Rightarrow> 's \<Rightarrow> ('u string_list_item list \<times> nat \<times> 's) result" where
  "filter_loop want items dst src cb_data =
     (if src < length items then
        case want (items ! src) cb_data of (ret, item, cb_data) \<Rightarrow>
          let items = items[src := item] in
          if ret \<noteq> 0 then
            if dst < length items then filter_loop want (items[dst := items ! src]) (dst + 1) (src + 1) cb_data
            else Inl Oob
          else filter_loop want items dst (src + 1) cb_data
      else Inr (items, dst, cb_data))"
  by auto
termination by (relation "measure (\<lambda>(_, items, _, src, _). length items - src)") auto

declare filter_loop.simps [simp del]

definition filter_string_list ::
  "'u string_list \<Rightarrow> ('u, 's) each_func \<Rightarrow> 's \<Rightarrow> ('u string_list \<times> 's) result" where
  "filter_string_list list want cb_data =
     rbind (filter_loop want (sl_items list) 0 0 cb_data) (\<lambda>(items, dst, cb_data).
       Inr (list\<lparr>sl_items := take dst items\<rparr>, cb_data))"

definition item_is_not_empty :: "('u, unit) each_func" where
  "item_is_not_empty item data = (if chr (si_string item) \<noteq> 0 then 1 else 0, item, data)"

definition string_list_remove_empty_items :: "'u string_list \<Rightarrow> 'u string_list result" where
  "string_list_remove_empty_items list =
     rbind (filter_string_list list item_is_not_empty ()) (\<lambda>(list, _). Inr list)"

definition string_list_clear :: "'u string_list \<Rightarrow> 'u string_list" where
  "string_list_clear list = list\<lparr>sl_items := []\<rparr>"

text \<open>\<open>clearfunc\<close> acts on a state of the client's.\<close>

definition string_list_clear_func ::
  "'u string_list \<Rightarrow> ('u option \<Rightarrow> cstring \<Rightarrow> 's \<Rightarrow> 's) option \<Rightarrow> 's \<Rightarrow> 'u string_list \<times> 's" where
  "string_list_clear_func list clearfunc s =
     (list\<lparr>sl_items := []\<rparr>,
      case clearfunc of None \<Rightarrow> s | Some f \<Rightarrow> fold (\<lambda>item. f (si_util item) (si_string item)) (sl_items list) s)"

definition string_list_setlen :: "'u string_list \<Rightarrow> nat \<Rightarrow> 'u string_list result" where
  "string_list_setlen list nr =
     (if sl_strdup list then Inl Bug_called
      else if nr > length (sl_items list) then Inl Bug_called
      else Inr (list\<lparr>sl_items := take nr (sl_items list)\<rparr>))"

definition string_list_append_nodup :: "'u string_list \<Rightarrow> cstring \<Rightarrow> 'u string_list \<times> nat" where
  "string_list_append_nodup list string =
     (list\<lparr>sl_items := sl_items list @ [\<lparr>si_string = string, si_util = None\<rparr>]\<rparr>, length (sl_items list))"

definition string_list_append :: "'u string_list \<Rightarrow> cstring \<Rightarrow> 'u string_list \<times> nat" where
  "string_list_append list string = string_list_append_nodup list string"

fun unsorted_loop :: "(cstring \<Rightarrow> cstring \<Rightarrow> int) \<Rightarrow> cstring \<Rightarrow> 'u string_list_item list \<Rightarrow> nat \<Rightarrow> nat option" where
  "unsorted_loop cmp string [] i = None"
| "unsorted_loop cmp string (item # items) i =
     (if cmp string (si_string item) = 0 then Some i else unsorted_loop cmp string items (i + 1))"

definition unsorted_string_list_lookup :: "'u string_list \<Rightarrow> cstring \<Rightarrow> nat option" where
  "unsorted_string_list_lookup list string = unsorted_loop (sl_compare list) string (sl_items list) 0"

definition unsorted_string_list_has_string :: "'u string_list \<Rightarrow> cstring \<Rightarrow> bool" where
  "unsorted_string_list_has_string list string \<longleftrightarrow> unsorted_string_list_lookup list string \<noteq> None"

definition unsorted_string_list_delete_item :: "'u string_list \<Rightarrow> nat \<Rightarrow> 'u string_list result" where
  "unsorted_string_list_delete_item list i =
     rbind (rd (sl_items list) i) (\<lambda>_.
       let last = sl_items list ! (length (sl_items list) - 1) in
       Inr (list\<lparr>sl_items := butlast ((sl_items list)[i := last])\<rparr>))"

subsection \<open>Merge sort: compat/qsort\_s.c\<close>

text \<open>
  The loop that merges two runs into the temporary array of \<open>cap\<close> elements: what has been written, and
  what is left of the runs.
\<close>

function merge_loop :: "('a \<Rightarrow> 'a \<Rightarrow> int) \<Rightarrow> nat \<Rightarrow> 'a list \<Rightarrow> 'a list \<Rightarrow> 'a list \<Rightarrow> ('a list \<times> 'a list \<times> 'a list) result" where
  "merge_loop cmp cap tmp b1 b2 =
     (case (b1, b2) of
        (x # b1', y # b2') \<Rightarrow>
          if cmp x y \<le> 0 then rbind (push_cap cap tmp [x]) (\<lambda>tmp. merge_loop cmp cap tmp b1' b2)
          else rbind (push_cap cap tmp [y]) (\<lambda>tmp. merge_loop cmp cap tmp b1 b2')
      | _ \<Rightarrow> Inr (tmp, b1, b2))"
  by pat_completeness auto
termination by (relation "measure (\<lambda>(_, _, _, b1, b2). length b1 + length b2)") auto

declare merge_loop.simps [simp del]

text \<open>\<open>b\<close> is the part of the array that is sorted.  What is left of the second run is in its place already.\<close>

function msort_with_tmp :: "('a \<Rightarrow> 'a \<Rightarrow> int) \<Rightarrow> nat \<Rightarrow> 'a list \<Rightarrow> 'a list result" where
  "msort_with_tmp cmp cap b =
     (if length b \<le> 1 then Inr b
      else
        let n = length b; n1 = n div 2 in
        rbind (msort_with_tmp cmp cap (take n1 b)) (\<lambda>b1.
        rbind (msort_with_tmp cmp cap (drop n1 b)) (\<lambda>b2.
        rbind (merge_loop cmp cap [] b1 b2) (\<lambda>(tmp, b1, b2).
        rbind (if b1 \<noteq> [] then push_cap cap tmp b1 else Inr tmp) (\<lambda>tmp.
        rbind (slice tmp 0 (n - length b2)) (\<lambda>t. Inr (t @ b2)))))))"
  by auto
termination by (relation "measure (\<lambda>(_, _, b). length b)") auto

declare msort_with_tmp.simps [simp del]

text \<open>The return value and the array; \<open>s\<close> is the size of an element.\<close>

definition git_qsort_s :: "nat \<Rightarrow> ('a \<Rightarrow> 'a \<Rightarrow> int) option \<Rightarrow> 'a list \<Rightarrow> (int \<times> 'a list) result" where
  "git_qsort_s s cmp b =
     (if size_mult_overflows (length b) s then Inl Died
      else if b = [] then Inr (0, b)
      else case cmp of
        None \<Rightarrow> Inr (- 1, b)
      | Some cmp \<Rightarrow> rbind (msort_with_tmp cmp (length b) b) (\<lambda>b. Inr (0, b)))"

definition QSORT_S :: "nat \<Rightarrow> ('a \<Rightarrow> 'a \<Rightarrow> int) \<Rightarrow> 'a list \<Rightarrow> 'a list result" where
  "QSORT_S s compar base =
     rbind (git_qsort_s s (Some compar) base) (\<lambda>(ret, base). if ret \<noteq> 0 then Inl Bug_called else Inr base)"

definition cmp_items :: "(cstring \<Rightarrow> cstring \<Rightarrow> int) \<Rightarrow> 'u string_list_item \<Rightarrow> 'u string_list_item \<Rightarrow> int" where
  "cmp_items cmp one two = cmp (si_string one) (si_string two)"

text \<open>An item is two pointers: 16 bytes.\<close>

definition string_list_sort :: "'u string_list \<Rightarrow> 'u string_list result" where
  "string_list_sort list =
     rbind (QSORT_S 16 (cmp_items (sl_compare list)) (sl_items list)) (\<lambda>items. Inr (list\<lparr>sl_items := items\<rparr>))"

subsection \<open>Splitting\<close>

definition STRING_LIST_SPLIT_TRIM :: u32 where "STRING_LIST_SPLIT_TRIM = 1"
definition STRING_LIST_SPLIT_NONEMPTY :: u32 where "STRING_LIST_SPLIT_NONEMPTY = 2"

fun rtrim_loop :: "byte list \<Rightarrow> nat \<Rightarrow> nat \<Rightarrow> nat result" where
  "rtrim_loop mem p 0 = Inr 0"
| "rtrim_loop mem p (Suc e) =
     (if p < Suc e then rbind (rd mem e) (\<lambda>c. if \<not> isspace c then Inr (Suc e) else rtrim_loop mem p e)
      else Inr (Suc e))"

text \<open>
  \<open>mem\<close> is the block of the string, \<open>p\<close> and \<open>endp\<close> are positions in it.  Splitting in place changes the
  block, and its items are pointers into it: \<open>refs\<close> are their positions, in the order of the items, and
  their texts are read when the whole string is split (\<open>append_refs\<close>), so that every write that was made
  into the block shows in them.
\<close>

definition append_one ::
  "'u string_list \<Rightarrow> nat list \<Rightarrow> byte list \<Rightarrow> nat \<Rightarrow> nat option \<Rightarrow> bool \<Rightarrow> u32 \<Rightarrow>
   ('u string_list \<times> nat list \<times> byte list \<times> int) result" where
  "append_one list refs mem p endp in_place flags =
     (let e = (case endp of None \<Rightarrow> p + length (cstr_at mem p) | Some e \<Rightarrow> e) in
      rbind (if flags AND STRING_LIST_SPLIT_TRIM \<noteq> 0 then rtrim_loop mem p e else Inr e) (\<lambda>e.
        if flags AND STRING_LIST_SPLIT_NONEMPTY \<noteq> 0 \<and> e \<le> p then Inr (list, refs, mem, 0)
        else if in_place then rbind (wr mem e 0) (\<lambda>mem. Inr (list, refs @ [p], mem, 1))
        else
          rbind (slice mem p (e - p)) (\<lambda>s. Inr (fst (string_list_append_nodup list s), refs, mem, 1))))"

definition append_refs :: "'u string_list \<Rightarrow> byte list \<Rightarrow> nat list \<Rightarrow> 'u string_list" where
  "append_refs list mem refs = foldl (\<lambda>list p. fst (string_list_append list (cstr_at mem p))) list refs"

definition strpbrk :: "byte list \<Rightarrow> nat \<Rightarrow> cstring \<Rightarrow> nat option" where
  "strpbrk mem p delim =
     (let s = cstr_at mem p; n = length (takeWhile (\<lambda>c. c \<notin> set delim) s) in
      if n < length s then Some (p + n) else None)"

lemma append_one_length:
  "append_one list refs mem p endp in_place flags = Inr (list', refs', mem', n) \<Longrightarrow> length mem' = length mem"
  by (auto simp: append_one_def Let_def rbind_eq_Inr wr_def split: if_splits)

lemma strpbrk_bound: "strpbrk mem p delim = Some e \<Longrightarrow> p \<le> e \<and> e < length mem"
proof -
  assume a: "strpbrk mem p delim = Some e"
  have "length (cstr_at mem p) \<le> length mem - p"
    using length_takeWhile_le [of "\<lambda>c. c \<noteq> 0" "drop p mem"] by (simp add: cstr_at_def)
  then show ?thesis using a by (auto simp: strpbrk_def Let_def split: if_splits)
qed

function split_loop ::
  "'u string_list \<Rightarrow> nat list \<Rightarrow> byte list \<Rightarrow> nat \<Rightarrow> cstring \<Rightarrow> int \<Rightarrow> bool \<Rightarrow> u32 \<Rightarrow> int \<Rightarrow>
   ('u string_list \<times> nat list \<times> byte list \<times> int) result" where
  "split_loop list refs mem p delim maxsplit in_place flags cnt =
     (let p = (if flags AND STRING_LIST_SPLIT_TRIM \<noteq> 0 then p + length (takeWhile isspace (cstr_at mem p)) else p);
          endp = (if 0 \<le> maxsplit \<and> maxsplit \<le> cnt then None else strpbrk mem p delim) in
      rbind (append_one list refs mem p endp in_place flags) (\<lambda>(list, refs, mem, n).
      rbind (int_val (cnt + n)) (\<lambda>cnt.
        case endp of
          None \<Rightarrow> Inr (list, refs, mem, cnt)
        | Some e \<Rightarrow> split_loop list refs mem (e + 1) delim maxsplit in_place flags cnt)))"
  by auto
termination
proof (relation "measure (\<lambda>(_, _, mem, p, _). length mem - p)", goal_cases)
  case (2 list refs mem p delim maxsplit in_place flags cnt p' endp r list' y refs' z mem' n cnt' e)
  then have "p \<le> p'" "p' \<le> e" "e < length mem" "length mem' = length mem"
    using strpbrk_bound [of mem p' delim e] append_one_length [of list refs mem p' endp in_place flags list' refs' mem' n]
    by (auto split: if_splits)
  then show ?case by simp
qed simp

declare split_loop.simps [simp del]

definition split_string ::
  "'u string_list \<Rightarrow> byte list \<Rightarrow> nat \<Rightarrow> cstring \<Rightarrow> int \<Rightarrow> bool \<Rightarrow> u32 \<Rightarrow> ('u string_list \<times> byte list \<times> int) result" where
  "split_string list mem string delim maxsplit in_place flags =
     (if in_place \<and> sl_strdup list then Inl Bug_called
      else if \<not> in_place \<and> \<not> sl_strdup list then Inl Bug_called
      else
        rbind (split_loop list [] mem string delim maxsplit in_place flags 0) (\<lambda>(list, refs, mem, cnt).
          Inr (append_refs list mem refs, mem, cnt)))"

definition string_list_split ::
  "'u string_list \<Rightarrow> byte list \<Rightarrow> nat \<Rightarrow> cstring \<Rightarrow> int \<Rightarrow> ('u string_list \<times> byte list \<times> int) result" where
  "string_list_split list mem string delim maxsplit = split_string list mem string delim maxsplit False 0"

definition string_list_split_in_place ::
  "'u string_list \<Rightarrow> byte list \<Rightarrow> nat \<Rightarrow> cstring \<Rightarrow> int \<Rightarrow> ('u string_list \<times> byte list \<times> int) result" where
  "string_list_split_in_place list mem string delim maxsplit = split_string list mem string delim maxsplit True 0"

definition string_list_split_f ::
  "'u string_list \<Rightarrow> byte list \<Rightarrow> nat \<Rightarrow> cstring \<Rightarrow> int \<Rightarrow> u32 \<Rightarrow> ('u string_list \<times> byte list \<times> int) result" where
  "string_list_split_f list mem string delim maxsplit flags = split_string list mem string delim maxsplit False flags"

definition string_list_split_in_place_f ::
  "'u string_list \<Rightarrow> byte list \<Rightarrow> nat \<Rightarrow> cstring \<Rightarrow> int \<Rightarrow> u32 \<Rightarrow> ('u string_list \<times> byte list \<times> int) result" where
  "string_list_split_in_place_f list mem string delim maxsplit flags =
     split_string list mem string delim maxsplit True flags"

subsection \<open>Comparison functions\<close>

lemma strcmp_swap: "strcmp s t = - strcmp t s"
  by (induction s t rule: strcmp.induct) auto

lemma strcmp_eq_0: "strcmp s t = 0 \<longleftrightarrow> s = t"
  by (induction s t rule: strcmp.induct) auto

lemma strcmp_trans: "strcmp s t \<le> 0 \<Longrightarrow> strcmp t u \<le> 0 \<Longrightarrow> strcmp s u \<le> 0"
proof (induction s t arbitrary: u rule: strcmp.induct)
  case (2 y t)
  then show ?case by (cases u) auto
next
  case (4 x s y t)
  then show ?case by (cases u) (auto split: if_splits)
qed auto

text \<open>Two facts every comparison function has, for sorting and searching.\<close>

context compare_fn
begin

lemma cmp_less_trans: "cmp a b < 0 \<Longrightarrow> cmp b c \<le> 0 \<Longrightarrow> cmp a c < 0"
  using cmp_trans [of a b c] cmp_flip [of a b] cmp_flip [of a c] cmp_trans [of b c a] by force

lemma cmp_trans_less: "cmp a b \<le> 0 \<Longrightarrow> cmp b c < 0 \<Longrightarrow> cmp a c < 0"
  using cmp_trans [of a b c] cmp_flip [of b c] cmp_flip [of a c] cmp_trans [of c a b] by force

lemma cmp_refl: "cmp a a = 0"
  using cmp_swap [of a a] by (simp add: sgn_if split: if_splits)

end

locale string_cmp = compare_fn cmp for cmp :: "cstring \<Rightarrow> cstring \<Rightarrow> int"

interpretation by_strcmp: string_cmp strcmp
proof
  show "sgn (strcmp a b) = - sgn (strcmp b a)" for a b by (subst strcmp_swap) simp
qed (rule strcmp_trans)

subsection \<open>Sorted lists are sets\<close>

definition sl_sorted :: "(cstring \<Rightarrow> cstring \<Rightarrow> int) \<Rightarrow> 'u string_list_item list \<Rightarrow> bool" where
  "sl_sorted cmp items \<longleftrightarrow> sorted_wrt (\<lambda>a b. cmp (si_string a) (si_string b) < 0) items"

definition sl_member :: "(cstring \<Rightarrow> cstring \<Rightarrow> int) \<Rightarrow> 'u string_list_item list \<Rightarrow> cstring \<Rightarrow> bool" where
  "sl_member cmp items string \<longleftrightarrow> (\<exists>it\<in>set items. cmp string (si_string it) = 0)"

text \<open>The items after an insertion at \<open>i\<close>, which changes nothing if there is an equal string.\<close>

definition sl_inserted ::
  "(cstring \<Rightarrow> cstring \<Rightarrow> int) \<Rightarrow> 'u string_list_item list \<Rightarrow> cstring \<Rightarrow> nat \<Rightarrow> 'u string_list_item list" where
  "sl_inserted cmp items string i =
     (if sl_member cmp items string then items
      else take i items @ \<lparr>si_string = string, si_util = None\<rparr> # drop i items)"

text \<open>What the binary search returns: a match, or the place between the smaller and the larger items.\<close>

definition entry_found :: "(cstring \<Rightarrow> cstring \<Rightarrow> int) \<Rightarrow> 'u string_list_item list \<Rightarrow> cstring \<Rightarrow> nat \<times> bool \<Rightarrow> bool" where
  "entry_found cmp items string r \<longleftrightarrow>
     (case r of (i, exact) \<Rightarrow>
        if exact then i < length items \<and> cmp string (si_string (items ! i)) = 0
        else i \<le> length items \<and> (\<forall>it\<in>set (take i items). cmp (si_string it) string < 0) \<and>
          (\<forall>it\<in>set (drop i items). cmp string (si_string it) < 0))"

context string_cmp
begin

lemma sorted_split:
  assumes "sl_sorted cmp items" "i < length items"
  shows "\<forall>it\<in>set (take i items). cmp (si_string it) (si_string (items ! i)) < 0"
    "\<forall>it\<in>set (drop (Suc i) items). cmp (si_string (items ! i)) (si_string it) < 0"
proof -
  have "items = take i items @ items ! i # drop (Suc i) items" using assms(2) by (rule id_take_nth_drop)
  then have "sorted_wrt (\<lambda>a b. cmp (si_string a) (si_string b) < 0) (take i items @ items ! i # drop (Suc i) items)"
    using assms(1) by (simp add: sl_sorted_def)
  then show "\<forall>it\<in>set (take i items). cmp (si_string it) (si_string (items ! i)) < 0"
    "\<forall>it\<in>set (drop (Suc i) items). cmp (si_string (items ! i)) (si_string it) < 0"
    by (simp_all add: sorted_wrt_append)
qed

lemma get_entry_loop_found:
  assumes sorted: "sl_sorted cmp items"
  shows "left \<le> right \<Longrightarrow> right \<le> length items \<Longrightarrow>
    (\<forall>it\<in>set (take left items). cmp (si_string it) string < 0) \<Longrightarrow>
    (\<forall>it\<in>set (drop right items). cmp string (si_string it) < 0) \<Longrightarrow>
    \<exists>r. get_entry_loop cmp items string left right = Inr r \<and> entry_found cmp items string r"
proof (induction "right - left" arbitrary: left right rule: less_induct)
  case less
  show ?case
  proof (cases "left < right")
    case False
    then have "left = right" using less.prems(1) by simp
    then show ?thesis using less.prems by (subst get_entry_loop.simps) (simp add: entry_found_def)
  next
    case True
    define m where "m = left + (right - left) div 2"
    have m: "left \<le> m" "m < right" "m < length items" using True less.prems(2) by (auto simp: m_def)
    let ?c = "cmp string (si_string (items ! m))"
    have unfold: "get_entry_loop cmp items string left right =
        (if ?c < 0 then get_entry_loop cmp items string left m
         else if ?c > 0 then get_entry_loop cmp items string (m + 1) right else Inr (m, True))"
      using True m(3) by (subst get_entry_loop.simps) (simp add: m_def [symmetric])
    consider "?c < 0" | "?c > 0" | "?c = 0" by linarith
    then show ?thesis
    proof cases
      case 1
      have "\<forall>it\<in>set (drop m items). cmp string (si_string it) < 0"
        using sorted_split(2) [OF sorted m(3)] 1 m(3) cmp_less_trans [OF 1]
        by (subst Cons_nth_drop_Suc [symmetric]) (auto intro: less_imp_le)
      then show ?thesis using less.hyps [of m left] less.prems m unfold 1 by simp
    next
      case 2
      then have "cmp (si_string (items ! m)) string < 0" using cmp_flip(3) by blast
      then have "\<forall>it\<in>set (take (Suc m) items). cmp (si_string it) string < 0"
        using sorted_split(1) [OF sorted m(3)] m(3) cmp_less_trans
        by (subst take_Suc_conv_app_nth) (auto intro: less_imp_le)
      then show ?thesis using less.hyps [of right "Suc m"] less.prems m unfold 2 by simp
    next
      case 3
      then show ?thesis using unfold m(3) by (simp add: entry_found_def)
    qed
  qed
qed

lemma get_entry_index_found:
  assumes "sl_compare list = cmp" "sl_sorted cmp (sl_items list)"
  obtains i exact where "get_entry_index list string = Inr (i, exact)"
    "entry_found cmp (sl_items list) string (i, exact)"
  using get_entry_loop_found [OF assms(2), of 0 "length (sl_items list)" string] assms(1)
  by (auto simp: get_entry_index_def)

lemma entry_found_member:
  assumes "entry_found cmp items string (i, exact)"
  shows "exact \<longleftrightarrow> (\<exists>it\<in>set items. cmp string (si_string it) = 0)"
proof (cases exact)
  case True
  then show ?thesis using assms by (auto simp: entry_found_def)
next
  case False
  have "cmp string (si_string it) \<noteq> 0" if "it \<in> set items" for it
  proof -
    have "it \<in> set (take i items) \<or> it \<in> set (drop i items)"
      using that set_append [of "take i items" "drop i items"] by simp
    then show ?thesis using assms False cmp_flip [of string "si_string it"] by (auto simp: entry_found_def)
  qed
  then show ?thesis using False by auto
qed

lemma insert_sorted:
  assumes "sl_sorted cmp items" "entry_found cmp items string (i, False)" "si_string new = string"
  shows "sl_sorted cmp (take i items @ new # drop i items)"
proof -
  have s: "sorted_wrt (\<lambda>a b. cmp (si_string a) (si_string b) < 0) (take i items @ drop i items)"
    using assms(1) by (simp add: sl_sorted_def)
  then show ?thesis using assms(2,3)
    by (simp add: sl_sorted_def sorted_wrt_append entry_found_def del: append_take_drop_id)
qed

lemma exact_filter:
  assumes "sl_sorted cmp items" "entry_found cmp items string (i, True)"
  shows "take i items @ drop (Suc i) items = filter (\<lambda>it. cmp string (si_string it) \<noteq> 0) items"
proof -
  let ?P = "\<lambda>it. cmp string (si_string it) \<noteq> 0"
  have i: "i < length items" "cmp string (si_string (items ! i)) = 0" using assms(2) by (simp_all add: entry_found_def)
  have z: "cmp string (si_string (items ! i)) \<le> 0" "cmp (si_string (items ! i)) string \<le> 0"
    using i(2) cmp_flip(2) [of string "si_string (items ! i)"] by simp_all
  have before: "?P it" if "it \<in> set (take i items)" for it
    using cmp_less_trans [OF sorted_split(1) [OF assms(1) i(1), rule_format, OF that] z(2)]
      cmp_flip(2) [of string "si_string it"] by simp
  have after: "?P it" if "it \<in> set (drop (Suc i) items)" for it
    using cmp_trans_less [OF z(1) sorted_split(2) [OF assms(1) i(1), rule_format, OF that]] by simp
  have "filter ?P items = filter ?P (take i items) @ filter ?P (items ! i # drop (Suc i) items)"
    by (subst id_take_nth_drop [OF i(1)]) (rule filter_append)
  also have "\<dots> = take i items @ drop (Suc i) items" using before after i(2) by simp
  finally show ?thesis by (rule sym)
qed

lemma filter_sorted: "sl_sorted cmp items \<Longrightarrow> sl_sorted cmp (filter P items)"
  by (simp add: sl_sorted_def sorted_wrt_filter)

lemma string_list_ops:
  assumes list: "sl_compare list = cmp" "sl_sorted cmp (sl_items list)" and len: "length (sl_items list) < 2 ^ 31"
  shows "\<exists>i\<le>length (sl_items list).
      string_list_insert list string = Inr (list\<lparr>sl_items := sl_inserted cmp (sl_items list) string i\<rparr>, i) \<and>
      sl_sorted cmp (sl_inserted cmp (sl_items list) string i) \<and>
      cmp string (si_string (sl_inserted cmp (sl_items list) string i ! i)) = 0 \<and>
      string_list_lookup list string = Inr (if sl_member cmp (sl_items list) string then Some i else None)"
    "string_list_has_string list string = Inr (sl_member cmp (sl_items list) string)"
    "string_list_remove list string = Inr (list\<lparr>sl_items := filter (\<lambda>it. cmp string (si_string it) \<noteq> 0) (sl_items list)\<rparr>)"
proof -
  let ?items = "sl_items list"
  obtain i exact where run: "get_entry_index list string = Inr (i, exact)" and found: "entry_found cmp ?items string (i, exact)"
    by (rule get_entry_index_found [OF list])
  note mem = entry_found_member [OF found]
  have same: "list\<lparr>sl_items := ?items\<rparr> = list" by simp
  have sint: "sint (word_of_nat i :: u32) = int i" if "i < length ?items"
    using that len by (simp add: signed_of_nat signed_take_bit_int_eq_self)
  show "string_list_has_string list string = Inr (sl_member cmp ?items string)"
    using run mem by (simp add: string_list_has_string_def sl_member_def)
  show "string_list_remove list string = Inr (list\<lparr>sl_items := filter (\<lambda>it. cmp string (si_string it) \<noteq> 0) ?items\<rparr>)"
  proof (cases exact)
    case True
    then have "i < length ?items" using found by (simp add: entry_found_def)
    then show ?thesis
      using run True sint exact_filter [OF list(2)] found by (simp add: string_list_remove_def Let_def)
  next
    case False
    then have "filter (\<lambda>it. cmp string (si_string it) \<noteq> 0) ?items = ?items" using mem by (auto simp: filter_id_conv)
    then show ?thesis using run False same by (simp add: string_list_remove_def)
  qed
  show "\<exists>i\<le>length ?items.
      string_list_insert list string = Inr (list\<lparr>sl_items := sl_inserted cmp ?items string i\<rparr>, i) \<and>
      sl_sorted cmp (sl_inserted cmp ?items string i) \<and>
      cmp string (si_string (sl_inserted cmp ?items string i ! i)) = 0 \<and>
      string_list_lookup list string = Inr (if sl_member cmp ?items string then Some i else None)"
  proof (intro exI [of _ i])
    show "i \<le> length ?items \<and>
      string_list_insert list string = Inr (list\<lparr>sl_items := sl_inserted cmp ?items string i\<rparr>, i) \<and>
      sl_sorted cmp (sl_inserted cmp ?items string i) \<and>
      cmp string (si_string (sl_inserted cmp ?items string i ! i)) = 0 \<and>
      string_list_lookup list string = Inr (if sl_member cmp ?items string then Some i else None)"
      using run mem same list(2) found insert_sorted [OF list(2), of string i] cmp_refl
      by (cases exact) (simp_all add: string_list_insert_def add_entry_def string_list_lookup_def sl_member_def
          sl_inserted_def entry_found_def nth_append)
  qed
qed

end

subsection \<open>Merge sort\<close>

fun merge :: "('a \<Rightarrow> 'a \<Rightarrow> int) \<Rightarrow> 'a list \<Rightarrow> 'a list \<Rightarrow> 'a list" where
  "merge cmp (x # xs) (y # ys) = (if cmp x y \<le> 0 then x # merge cmp xs (y # ys) else y # merge cmp (x # xs) ys)"
| "merge cmp xs [] = xs"
| "merge cmp [] ys = ys"

lemma mset_merge: "mset (merge cmp xs ys) = mset xs + mset ys"
  by (induction cmp xs ys rule: merge.induct) auto

lemma merge_loop_merge:
  "length tmp + length b1 + length b2 \<le> cap \<Longrightarrow>
   \<exists>tmp' r1 r2. merge_loop cmp cap tmp b1 b2 = Inr (tmp', r1, r2) \<and> (r1 = [] \<or> r2 = []) \<and>
     tmp' @ r1 @ r2 = tmp @ merge cmp b1 b2"
proof (induction cmp b1 b2 arbitrary: tmp rule: merge.induct)
  case (1 cmp x xs y ys)
  show ?case
  proof (cases "cmp x y \<le> 0")
    case True
    then show ?thesis using "1.IH"(1) [of "tmp @ [x]"] "1.prems" by (subst merge_loop.simps) auto
  next
    case False
    then show ?thesis using "1.IH"(2) [of "tmp @ [y]"] "1.prems" by (subst merge_loop.simps) auto
  qed
next
  case (2 cmp xs)
  then show ?case by (subst merge_loop.simps) (auto split: list.split)
next
  case (3 cmp y ys)
  then show ?case by (subst merge_loop.simps) auto
qed

context compare_fn
begin

abbreviation ordered :: "'a list \<Rightarrow> bool" where
  "ordered \<equiv> sorted_wrt (\<lambda>a b. cmp a b \<le> 0)"

lemma merge_set: "set (merge cmp xs ys) = set xs \<union> set ys"
  using mset_merge [of cmp xs ys] by (metis set_mset_mset set_mset_union)

lemma merge_sorted: "ordered xs \<Longrightarrow> ordered ys \<Longrightarrow> ordered (merge cmp xs ys)"
proof (induction xs arbitrary: ys)
  case Nil
  then show ?case by (cases ys) simp_all
next
  case (Cons x xs)
  from Cons.prems(2) show ?case
  proof (induction ys)
    case (Cons y ys)
    show ?case
    proof (cases "cmp x y \<le> 0")
      case True
      then have "\<forall>z\<in>set (merge cmp xs (y # ys)). cmp x z \<le> 0"
        using \<open>ordered (x # xs)\<close> Cons.prems cmp_trans [OF True] by (auto simp: merge_set)
      then show ?thesis using True Cons.prems \<open>ordered (x # xs)\<close> \<open>\<And>ys. ordered xs \<Longrightarrow> ordered ys \<Longrightarrow> ordered (merge cmp xs ys)\<close>
        by simp
    next
      case False
      then have yx: "cmp y x \<le> 0" using cmp_flip(1) [of y x] by simp
      then have "\<forall>z\<in>set (merge cmp (x # xs) ys). cmp y z \<le> 0"
        using \<open>ordered (x # xs)\<close> Cons.prems cmp_trans [OF yx] by (auto simp: merge_set)
      then show ?thesis using False Cons.IH Cons.prems by simp
    qed
  qed (use Cons.prems in simp)
qed

lemma merge_stable:
  "ordered xs \<Longrightarrow> filter (\<lambda>z. cmp w z = 0) (merge cmp xs ys) = filter (\<lambda>z. cmp w z = 0) xs @ filter (\<lambda>z. cmp w z = 0) ys"
proof (induction xs arbitrary: ys)
  case Nil
  then show ?case by (cases ys) simp_all
next
  case (Cons x xs)
  show ?case
  proof (induction ys)
    case (Cons y ys)
    show ?case
    proof (cases "cmp x y \<le> 0")
      case True
      then show ?thesis
        using \<open>ordered (x # xs)\<close>
          \<open>\<And>ys. ordered xs \<Longrightarrow> filter (\<lambda>z. cmp w z = 0) (merge cmp xs ys) = filter (\<lambda>z. cmp w z = 0) xs @ filter (\<lambda>z. cmp w z = 0) ys\<close>
        by simp
    next
      case False
      have "cmp w z \<noteq> 0" if w: "cmp w y = 0" and z: "z \<in> set (x # xs)" for z
      proof -
        have "cmp y x < 0" using False cmp_flip(3) [of y x] by simp
        moreover have "cmp x z \<le> 0" using z \<open>ordered (x # xs)\<close> cmp_refl [of x] by auto
        ultimately have "cmp y z < 0" by (rule cmp_less_trans)
        then have "cmp w z < 0" using w cmp_trans_less [of w y z] by simp
        then show ?thesis by simp
      qed
      then have "cmp w y = 0 \<longrightarrow> filter (\<lambda>z. cmp w z = 0) (x # xs) = []" by (auto simp: filter_empty_conv)
      then show ?thesis using False Cons.IH by auto
    qed
  qed simp
qed

lemma msort_sorts:
  "length b \<le> cap \<Longrightarrow> \<exists>b'. msort_with_tmp cmp cap b = Inr b' \<and> mset b' = mset b \<and> ordered b' \<and>
     (\<forall>w. filter (\<lambda>z. cmp w z = 0) b' = filter (\<lambda>z. cmp w z = 0) b)"
proof (induction "length b" arbitrary: b rule: less_induct)
  case less
  show ?case
  proof (cases "length b \<le> 1")
    case True
    then have "ordered b" by (cases b rule: remdups_adj.cases) auto
    then show ?thesis using True by (subst msort_with_tmp.simps) simp
  next
    case False
    let ?n = "length b div 2"
    have n: "length (take ?n b) < length b" "length (drop ?n b) < length b" using False by auto
    have cap: "length (take ?n b) \<le> cap" "length (drop ?n b) \<le> cap" using n less.prems by linarith+
    obtain b1 where b1: "msort_with_tmp cmp cap (take ?n b) = Inr b1" "mset b1 = mset (take ?n b)" "ordered b1"
        "\<forall>w. filter (\<lambda>z. cmp w z = 0) b1 = filter (\<lambda>z. cmp w z = 0) (take ?n b)"
      using less.hyps [OF n(1) cap(1)] by auto
    obtain b2 where b2: "msort_with_tmp cmp cap (drop ?n b) = Inr b2" "mset b2 = mset (drop ?n b)" "ordered b2"
        "\<forall>w. filter (\<lambda>z. cmp w z = 0) b2 = filter (\<lambda>z. cmp w z = 0) (drop ?n b)"
      using less.hyps [OF n(2) cap(2)] by auto
    have len: "length b1 + length b2 = length b"
      using arg_cong [OF b1(2), of size] arg_cong [OF b2(2), of size] by simp
    obtain tmp r1 r2 where merge: "merge_loop cmp cap [] b1 b2 = Inr (tmp, r1, r2)" "r1 = [] \<or> r2 = []"
        "tmp @ r1 @ r2 = merge cmp b1 b2"
      using merge_loop_merge [of "[]" b1 b2 cap cmp] len less.prems by auto
    have "length (merge cmp b1 b2) = length b" using arg_cong [OF mset_merge [of cmp b1 b2], of size] len by simp
    then have len': "length tmp + length r1 + length r2 = length b" using arg_cong [OF merge(3), of length] by simp
    have "msort_with_tmp cmp cap b = Inr (merge cmp b1 b2)"
      using False b1(1) b2(1) merge len' less.prems by (subst msort_with_tmp.simps) (auto simp: Let_def)
    moreover have "mset (merge cmp b1 b2) = mset b"
      using b1(2) b2(2) by (simp add: mset_merge flip: mset_append)
    moreover have "filter (\<lambda>z. cmp w z = 0) (merge cmp b1 b2) = filter (\<lambda>z. cmp w z = 0) b" for w
      using merge_stable [OF b1(3), of w b2] b1(4) b2(4) by (simp flip: filter_append)
    ultimately show ?thesis using merge_sorted [OF b1(3) b2(3)] by blast
  qed
qed

lemma QSORT_S_sorts:
  assumes "length b * s < 2 ^ 64"
  shows "\<exists>b'. QSORT_S s cmp b = Inr b' \<and> mset b' = mset b \<and> ordered b' \<and>
     (\<forall>w. filter (\<lambda>z. cmp w z = 0) b' = filter (\<lambda>z. cmp w z = 0) b)"
  using msort_sorts [of b "length b"] assms
  by (auto simp: QSORT_S_def git_qsort_s_def size_mult_overflows_def div_less_iff_less_mult mult.commute)

end

subsection \<open>Removing duplicates\<close>

fun dedup :: "(cstring \<Rightarrow> cstring \<Rightarrow> int) \<Rightarrow> 'u string_list_item \<Rightarrow> 'u string_list_item list \<Rightarrow> 'u string_list_item list" where
  "dedup cmp x [] = []"
| "dedup cmp x (y # ys) = (if cmp (si_string x) (si_string y) = 0 then dedup cmp x ys else y # dedup cmp y ys)"

lemma duplicates_loop_dedup:
  "A \<noteq> [] \<Longrightarrow> \<exists>items dst. duplicates_loop cmp (A @ B @ C) (length A) (length A + length B) = Inr (items, dst) \<and>
     take dst items = A @ dedup cmp (last A) C"
proof (induction C arbitrary: A B)
  case Nil
  then show ?case by (subst duplicates_loop.simps) simp
next
  case (Cons y C)
  have rd: "rd (A @ B @ y # C) (length A - 1) = Inr (last A)" "rd (A @ B @ y # C) (length A + length B) = Inr y"
    using Cons.prems by (simp_all add: nth_append last_conv_nth)
  show ?case
  proof (cases "cmp (si_string (last A)) (si_string y) = 0")
    case True
    then show ?thesis using rd Cons.IH [OF Cons.prems, of "B @ [y]"] by (subst duplicates_loop.simps) simp
  next
    case False
    obtain B' where B': "(A @ B @ y # C)[length A := y] = (A @ [y]) @ B' @ C" "length B' = length B"
      by (cases B) (auto simp: list_update_append)
    show ?thesis
      using False rd Cons.IH [of "A @ [y]" B'] B' by (subst duplicates_loop.simps) (simp del: append_assoc, simp)
  qed
qed

sublocale string_cmp \<subseteq> by_string: compare_fn "cmp_items cmp :: 'u string_list_item \<Rightarrow> 'u string_list_item \<Rightarrow> int"
proof
  show "sgn (cmp_items cmp a b) = - sgn (cmp_items cmp b a)" for a b :: "'u string_list_item"
    unfolding cmp_items_def by (rule cmp_swap)
  show "cmp_items cmp a c \<le> 0" if "cmp_items cmp a b \<le> 0" "cmp_items cmp b c \<le> 0" for a b c :: "'u string_list_item"
    using that unfolding cmp_items_def by (rule cmp_trans)
qed

context string_cmp
begin

lemma cmp_eq_cong: "cmp a b = 0 \<Longrightarrow> cmp s a = 0 \<longleftrightarrow> cmp s b = 0"
proof -
  have step: "cmp s v = 0" if "cmp u v = 0" "cmp s u = 0" for u v
  proof -
    have "cmp s v \<le> 0" using cmp_trans [of s u v] that by simp
    moreover have "cmp v s \<le> 0" using cmp_trans [of v u s] that cmp_flip(2) [of u v] cmp_flip(2) [of s u] by simp
    ultimately show ?thesis using cmp_flip(1) [of v s] by simp
  qed
  assume ab: "cmp a b = 0"
  then have ba: "cmp b a = 0" using cmp_flip(2) [of a b] by simp
  show ?thesis using step [OF ab] step [OF ba] by blast
qed

lemma dedup_sorted:
  "sorted_wrt (\<lambda>a b. cmp_items cmp a b \<le> 0) (x # ys) \<Longrightarrow>
   sl_sorted cmp (x # dedup cmp x ys) \<and> set (dedup cmp x ys) \<subseteq> set ys \<and>
   (\<forall>s. sl_member cmp (x # dedup cmp x ys) s \<longleftrightarrow> sl_member cmp (x # ys) s)"
proof (induction ys arbitrary: x)
  case Nil
  then show ?case by (simp add: sl_sorted_def)
next
  case (Cons y ys)
  show ?case
  proof (cases "cmp (si_string x) (si_string y) = 0")
    case True
    then show ?thesis using Cons.IH [of x] Cons.prems cmp_eq_cong [OF True] by (auto simp: sl_member_def)
  next
    case False
    then have xy: "cmp (si_string x) (si_string y) < 0" using Cons.prems by (simp add: cmp_items_def)
    have IH: "sl_sorted cmp (y # dedup cmp y ys)" "set (dedup cmp y ys) \<subseteq> set ys"
        "\<forall>s. sl_member cmp (y # dedup cmp y ys) s \<longleftrightarrow> sl_member cmp (y # ys) s"
      using Cons.IH [of y] Cons.prems by simp_all
    have "cmp (si_string x) (si_string z) < 0" if "z \<in> set (y # ys)" for z
      using that xy Cons.prems cmp_less_trans [OF xy, of "si_string z"] by (auto simp: cmp_items_def)
    then show ?thesis using False IH by (auto simp: sl_sorted_def sl_member_def)
  qed
qed

end

subsection \<open>Splitting\<close>

primrec split_on :: "cstring \<Rightarrow> cstring \<Rightarrow> cstring list" where
  "split_on delim [] = [[]]"
| "split_on delim (c # s) =
     (if c \<in> set delim then [] # split_on delim s
      else (c # hd (split_on delim s)) # tl (split_on delim s))"

definition rstrip :: "cstring \<Rightarrow> cstring" where
  "rstrip s = rev (dropWhile isspace (rev s))"

text \<open>The treatment of the parts the flags ask for, and all parts of a string.\<close>

definition treat :: "u32 \<Rightarrow> cstring list \<Rightarrow> cstring list" where
  "treat flags ps =
     (if flags AND STRING_LIST_SPLIT_NONEMPTY \<noteq> 0 then filter (\<lambda>p. p \<noteq> []) else (\<lambda>ps. ps))
       (map (if flags AND STRING_LIST_SPLIT_TRIM \<noteq> 0 then rstrip \<circ> dropWhile isspace else (\<lambda>p. p)) ps)"

definition split_pieces :: "u32 \<Rightarrow> cstring \<Rightarrow> cstring \<Rightarrow> cstring list" where
  "split_pieces flags delim s = treat flags (split_on delim s)"

text \<open>
  With a limit: the string is cut at its first \<open>k\<close> delimiters, where \<open>k\<close> is the least number that gives \<open>n\<close> parts
  which the treatment keeps; the rest of the text, delimiters included, is the last part.
\<close>

definition reached :: "nat option \<Rightarrow> nat \<Rightarrow> bool" where
  "reached limit k = (case limit of None \<Rightarrow> False | Some n \<Rightarrow> n \<le> k)"

definition split_limited :: "u32 \<Rightarrow> cstring \<Rightarrow> nat option \<Rightarrow> cstring \<Rightarrow> cstring list" where
  "split_limited flags delim limit s =
     (let raw = split_on delim s in
      case find (\<lambda>k. reached limit (length (treat flags (take k raw)))) [0..<length raw] of
        None \<Rightarrow> treat flags raw
      | Some k \<Rightarrow> treat flags (take k raw @ [drop (length (concat (take k raw)) + k) s]))"

lemma treat_append: "treat flags (xs @ ys) = treat flags xs @ treat flags ys"
  by (simp add: treat_def)

lemma treat_Cons: "treat flags (x # xs) = treat flags [x] @ treat flags xs"
  using treat_append [of flags "[x]" xs] by simp

lemma treat_one_le: "length (treat flags [x]) \<le> 1"
  by (simp add: treat_def)

lemma find_map_Suc: "find P (map Suc xs) = map_option Suc (find (\<lambda>k. P (Suc k)) xs)"
  by (induction xs) simp_all

lemma find_upt_Suc: "find P [0..<Suc n] = (if P 0 then Some 0 else map_option Suc (find (\<lambda>k. P (Suc k)) [0..<n]))"
  using find_map_Suc [of P "[0..<n]"] by (simp add: upt_conv_Cons map_Suc_upt del: upt_Suc)

lemma split_on_append:
  "\<forall>c\<in>set a. c \<notin> set delim \<Longrightarrow> split_on delim (a @ s) = (a @ hd (split_on delim s)) # tl (split_on delim s)"
proof (induction a)
  case Nil
  then show ?case by (cases s) simp_all
qed simp

lemma split_on_delim:
  "\<forall>c\<in>set a. c \<notin> set delim \<Longrightarrow> d \<in> set delim \<Longrightarrow> split_on delim (a @ d # s) = a # split_on delim s"
  by (simp add: split_on_append)

lemma rtrim_loop_rstrip:
  "rtrim_loop (A @ a @ R) (length A) (length A + length a) = Inr (length A + length (rstrip a))"
proof (induction a arbitrary: R rule: rev_induct)
  case Nil
  then show ?case by (cases "length A") (simp_all add: rstrip_def)
next
  case (snoc c a)
  show ?case using snoc.IH [of "c # R"] by (simp add: nth_append rstrip_def)
qed

lemma rstrip_prefix: "\<exists>w. a = rstrip a @ w"
  unfolding rstrip_def by (metis rev_append rev_rev_ident takeWhile_dropWhile_id)

abbreviation plain_item :: "cstring \<Rightarrow> 'u string_list_item" where
  "plain_item s \<equiv> \<lparr>si_string = s, si_util = None\<rparr>"

lemma rstrip_Nil [simp]: "rstrip [] = []"
  by (simp add: rstrip_def)

definition one_piece :: "u32 \<Rightarrow> cstring \<Rightarrow> cstring list" where
  "one_piece flags a =
     (let r = (if flags AND STRING_LIST_SPLIT_TRIM \<noteq> 0 then rstrip a else a) in
      if flags AND STRING_LIST_SPLIT_NONEMPTY \<noteq> 0 \<and> r = [] then [] else [r])"

lemma append_one_piece:
  assumes a: "cstring_ok a" and R: "R \<noteq> []" and endp: "endp = Some (length A + length a) \<or> endp = None \<and> hd R = 0"
  shows "\<exists>a' x. length a' = length a \<and> (\<not> in_place \<longrightarrow> a' @ x # tl R = a @ R) \<and>
    (in_place \<longrightarrow> list_all (\<lambda>r. \<exists>u. a' @ [x] = r @ 0 # u) (one_piece flags a)) \<and>
    append_one list refs (A @ a @ R) (length A) endp in_place flags =
      Inr (if in_place then list else list\<lparr>sl_items := sl_items list @ map plain_item (one_piece flags a)\<rparr>,
           if in_place then refs @ map (\<lambda>_. length A) (one_piece flags a) else refs,
           A @ a' @ x # tl R, int (length (one_piece flags a)))"
proof -
  define r where "r = (if flags AND STRING_LIST_SPLIT_TRIM \<noteq> 0 then rstrip a else a)"
  obtain w where w: "a = r @ w"
    using rstrip_prefix [of a] unfolding r_def by (cases "flags AND STRING_LIST_SPLIT_TRIM = 0") auto
  obtain x R' where R': "R = x # R'" using R by (cases R) auto
  have "cstr_at (A @ a @ R) (length A) = a" if "hd R = 0"
    using that R' takeWhile_nul [OF a] by (simp add: cstr_at_def)
  then have e: "(case endp of None \<Rightarrow> length A + length (cstr_at (A @ a @ R) (length A)) | Some e \<Rightarrow> e) = length A + length a"
    using endp by auto
  have trim: "(if flags AND STRING_LIST_SPLIT_TRIM \<noteq> 0 then rtrim_loop (A @ a @ R) (length A) (length A + length a)
      else Inr (length A + length a)) = Inr (length A + length r)"
    by (simp add: rtrim_loop_rstrip r_def)
  have pieces: "one_piece flags a = (if flags AND STRING_LIST_SPLIT_NONEMPTY \<noteq> 0 \<and> r = [] then [] else [r])"
    by (simp only: one_piece_def Let_def r_def)
  have call: "append_one list refs (A @ a @ R) (length A) endp in_place flags =
      (if flags AND STRING_LIST_SPLIT_NONEMPTY \<noteq> 0 \<and> r = [] then Inr (list, refs, A @ a @ R, 0)
       else if in_place then
         rbind (wr (A @ a @ R) (length A + length r) 0) (\<lambda>mem. Inr (list, refs @ [length A], mem, 1))
       else rbind (slice (A @ a @ R) (length A) (length r)) (\<lambda>s. Inr (fst (string_list_append_nodup list s), refs, A @ a @ R, 1)))"
    unfolding append_one_def Let_def e trim rbind_simps by simp
  show ?thesis
  proof (cases "flags AND STRING_LIST_SPLIT_NONEMPTY \<noteq> 0 \<and> r = []")
    case True
    then have "append_one list refs (A @ a @ R) (length A) endp in_place flags = Inr (list, refs, A @ a @ x # R', 0)"
      using call R' by simp
    moreover have "one_piece flags a = []" using True pieces by simp
    ultimately show ?thesis using R' by (intro exI [of _ a] exI [of _ x]) simp
  next
    case False
    then have piece: "one_piece flags a = [r]" using pieces by simp
    show ?thesis
    proof (cases in_place)
      case no: False
      have "append_one list refs (A @ a @ R) (length A) endp in_place flags =
          Inr (list\<lparr>sl_items := sl_items list @ [plain_item r]\<rparr>, refs, A @ a @ x # R', 1)"
        using call False no R' w by (simp add: string_list_append_nodup_def)
      then show ?thesis using R' piece no by (intro exI [of _ a] exI [of _ x]) simp
    next
      case True
      obtain a' y where new: "(A @ a @ R)[length A + length r := 0] = A @ a' @ y # R'" "length a' = length a"
          "\<exists>u. a' @ [y] = r @ 0 # u"
      proof (cases w)
        case Nil
        show thesis by (rule that [of r 0]) (simp_all add: w R' Nil list_update_append)
      next
        case (Cons c w')
        show thesis by (rule that [of "r @ 0 # w'" x]) (simp_all add: w R' Cons list_update_append)
      qed
      moreover have "length A + length r < length (A @ a @ R)" using w R' by simp
      ultimately have "append_one list refs (A @ a @ R) (length A) endp in_place flags =
          Inr (list, refs @ [length A], A @ a' @ y # R', 1)"
        using call False True by simp
      then show ?thesis using R' piece new(2,3) True by (intro exI [of _ a'] exI [of _ y]) simp
    qed
  qed
qed

lemma treat_one:
  assumes "\<forall>c\<in>set w. isspace c" "flags AND STRING_LIST_SPLIT_TRIM = 0 \<longrightarrow> w = []"
    and "flags AND STRING_LIST_SPLIT_TRIM \<noteq> 0 \<longrightarrow> \<not> isspace (chr a)"
  shows "treat flags [w @ a] = one_piece flags a"
proof -
  have "dropWhile isspace (w @ a) = a" if "flags AND STRING_LIST_SPLIT_TRIM \<noteq> 0"
    using assms(1,3) that by (cases a) (auto simp: dropWhile_append3)
  then show ?thesis using assms(2) by (auto simp: treat_def one_piece_def Let_def)
qed

lemma split_limited_rest: "reached limit 0 \<Longrightarrow> split_limited flags delim limit s = treat flags [s]"
proof -
  assume full: "reached limit 0"
  have "split_on delim s \<noteq> []" by (cases s) simp_all
  then obtain n where n: "length (split_on delim s) = Suc n" by (cases "split_on delim s") auto
  have "find (\<lambda>k. reached limit (length (treat flags (take k (split_on delim s))))) [0..<Suc n] = Some 0"
    using full by (subst find_upt_Suc) (simp add: treat_def)
  then show ?thesis unfolding split_limited_def Let_def n by (simp add: treat_def)
qed

lemma split_limited_last:
  assumes "\<forall>c\<in>set x. c \<notin> set delim"
  shows "split_limited flags delim limit x = treat flags [x]"
proof -
  have "split_on delim x = [x]" using split_on_append [OF assms, of "[]"] by simp
  then show ?thesis by (simp add: split_limited_def Let_def)
qed

lemma split_limited_step:
  assumes x: "\<forall>c\<in>set x. c \<notin> set delim" and d: "d \<in> set delim" and more: "\<not> reached limit 0"
  shows "split_limited flags delim limit (x @ d # s) =
    treat flags [x] @ split_limited flags delim (map_option (\<lambda>n. n - length (treat flags [x])) limit) s"
proof -
  let ?raw = "split_on delim s" and ?m = "length (treat flags [x])"
  let ?limit = "map_option (\<lambda>n. n - ?m) limit"
  have raw: "split_on delim (x @ d # s) = x # ?raw" by (rule split_on_delim [OF x d])
  have "reached limit (length (treat flags (x # take k ?raw))) = reached ?limit (length (treat flags (take k ?raw)))" for k
    unfolding treat_Cons [of flags x "take k ?raw"] by (cases limit) (auto simp: reached_def)
  then have f: "find (\<lambda>k. reached limit (length (treat flags (take k (x # ?raw))))) [0..<Suc (length ?raw)] =
      map_option Suc (find (\<lambda>k. reached ?limit (length (treat flags (take k ?raw)))) [0..<length ?raw])"
    using more by (subst find_upt_Suc) (simp add: treat_def)
  have rest: "drop (length (concat (take (Suc k) (x # ?raw))) + Suc k) (x @ d # s) = drop (length (concat (take k ?raw)) + k) s" for k
    by simp
  show ?thesis
  proof (cases "find (\<lambda>k. reached ?limit (length (treat flags (take k ?raw)))) [0..<length ?raw]")
    case None
    then show ?thesis unfolding split_limited_def Let_def raw using f treat_Cons [of flags x ?raw] by simp
  next
    case (Some k)
    then show ?thesis
      unfolding split_limited_def Let_def raw
      using f rest [of k] treat_Cons [of flags x "take k ?raw @ [drop (length (concat (take k ?raw)) + k) s]"] by simp
  qed
qed

lemma split_limited_none: "split_limited flags delim None s = split_pieces flags delim s"
proof -
  have "find (\<lambda>k. False) xs = None" for xs :: "nat list" by (induction xs) simp_all
  then show ?thesis by (simp add: split_limited_def split_pieces_def reached_def Let_def)
qed

text \<open>The number of parts that may still be cut off when \<open>cnt\<close> were kept.\<close>

definition split_limit :: "int \<Rightarrow> int \<Rightarrow> nat option" where
  "split_limit maxsplit cnt = (if maxsplit < 0 then None else Some (nat (maxsplit - cnt)))"

lemma reached_limit: "reached (split_limit maxsplit cnt) 0 \<longleftrightarrow> 0 \<le> maxsplit \<and> maxsplit \<le> cnt"
  by (auto simp: reached_def split_limit_def)

lemma split_limit_minus: "map_option (\<lambda>n. n - m) (split_limit maxsplit cnt) = split_limit maxsplit (cnt + int m)"
  by (auto simp: split_limit_def nat_diff_distrib')

lemma cstr_at_nul: "cstring_ok r \<Longrightarrow> cstr_at (A @ (r @ 0 # u) @ R) (length A) = r"
  using takeWhile_nul [of r "u @ R"] by (simp add: cstr_at_def)

lemma append_refs_items:
  "append_refs list mem refs = list\<lparr>sl_items := sl_items list @ map plain_item (map (cstr_at mem) refs)\<rparr>"
  by (induction refs arbitrary: list) (simp_all add: append_refs_def string_list_append_def string_list_append_nodup_def)

text \<open>What the loop has done: \<open>ps\<close> are the parts, \<open>B\<close> is the block up to where it started.\<close>

definition split_done ::
  "'u string_list \<Rightarrow> nat list \<Rightarrow> byte list \<Rightarrow> nat \<Rightarrow> bool \<Rightarrow> int \<Rightarrow> cstring list \<Rightarrow>
   ('u string_list \<times> nat list \<times> byte list \<times> int) result \<Rightarrow> bool" where
  "split_done list refs mem n in_place cnt ps r \<longleftrightarrow>
     (\<exists>refs' mem'. length mem' = length mem \<and> take n mem' = take n mem \<and>
        (if in_place then map (cstr_at mem') refs' = ps else refs' = [] \<and> mem' = mem) \<and>
        r = Inr (if in_place then list else list\<lparr>sl_items := sl_items list @ map plain_item ps\<rparr>, refs @ refs', mem',
                 cnt + int (length ps)))"

text \<open>The part one round of the loop cuts off: \<open>w\<close> is skipped, \<open>a\<close> is the part and \<open>b\<close> the text from its delimiter on.\<close>

definition split_cut :: "u32 \<Rightarrow> cstring \<Rightarrow> bool \<Rightarrow> byte list \<Rightarrow> nat \<Rightarrow> cstring \<Rightarrow> cstring \<Rightarrow> cstring \<Rightarrow> bool" where
  "split_cut flags delim full mem p w a b \<longleftrightarrow>
     (if flags AND STRING_LIST_SPLIT_TRIM \<noteq> 0 then p + length (takeWhile isspace (cstr_at mem p)) else p) = p + length w \<and>
     (if full then None else strpbrk mem (p + length w) delim) = (if b = [] then None else Some (p + length w + length a)) \<and>
     treat flags [w @ a] = one_piece flags a \<and>
     (\<not> full \<longrightarrow> list_all (\<lambda>c. c \<notin> set delim) (w @ a)) \<and> (b \<noteq> [] \<longrightarrow> \<not> full \<and> hd b \<in> set delim)"

lemma split_cut_exists:
  assumes trim: "flags AND STRING_LIST_SPLIT_TRIM \<noteq> 0 \<longrightarrow> list_all (\<lambda>c. \<not> isspace c) delim" and ok: "cstring_ok s"
  obtains w a b where "s = w @ a @ b" "split_cut flags delim full (A @ s @ 0 # post) (length A) w a b"
proof -
  let ?trim = "flags AND STRING_LIST_SPLIT_TRIM \<noteq> 0" and ?mem = "A @ s @ 0 # post"
  define w where "w = (if ?trim then takeWhile isspace s else [])"
  define s' where "s' = (if ?trim then dropWhile isspace s else s)"
  define a where "a = (if full then s' else takeWhile (\<lambda>c. c \<notin> set delim) s')"
  define b where "b = (if full then [] else dropWhile (\<lambda>c. c \<notin> set delim) s')"
  have s: "s = w @ a @ b" by (simp add: w_def s'_def a_def b_def)
  have "cstring_ok (w @ a @ b)" using ok by (simp only: s [symmetric])
  then have ab: "cstring_ok (a @ b)" by simp
  have w: "\<forall>c\<in>set w. isspace c" "flags AND STRING_LIST_SPLIT_TRIM = 0 \<longrightarrow> w = []"
    by (auto simp: w_def dest: set_takeWhileD)
  have nosp: "?trim \<longrightarrow> \<not> isspace (chr a)"
  proof
    assume trim: ?trim
    have "\<not> isspace (chr (dropWhile isspace s))" by (induction s) (auto simp: isspace_iff)
    then have "\<not> isspace (chr s')" using trim by (simp add: s'_def)
    moreover have "chr a = chr s' \<or> chr a = 0" unfolding a_def by (cases s') auto
    ultimately show "\<not> isspace (chr a)" by (auto simp: isspace_iff)
  qed
  have "cstr_at ?mem (length A) = s" using takeWhile_nul [OF ok] by (simp add: cstr_at_def)
  moreover have "cstr_at ?mem (length A + length w) = a @ b" using takeWhile_nul [OF ab, of post] by (simp add: cstr_at_def s)
  moreover have "takeWhile (\<lambda>c. c \<notin> set delim) (a @ b) = a" if "\<not> full" using that by (simp add: a_def b_def)
  moreover have "list_all (\<lambda>c. c \<notin> set delim) (w @ a)" if "\<not> full"
    using that trim w by (auto simp: a_def list_all_iff dest: set_takeWhileD)
  moreover have "\<not> full \<and> hd b \<in> set delim" if "b \<noteq> []"
    using that hd_dropWhile [of "\<lambda>c. c \<notin> set delim" s'] by (auto simp: b_def split: if_splits)
  moreover have "full \<Longrightarrow> b = []" by (simp add: b_def)
  ultimately have "split_cut flags delim full ?mem (length A) w a b"
    unfolding split_cut_def using treat_one [OF w nosp] by (cases full) (simp_all add: strpbrk_def Let_def w_def)
  with s show thesis by (rule that)
qed

lemma rstrip_ok: "cstring_ok a \<Longrightarrow> cstring_ok (rstrip a)"
  by (auto simp: cstring_ok_def rstrip_def dest: set_dropWhileD)

text \<open>The strings at the positions one round has stored are the parts it has cut off, whatever follows.\<close>

lemma stored_piece:
  assumes "cstring_ok a" and "list_all (\<lambda>r. \<exists>u. a' @ [x] = r @ 0 # u) (one_piece flags a)"
  shows "map (cstr_at ((A @ a' @ [x]) @ R)) (map (\<lambda>_. length A) (one_piece flags a)) = one_piece flags a"
proof -
  have "cstr_at ((A @ a' @ [x]) @ R) (length A) = r" if r: "r \<in> set (one_piece flags a)" for r
  proof -
    have "cstring_ok r" using r assms(1) rstrip_ok by (auto simp: one_piece_def Let_def split: if_splits)
    moreover obtain v where v: "a' @ [x] = r @ 0 # v" using assms(2) r by (auto simp: list_all_iff)
    ultimately show ?thesis unfolding v using cstr_at_nul [of r A v R] by simp
  qed
  then show ?thesis by (simp add: map_idI)
qed

text \<open>A round that cuts off the last part, and one that is followed by others.\<close>

lemma split_done_last:
  assumes "length mem' = length mem" "take n mem' = take n mem" "\<not> in_place \<longrightarrow> mem' = mem"
    and "in_place \<longrightarrow> map (cstr_at mem') refs' = ps"
  shows "split_done list refs mem n in_place cnt ps
    (Inr (if in_place then list else list\<lparr>sl_items := sl_items list @ map plain_item ps\<rparr>, refs @ (if in_place then refs' else []),
          mem', cnt + int (length ps)))"
  unfolding split_done_def using assms
  by (intro exI [of _ "if in_place then refs' else []"] exI [of _ mem']) auto

lemma split_done_step:
  assumes step: "split_done (if in_place then list else list\<lparr>sl_items := sl_items list @ map plain_item ps\<rparr>)
      (refs @ (if in_place then refs1 else [])) (B @ R) (length B) in_place (cnt + int (length ps)) qs r"
    and mem: "length (B @ R) = length mem" "\<not> in_place \<longrightarrow> B @ R = mem" "n \<le> length B" "take n B = take n mem"
    and own: "\<And>R. in_place \<longrightarrow> map (cstr_at (B @ R)) refs1 = ps"
  shows "split_done list refs mem n in_place cnt (ps @ qs) r"
proof -
  obtain refs' mem' where IH: "length mem' = length (B @ R)" "take (length B) mem' = B"
    "if in_place then map (cstr_at mem') refs' = qs else refs' = [] \<and> mem' = B @ R"
    "r = Inr (if in_place then list else list\<lparr>sl_items := sl_items list @ map plain_item (ps @ qs)\<rparr>,
          (refs @ (if in_place then refs1 else [])) @ refs', mem', cnt + int (length ps) + int (length qs))"
    using step unfolding split_done_def by auto
  have mem': "mem' = B @ drop (length B) mem'" using IH(2) by (metis append_take_drop_id)
  have "take n mem' = take n mem" using mem(3,4) mem' by (metis append_Nil2 diff_is_0_eq' take_0 take_append)
  then show ?thesis
    unfolding split_done_def using IH mem own [of "drop (length B) mem'"] mem'
    by (intro exI [of _ "(if in_place then refs1 else []) @ refs'"] exI [of _ mem']) auto
qed

lemma split_loop_limited:
  assumes trim: "flags AND STRING_LIST_SPLIT_TRIM \<noteq> 0 \<longrightarrow> list_all (\<lambda>c. \<not> isspace c) delim"
  shows "cstring_ok s \<Longrightarrow> 0 \<le> cnt \<Longrightarrow> cnt + int (length s) + 1 < 2 ^ 31 \<Longrightarrow>
    split_done list refs (A @ s @ 0 # post) (length A) in_place cnt (split_limited flags delim (split_limit maxsplit cnt) s)
      (split_loop list refs (A @ s @ 0 # post) (length A) delim maxsplit in_place flags cnt)"
proof (induction "length s" arbitrary: s A list refs cnt rule: less_induct)
  case less
  let ?mem = "A @ s @ 0 # post" and ?full = "0 \<le> maxsplit \<and> maxsplit \<le> cnt" and ?limit = "split_limit maxsplit cnt"
  obtain w a b where s: "s = w @ a @ b" and "split_cut flags delim ?full ?mem (length A) w a b"
    using split_cut_exists [OF trim less.prems(1), of ?full A post] by blast
  note cut = this(2) [unfolded split_cut_def]
  let ?A = "A @ w"
  define endp where "endp = (if b = [] then None else Some (length A + length w + length a))"
  define ps where "ps = one_piece flags a"
  define R where "R = tl (b @ 0 # post)"
  have "cstring_ok (w @ a @ b)" using less.prems(1) by (simp only: s [symmetric])
  then have ok: "cstring_ok a" "cstring_ok b" by simp_all
  have n: "length ps \<le> 1" using treat_one_le [of flags "w @ a"] cut by (simp add: ps_def)
  have mem: "?mem = ?A @ a @ b @ 0 # post" by (simp add: s)
  have ends: "endp = Some (length ?A + length a) \<or> endp = None \<and> hd (b @ 0 # post) = 0" and ne: "b @ 0 # post \<noteq> []"
    by (simp_all add: endp_def)
  obtain a' x where one: "length a' = length a" "\<not> in_place \<longrightarrow> a' @ x # R = a @ b @ 0 # post"
      "in_place \<longrightarrow> list_all (\<lambda>r. \<exists>u. a' @ [x] = r @ 0 # u) ps"
      "append_one list refs (?A @ a @ b @ 0 # post) (length ?A) endp in_place flags =
        Inr (if in_place then list else list\<lparr>sl_items := sl_items list @ map plain_item ps\<rparr>,
             if in_place then refs @ map (\<lambda>_. length ?A) ps else refs, ?A @ a' @ x # R, int (length ps))"
    using append_one_piece [OF ok(1) ne ends, of in_place flags list refs] unfolding ps_def R_def by blast
  let ?B = "?A @ a' @ [x]" and ?refs = "map (\<lambda>_. length ?A) ps"
  let ?list = "if in_place then list else list\<lparr>sl_items := sl_items list @ map plain_item ps\<rparr>"
  have call: "append_one list refs ?mem (length A + length w) endp in_place flags =
      Inr (?list, refs @ (if in_place then ?refs else []), ?B @ R, int (length ps))"
    using one(4) unfolding mem by simp
  have iv: "int_val (cnt + int (length ps)) = Inr (cnt + int (length ps))" using less.prems(2,3) n by simp
  have run: "split_loop list refs ?mem (length A) delim maxsplit in_place flags cnt =
      (case endp of None \<Rightarrow> Inr (?list, refs @ (if in_place then ?refs else []), ?B @ R, cnt + int (length ps))
       | Some e \<Rightarrow> split_loop ?list (refs @ (if in_place then ?refs else [])) (?B @ R) (e + 1) delim maxsplit in_place flags
           (cnt + int (length ps)))"
    unfolding split_loop.simps [of list refs ?mem] Let_def conjunct1 [OF cut] conjunct1 [OF conjunct2 [OF cut]]
      endp_def [symmetric] call rbind_simps prod.case iv ..
  have own: "in_place \<longrightarrow> map (cstr_at (?B @ R')) ?refs = ps" for R'
    using stored_piece [OF ok(1), of a' x flags ?A R'] one(3) by (simp add: ps_def)
  have len: "length (?B @ R) = length ?mem" using one(1) by (cases b) (simp_all add: s R_def)
  have keep: "\<not> in_place \<longrightarrow> ?B @ R = ?mem" using one(2) mem by simp
  show ?case
  proof (cases b)
    case Nil
    have "split_limited flags delim ?limit s = ps"
      using split_limited_rest [of ?limit flags delim s] split_limited_last [of "w @ a" delim flags ?limit] cut
        reached_limit [of maxsplit cnt] s Nil by (cases ?full) (simp_all add: ps_def list_all_iff)
    then show ?thesis
      unfolding run using split_done_last [OF len _ keep own, of "length A" list refs cnt] Nil
      by (cases in_place) (simp_all add: endp_def)
  next
    case (Cons d b')
    have nf: "\<not> ?full" and d: "d \<in> set delim" and x: "\<forall>c\<in>set (w @ a). c \<notin> set delim"
      using cut Cons by (auto simp: list_all_iff)
    let ?qs = "split_limited flags delim (split_limit maxsplit (cnt + int (length ps))) b'"
    have qs: "split_limited flags delim ?limit s = ps @ ?qs"
      using split_limited_step [OF x d, of ?limit flags b'] nf reached_limit [of maxsplit cnt] cut s Cons
      by (simp add: split_limit_minus ps_def)
    have e: "R = b' @ 0 # post" "endp = Some (length A + length w + length a)" "length A + length w + length a + 1 = length ?B"
      using Cons one(1) by (simp_all add: R_def endp_def)
    have "split_done ?list (refs @ (if in_place then ?refs else [])) (?B @ R) (length ?B) in_place (cnt + int (length ps)) ?qs
        (split_loop ?list (refs @ (if in_place then ?refs else [])) (?B @ R) (length ?B) delim maxsplit in_place flags
           (cnt + int (length ps)))"
      unfolding e(1) by (rule less.hyps) (use s Cons ok less.prems n in simp_all)
    from split_done_step [OF this len keep _ _ own, of "length A"] show ?thesis
      unfolding run e(2) option.case e(3) qs by simp
  qed
qed

context string_cmp
begin

lemma items_compare_fn: "compare_fn (cmp_items cmp :: 'u string_list_item \<Rightarrow> 'u string_list_item \<Rightarrow> int)"
  by (rule by_string.compare_fn_axioms)

end

subsection \<open>Properties\<close>

text \<open>C38: on a list that is sorted by its comparison function, inserting keeps the order and adds the string
  at the returned index, unless an equal one is there already, whose index is returned; looking up, testing
  and removing find exactly the equal string.  The binary search never leaves the array.\<close>

theorem string_list_sorted_ops:
  fixes list :: "'u string_list" and string
  assumes "string_cmp (sl_compare list)" "sl_sorted (sl_compare list) (sl_items list)" "length (sl_items list) < 2 ^ 31"
  shows "(\<exists>i\<le>length (sl_items list).
      string_list_insert list string = Inr (list\<lparr>sl_items := sl_inserted (sl_compare list) (sl_items list) string i\<rparr>, i) \<and>
      sl_sorted (sl_compare list) (sl_inserted (sl_compare list) (sl_items list) string i) \<and>
      sl_compare list string (si_string (sl_inserted (sl_compare list) (sl_items list) string i ! i)) = 0 \<and>
      string_list_lookup list string = Inr (if sl_member (sl_compare list) (sl_items list) string then Some i else None)) \<and>
    string_list_has_string list string = Inr (sl_member (sl_compare list) (sl_items list) string) \<and>
    string_list_remove list string =
      Inr (list\<lparr>sl_items := filter (\<lambda>it. sl_compare list string (si_string it) \<noteq> 0) (sl_items list)\<rparr>)"
  using string_cmp.string_list_ops [OF assms(1) refl assms(2,3), of string] by blast

theorem string_list_sorted_ops_witness:
  "string_list_has_string (\<lparr>sl_items = [plain_item [0x61], plain_item [0x63]], sl_strdup = True, sl_cmp = None\<rparr> :: unit string_list)
     [0x62] = Inr False \<and>
   string_list_remove \<lparr>sl_items = [plain_item [0x61], plain_item [0x63]], sl_strdup = True, sl_cmp = None\<rparr> [0x63] =
     Inr \<lparr>sl_items = [plain_item [0x61] :: unit string_list_item], sl_strdup = True, sl_cmp = None\<rparr>"
proof -
  let ?l = "\<lparr>sl_items = [plain_item [0x61], plain_item [0x63]], sl_strdup = True, sl_cmp = None\<rparr> :: unit string_list"
  have c: "sl_compare ?l = strcmp" by (simp add: sl_compare_def)
  have cmp: "string_cmp (sl_compare ?l)" unfolding c by (rule by_strcmp.string_cmp_axioms)
  have sorted: "sl_sorted (sl_compare ?l) (sl_items ?l)" by (simp add: c sl_sorted_def)
  have len: "length (sl_items ?l) < 2 ^ 31" by simp
  note ops = string_list_sorted_ops [OF cmp sorted len, THEN conjunct2]
  show ?thesis using ops [of "[0x62]"] ops [of "[0x63]"] unfolding c by (simp add: sl_member_def)
qed

text \<open>C39: \<^verbatim>\<open>string_list_sort()\<close> is a stable sort that stays in the temporary array, and
  \<^verbatim>\<open>string_list_remove_duplicates()\<close> then leaves a strictly sorted list with the same members, as the functions
  on sorted lists need it.\<close>

theorem string_list_sort_unique:
  fixes list :: "'u string_list"
  assumes cmp: "string_cmp (sl_compare list)" and len: "length (sl_items list) * 16 < 2 ^ 64"
  shows "\<exists>items uniq.
    string_list_sort list = Inr (list\<lparr>sl_items := items\<rparr>) \<and> mset items = mset (sl_items list) \<and>
    sorted_wrt (\<lambda>a b. sl_compare list (si_string a) (si_string b) \<le> 0) items \<and>
    (\<forall>it. filter (\<lambda>y. cmp_items (sl_compare list) it y = 0) items =
          filter (\<lambda>y. cmp_items (sl_compare list) it y = 0) (sl_items list)) \<and>
    string_list_remove_duplicates (list\<lparr>sl_items := items\<rparr>) = Inr (list\<lparr>sl_items := uniq\<rparr>) \<and>
    sl_sorted (sl_compare list) uniq \<and>
    (\<forall>s. sl_member (sl_compare list) uniq s \<longleftrightarrow> sl_member (sl_compare list) (sl_items list) s)"
proof -
  let ?c = "sl_compare list"
  note cmp' = string_cmp.items_compare_fn [OF cmp, where 'u = 'u]
  obtain items where items: "QSORT_S 16 (cmp_items ?c) (sl_items list) = Inr items" "mset items = mset (sl_items list)"
      "sorted_wrt (\<lambda>a b. cmp_items ?c a b \<le> 0) items"
      "\<forall>w. filter (\<lambda>z. cmp_items ?c w z = 0) items = filter (\<lambda>z. cmp_items ?c w z = 0) (sl_items list)"
    using compare_fn.QSORT_S_sorts [OF cmp' len] by auto
  have mem: "sl_member ?c items s \<longleftrightarrow> sl_member ?c (sl_items list) s" for s
    using mset_eq_setD [OF items(2)] by (simp add: sl_member_def)
  have same: "sl_compare (list\<lparr>sl_items := items\<rparr>) = ?c" by (simp add: sl_compare_def)
  obtain uniq where uniq: "string_list_remove_duplicates (list\<lparr>sl_items := items\<rparr>) = Inr (list\<lparr>sl_items := uniq\<rparr>)"
      "sl_sorted ?c uniq" "\<forall>s. sl_member ?c uniq s \<longleftrightarrow> sl_member ?c items s"
  proof (cases items)
    case Nil
    then show thesis using that [of "[]"] by (simp add: string_list_remove_duplicates_def sl_sorted_def)
  next
    case (Cons x ys)
    have d: "sl_sorted ?c (x # dedup ?c x ys)" "\<forall>s. sl_member ?c (x # dedup ?c x ys) s \<longleftrightarrow> sl_member ?c (x # ys) s"
      using string_cmp.dedup_sorted [OF cmp, of x ys] items(3) Cons by simp_all
    show thesis
    proof (cases ys)
      case Nil
      then show thesis using that [of items] d Cons by (simp add: string_list_remove_duplicates_def)
    next
      case (Cons y zs)
      then show thesis
        using that [of "x # dedup ?c x ys"] d \<open>items = x # ys\<close> duplicates_loop_dedup [of "[x]" ?c "[]" ys] same
        by (auto simp: string_list_remove_duplicates_def)
    qed
  qed
  show ?thesis
    using items uniq mem by (intro exI [of _ items] exI [of _ uniq]) (simp add: string_list_sort_def cmp_items_def)
qed

theorem string_list_sort_unique_witness:
  "\<exists>items uniq.
    string_list_sort \<lparr>sl_items = [plain_item [0x62], plain_item [0x61], plain_item [0x62]], sl_strdup = True, sl_cmp = None\<rparr> =
      Inr \<lparr>sl_items = items, sl_strdup = True, sl_cmp = None\<rparr> \<and>
    string_list_remove_duplicates \<lparr>sl_items = items, sl_strdup = True, sl_cmp = None\<rparr> =
      Inr \<lparr>sl_items = uniq, sl_strdup = True, sl_cmp = None\<rparr> \<and> sl_sorted strcmp (uniq :: unit string_list_item list)"
proof -
  let ?l = "\<lparr>sl_items = [plain_item [0x62], plain_item [0x61], plain_item [0x62]], sl_strdup = True, sl_cmp = None\<rparr> :: unit string_list"
  have c: "sl_compare ?l = strcmp" by (simp add: sl_compare_def)
  have "string_cmp (sl_compare ?l)" unfolding c by (rule by_strcmp.string_cmp_axioms)
  then show ?thesis using string_list_sort_unique [of ?l] unfolding c by auto
qed

text \<open>C40: splitting a string of less than 2 GiB appends, in order, the parts between the delimiters, trimmed on both
  sides and without the empty ones as the flags ask, and returns their number.  Without a limit these are all
  parts; with one, the string is cut until that many parts are kept, and the rest of the text is the last part.
  The variant that works in place gives the same list, whose strings are the ones that stand in the changed block
  afterwards, and leaves the block before the string alone; the other one does not change the block.  Each
  refuses the lists of the other.  When parts are trimmed no delimiter may be white space.\<close>

theorem string_list_split_correct:
  assumes "cstring_ok s" "length s + 1 < 2 ^ 31"
    and "flags AND STRING_LIST_SPLIT_TRIM \<noteq> 0 \<longrightarrow> list_all (\<lambda>c. \<not> isspace c) delim"
  shows "let mem = A @ s @ 0 # post; ps = split_limited flags delim (if maxsplit < 0 then None else Some (nat maxsplit)) s;
      list' = list\<lparr>sl_items := sl_items list @ map plain_item ps\<rparr> in
    (maxsplit < 0 \<longrightarrow> ps = split_pieces flags delim s) \<and>
    (if sl_strdup list then
       string_list_split_f list mem (length A) delim maxsplit flags = Inr (list', mem, int (length ps)) \<and>
       string_list_split_in_place_f list mem (length A) delim maxsplit flags = Inl Bug_called
     else
       string_list_split_f list mem (length A) delim maxsplit flags = Inl Bug_called \<and>
       (\<exists>mem' refs. string_list_split_in_place_f list mem (length A) delim maxsplit flags = Inr (list', mem', int (length ps)) \<and>
         length mem' = length mem \<and> take (length A) mem' = A \<and> map (cstr_at mem') refs = ps))"
proof -
  let ?ps = "split_limited flags delim (split_limit maxsplit 0) s"
  have lim: "(if maxsplit < 0 then None else Some (nat maxsplit)) = split_limit maxsplit 0" by (simp add: split_limit_def)
  have all: "maxsplit < 0 \<longrightarrow> ?ps = split_pieces flags delim s" by (simp add: split_limit_def split_limited_none)
  have small: "0 + int (length s) + 1 < 2 ^ 31" using assms(2) by simp
  note loop = split_loop_limited [OF assms(3,1) order_refl small, of list "[]" A post _ maxsplit]
  obtain refs mem' where "length mem' = length (A @ s @ 0 # post)" "take (length A) mem' = A" and refs: "map (cstr_at mem') refs = ?ps"
    "split_loop list [] (A @ s @ 0 # post) (length A) delim maxsplit True flags 0 = Inr (list, refs, mem', int (length ?ps))"
    using loop [of True] by (auto simp: split_done_def)
  moreover have "append_refs list mem' refs = list\<lparr>sl_items := sl_items list @ map plain_item ?ps\<rparr>"
    unfolding append_refs_items refs(1) ..
  moreover have "split_loop list [] (A @ s @ 0 # post) (length A) delim maxsplit False flags 0 =
      Inr (list\<lparr>sl_items := sl_items list @ map plain_item ?ps\<rparr>, [], A @ s @ 0 # post, int (length ?ps))"
    using loop [of False] by (auto simp: split_done_def)
  ultimately show ?thesis
    unfolding Let_def lim using all
    by (cases "sl_strdup list")
      (auto simp: string_list_split_f_def string_list_split_in_place_f_def split_string_def append_refs_def intro!: exI [of _ refs])
qed

theorem string_list_split_correct_witness:
  "string_list_split_f (STRING_LIST_INIT_DUP :: unit string_list) [0x61, 0x3a, 0x20, 0x3a, 0x62, 0x20, 0] 0 [0x3a] (- 1) 3 =
     Inr (STRING_LIST_INIT_DUP\<lparr>sl_items := [plain_item [0x61], plain_item [0x62]]\<rparr>,
          [0x61, 0x3a, 0x20, 0x3a, 0x62, 0x20, 0], int (length [[0x61], [0x62 :: byte]])) \<and>
   string_list_split_f (STRING_LIST_INIT_DUP :: unit string_list) [0x61, 0x3a, 0x62, 0x3a, 0x63, 0] 0 [0x3a] 1 0 =
     Inr (STRING_LIST_INIT_DUP\<lparr>sl_items := [plain_item [0x61], plain_item [0x62, 0x3a, 0x63]]\<rparr>,
          [0x61, 0x3a, 0x62, 0x3a, 0x63, 0], int (length [[0x61], [0x62, 0x3a, 0x63 :: byte]]))"
proof
  let ?l = "STRING_LIST_INIT_DUP :: unit string_list"
  show "string_list_split_f ?l [0x61, 0x3a, 0x20, 0x3a, 0x62, 0x20, 0] 0 [0x3a] (- 1) 3 =
     Inr (?l\<lparr>sl_items := [plain_item [0x61], plain_item [0x62]]\<rparr>,
          [0x61, 0x3a, 0x20, 0x3a, 0x62, 0x20, 0], int (length [[0x61], [0x62 :: byte]]))"
    using string_list_split_correct [of "[0x61, 0x3a, 0x20, 0x3a, 0x62, 0x20]" 3 "[0x3a]" "[]" "[]" "- 1" ?l]
    by (simp add: STRING_LIST_INIT_DUP_def split_limited_def split_pieces_def reached_def treat_def STRING_LIST_SPLIT_TRIM_def
        STRING_LIST_SPLIT_NONEMPTY_def rstrip_def isspace_iff Let_def)
  show "string_list_split_f ?l [0x61, 0x3a, 0x62, 0x3a, 0x63, 0] 0 [0x3a] 1 0 =
     Inr (?l\<lparr>sl_items := [plain_item [0x61], plain_item [0x62, 0x3a, 0x63]]\<rparr>,
          [0x61, 0x3a, 0x62, 0x3a, 0x63, 0], int (length [[0x61], [0x62, 0x3a, 0x63 :: byte]]))"
    using string_list_split_correct [of "[0x61, 0x3a, 0x62, 0x3a, 0x63]" 0 "[0x3a]" "[]" "[]" 1 ?l]
    by (simp add: STRING_LIST_INIT_DUP_def split_limited_def reached_def treat_def upt_rec Let_def)
qed

end
