(* ===== verification/Spec2Isabelle.thy ===== *)
theory Spec2Isabelle
  imports Git_Varint Git_Diff_Delta Git_Pack_Header Git_Bitmap Git_Toposort Git_Hex Git_Base85 Git_Url Git_Quote Git_String_List
begin

text \<open>
  This library models the self-contained core of git: the routines below the commands that encode and
  decode data, keep data structures and build text.  The commands, the object store and the network code
  call them; they call each other as follows.

  \<^item> Packs store objects behind small headers, and large objects as deltas against a base.  The headers
    are written by \<^verbatim>\<open>pack-write.c\<close> and read by \<^verbatim>\<open>packfile.c\<close>; \<^verbatim>\<open>diff-delta.c\<close> indexes a source buffer with
    rolling fingerprints and writes a delta, \<^verbatim>\<open>patch-delta.c\<close> applies it.
  \<^item> Reachability bitmaps are EWAH compressed (\<^verbatim>\<open>ewah/ewah_bitmap.c\<close>, \<^verbatim>\<open>ewah/ewah_rlw.c\<close>) and are expanded
    to plain bitmaps (\<^verbatim>\<open>ewah/bitmap.c\<close>) for set operations.
  \<^item> Commits are listed in topological order (\<^verbatim>\<open>commit.c\<close>), with a priority queue (\<^verbatim>\<open>prio-queue.c\<close>).
  \<^item> Names, refs and options are kept in lists of strings (\<^verbatim>\<open>string-list.c\<close>), sorted by a merge sort
    (\<^verbatim>\<open>compat/qsort_s.c\<close>).
  \<^item> Text is built in string buffers (\<^verbatim>\<open>strbuf.c\<close>); URLs (\<^verbatim>\<open>url.c\<close>), paths (\<^verbatim>\<open>path.c\<close>) and quoting
    (\<^verbatim>\<open>quote.c\<close>) are written against them.  Object names are hexadecimal (\<^verbatim>\<open>hex.c\<close>), binary patches base 85
    (\<^verbatim>\<open>base85.c\<close>).

  \<^bold>\<open>Conventions.\<close>

  Bytes, \<^verbatim>\<open>uint32_t\<close>, \<^verbatim>\<open>uint64_t\<close> and a \<^verbatim>\<open>size_t\<close> that is computed with wrap-around are words of their width;
  lengths of lists and indices into them are natural numbers.  Where a \<^verbatim>\<open>size_t\<close> counts more than the bytes
  of a block, as the bit positions and bit sizes of compressed bitmaps do, it is a natural number that is
  reduced modulo \<open>2 ^ 64\<close> after every operation (\<open>size_t\<close>).  A length that is assigned to an \<^verbatim>\<open>int\<close> is converted
  by \<open>c_int\<close>, and \<open>int_val\<close> is the fault of an \<^verbatim>\<open>int\<close> sum out of range.  The platform is LP64 and POSIX: \<^verbatim>\<open>size_t\<close> has
  64 bits, the only directory separator is the slash and paths have no drive prefix.

  A function that can go wrong returns \<open>'a result\<close>, that is \<open>fault + 'a\<close> (\<open>Git_Prelude\<close>).  A fault is an
  access outside of an object, an undefined shift, an overflow of an \<^verbatim>\<open>int\<close>, a failed assertion, a call of \<^verbatim>\<open>BUG()\<close> or of \<^verbatim>\<open>die()\<close>.  NULL
  and -1 are ordinary results.  So the equation \<open>f x = Inr y\<close> states that the C function returns, without
  undefined behaviour.  A pointer is an index into the list that models its block, or the list of the bytes
  it has not passed yet.  Fresh memory has the content of a parameter \<open>junk\<close>, over which every theorem is
  quantified; whether \<^verbatim>\<open>malloc\<close> succeeds is the parameter \<open>alloc\<close> where the code handles its failure.

  \<^bold>\<open>Theories.\<close>

  \<^item> \<open>Git_Prelude\<close>: types, faults, checked reads and writes, \<open>rbind\<close>, generic lemmas.  \<open>Git_Compat\<close>: the
    overflow checks and \<^verbatim>\<open>ALLOC_GROW\<close> of \<^verbatim>\<open>git-compat-util.h\<close>.
  \<^item> \<open>Git_Varint\<close> (\<^verbatim>\<open>varint.c\<close>): round trip and uniqueness of the encoding.  It introduces the locale \<open>codec\<close>
    of an encoder and a decoder that stops behind what was encoded; the size headers of deltas are its second
    interpretation.
  \<^item> \<open>Git_Patch_Delta\<close> (\<^verbatim>\<open>patch_delta()\<close>, \<^verbatim>\<open>get_delta_hdr_size()\<close>): safety on arbitrary bytes, the limits of the
    size headers, and what a sequence of instructions rebuilds.
  \<^item> \<open>Git_Rabin\<close>, \<open>Git_Delta_Index\<close>, \<open>Git_Diff_Delta\<close> (\<^verbatim>\<open>diff-delta.c\<close>): the fingerprint tables and the rolling
    update; the chained and the packed hash table, with its invariant; the generator with its output buffer.
    The main theorem composes them with \<open>Git_Patch_Delta\<close>: every delta that is generated is applied back to
    the target.
  \<^item> \<open>Git_Pack_Header\<close> (\<^verbatim>\<open>encode_in_pack_object_header()\<close>, \<^verbatim>\<open>unpack_object_header_buffer()\<close>,
    \<^verbatim>\<open>get_delta_base()\<close>): round trips, and bases in front of their deltas for any bytes of a pack.
  \<^item> \<open>Git_Ewah_Rlw\<close>, \<open>Git_Ewah\<close>, \<open>Git_Ewah_Iterator\<close>: the running length word; building a bitmap, which refines
    appending to the list of its words (\<open>ewah_rep\<close>); the iterators under the locale \<open>word_iterator\<close>.
  \<^item> \<open>Git_Bitmap\<close> (\<^verbatim>\<open>ewah/bitmap.c\<close>): refinement of the finite set operations (\<open>bitmap_bits\<close>), also with
    compressed operands.
  \<^item> \<open>Git_Prio_Queue\<close> (\<^verbatim>\<open>prio-queue.c\<close>): the heap under the locale \<open>compare_fn\<close> of a comparison function, which
    the comparison functions of \<^verbatim>\<open>commit.c\<close> interpret.  \<open>Git_Toposort\<close> (\<^verbatim>\<open>sort_in_topological_order()\<close>) uses the
    queue through the locale \<open>work_queue\<close>, which \<open>Git_Prio_Queue\<close>'s operations interpret.
  \<^item> \<open>Git_Hex\<close> (\<^verbatim>\<open>hex.c\<close>, \<^verbatim>\<open>hex-ll.c\<close>, the table of \<^verbatim>\<open>hash.c\<close>) and \<open>Git_Base85\<close>: round trips, and what the
    readers accept and how far they read.
  \<^item> \<open>Git_Ctype\<close> (\<^verbatim>\<open>ctype.c\<close>, \<^verbatim>\<open>sane-ctype.h\<close>): the character table, whose meaning is checked for all bytes.
  \<^item> \<open>Git_Strbuf\<close>, \<open>Git_Strbuf_Text\<close> (\<^verbatim>\<open>strbuf.c\<close>, \<^verbatim>\<open>strbuf.h\<close>): the buffer with its whole block.  \<open>sb_ok\<close> is the
    invariant, \<open>sb_str\<close> the string a buffer stands for.  \<open>yields r s\<close> states that \<open>r\<close> is a well-formed buffer with
    string \<open>s\<close> or that the process died because the address space is exhausted; \<open>gives r s\<close> excludes the
    latter.  The composition lemmas of the two carry the proofs of all later text components.
  \<^item> \<open>Git_Url\<close> (\<^verbatim>\<open>url.c\<close>): percent encoding and decoding.
  \<^item> \<open>Git_Path\<close> (the functions of \<^verbatim>\<open>path.c\<close> on the text of paths): a path is understood by \<open>walk\<close>, the
    directory its components lead to.  Normalizing writes the text of that directory, relative paths lead to
    the same one, and the daemon accepts the paths without aliases.
  \<^item> \<open>Git_Quote\<close> (\<^verbatim>\<open>quote.c\<close>): quoting for the shell, read back in place by the dequoter; quoting in C style, read
    back by the unquoter, which leaves the buffer alone on errors; literals of other languages.
  \<^item> \<open>Git_String_List\<close> (\<^verbatim>\<open>string-list.c\<close>, \<^verbatim>\<open>compat/qsort_s.c\<close>): the locale \<open>string_cmp\<close> is \<open>compare_fn\<close> for strings; in
    it sorted lists are shown to be sets and sorting to be stable.  \<^verbatim>\<open>strcmp()\<close> is its interpretation, and the
    comparison of items a \<open>compare_fn\<close> again, which lets the merge sort be shown correct once.

  \<^bold>\<open>Termination, fuel and bounds.\<close>

  Every loop is a total function; most recurse on a list or have a measure.  Fuel is used where the bound is
  a property of the data: \<open>add_dirty_loop\<close> gets \<open>number + 2\<close> turns, one for each word to add and one for the
  segment that is opened; the generator of deltas gets one turn more than the target has bytes; the iteration over a compressed bitmap gets one turn more than the number of its
  words (\<open>ewah_fuel\<close>); draining a queue and emitting commits get one turn more than there are elements; reading
  all lines gets one turn more than there are bytes.  Running out of fuel is the fault \<open>No_fuel\<close>, and the
  theorems about these loops state results other than faults, so that the fuel is shown to be enough.

  The disjunct of \<open>yields\<close> for a process that dies needs a string of at least \<open>2 ^ 64 - 65\<close> bytes: the text, the
  terminator and the few bytes the growth policy asks for in advance.

  Unbounded where the code has a limit no run can reach: the insertion counter of the priority queue, the
  in-degree of a commit, the count of bytes \<^verbatim>\<open>quote_c_style_counted()\<close> returns, the number of arguments the
  shell dequoter stores and the \<^verbatim>\<open>int\<close> indices of \<^verbatim>\<open>sq_quote_argv()\<close>, the length \<^verbatim>\<open>decode_85()\<close> takes, and the
  \<^verbatim>\<open>int\<close> lengths of the functions of \<^verbatim>\<open>path.c\<close> other than \<^verbatim>\<open>relative_path()\<close>.  The \<^verbatim>\<open>int\<close>s of
  \<^verbatim>\<open>strbuf_split_buf()\<close>, \<^verbatim>\<open>string_list_split()\<close>, \<^verbatim>\<open>relative_path()\<close> and the URL decoder are modelled as
  they are, and the theorems about them have the bound of 2 GiB they need.  The positions of a compressed
  bitmap must stay below \<open>2 ^ 64 - 64\<close>, from where \<^verbatim>\<open>ewah_set()\<close> miscounts the words.  Shifting the signed
  \<^verbatim>\<open>off_t\<close> of \<^verbatim>\<open>get_delta_base()\<close> shifts its 64 bits.

  \<^bold>\<open>Not modelled.\<close>

  \<^item> Functions that consist of calls to the operating system or to a library: the commands, file and network
    access, processes, the object store above the encodings, zlib, iconv, regular expressions.
  \<^item> Formatting with \<^verbatim>\<open>vsnprintf()\<close>: a formatted append takes the formatted text as an argument.
  \<^item> Releasing memory, beyond the buffers whose contents it changes.
  \<^item> Wrappers that print into rotating static buffers (\<^verbatim>\<open>oid_to_hex()\<close>).
  \<^item> The pack window and the pack index (arguments of \<open>get_delta_base\<close>), the commit graph and the reading of
    commits (arguments of \<open>sort_in_topological_order\<close>).
  \<^item> The diff algorithms, merging, revision walking, configuration and references, whose state is spread
    over files and global tables.
\<close>

end
